(* ===== verification/Prelude.thy ===== *)
theory Prelude
  imports Main "HOL-Library.Word"
begin

unbundle bit_operations_syntax

text \<open>
  What every component shares: the machine integers and bytes of the Go program, the dynamic
  values that Go keeps in an \<open>any\<close>, the outcome of a Go call (a value, an \<open>error\<close> or a
  panic), the big-endian codec of \<open>encoding/binary\<close>, checked indexing and slicing, and the
  overwriting of a byte array at an offset. The lemmas are generic: lists cut at offsets, and the codec's round trips.
\<close>

section \<open>Machine types\<close>

type_synonym byte = "8 word"
type_synonym u16 = "16 word"
type_synonym u32 = "32 word"
type_synonym u64 = "64 word"

text \<open>
  A Go string is a sequence of bytes; an Isabelle \<open>char\<close> is one byte, so \<open>string\<close> is
  Go's \<open>string\<close>. The conversions \<open>[]byte(s)\<close> and \<open>string(b)\<close> are total and inverse.
\<close>

definition bytes_of_string :: "string \<Rightarrow> byte list" where
  "bytes_of_string s = map of_char s"

definition string_of_bytes :: "byte list \<Rightarrow> string" where
  "string_of_bytes bs = map (\<lambda>b. char_of (unat b)) bs"

text \<open>
  The dynamic types a Go \<open>any\<close> has in this program. Integers are words (signed ones are read
  with \<open>sint\<close>); a float is its IEEE 754 bit pattern; \<open>nil\<close> is \<open>None\<close> of
  \<open>gvalue option\<close>.
\<close>

datatype gvalue =
    VBool bool
  | VInt16 u16
  | VInt32 u32
  | VInt64 u64
  | VUint32 u32
  | VFloat32 u32
  | VFloat64 u64
  | VString string
  | VBytes "byte list"

type_synonym any = "gvalue option"

section \<open>Outcomes of a Go call\<close>

text \<open>One constructor per message that makes an \<open>error\<close>, with the values it formats.\<close>

datatype go_error =
    ErrBadText string string              \<comment> \<open>types.go: a \<open>TextDecode\<close> that fails, with the type's name\<close>
  | ErrEncodeKind string any              \<comment> \<open>types.go: a \<open>TextEncode\<close> given another dynamic type\<close>
  | ErrRelationExists string              \<comment> \<open>catalog.go \<open>CreateTable\<close>\<close>
  | ErrTableMissing string                \<comment> \<open>catalog.go \<open>DropTable\<close>\<close>
  | ErrRelationMissing string             \<comment> \<open>catalog.go \<open>GetTable\<close>\<close>
  | ErrNoSpace                            \<comment> \<open>page.go \<open>AddTuple\<close>\<close>
  | ErrItemRange u16                      \<comment> \<open>page.go \<open>GetTuple\<close>\<close>
  | ErrUpdateRange u16                    \<comment> \<open>heap.go \<open>UpdateTupleHeader\<close>\<close>
  | ErrReadPage u32                       \<comment> \<open>heap.go \<open>ReadPage\<close>: a short read\<close>
  | ErrTupleTooLarge nat                  \<comment> \<open>heap.go \<open>InsertTuple\<close>\<close>
  | ErrNewPage go_error                   \<comment> \<open>heap.go \<open>InsertTuple\<close>: a fresh page is too small\<close>
  | ErrValueCount nat nat                 \<comment> \<open>tuple.go \<open>EncodeTuple\<close>, executor.go \<open>executeInsert\<close>\<close>
  | ErrUnknownType u32                    \<comment> \<open>tuple.go\<close>
  | ErrExpected string any                \<comment> \<open>tuple.go \<open>encodeFixed\<close>, \<open>encodeVariable\<close>\<close>
  | ErrUnsupportedFixed u32               \<comment> \<open>tuple.go\<close>
  | ErrShortHeader                        \<comment> \<open>tuple.go \<open>DecodeTuple\<close>\<close>
  | ErrShortBitmap                        \<comment> \<open>tuple.go \<open>DecodeTuple\<close>\<close>
  | ErrShortFixed string                  \<comment> \<open>tuple.go \<open>decodeFixed\<close>\<close>
  | ErrShortVarHeader                     \<comment> \<open>tuple.go \<open>decodeVariable\<close>\<close>
  | ErrShortVar                           \<comment> \<open>tuple.go \<open>decodeVariable\<close>\<close>
  | ErrUnsupportedStmt                    \<comment> \<open>executor.go \<open>Execute\<close>\<close>
  | ErrNoColumns                          \<comment> \<open>executor.go \<open>executeCreateTable\<close>\<close>
  | ErrTypeMissing string                 \<comment> \<open>executor.go \<open>executeCreateTable\<close>\<close>
  | ErrColumnMissing string               \<comment> \<open>executor.go \<open>executeSelect\<close>\<close>
  | ErrColumnMissingIn string string      \<comment> \<open>executor.go \<open>resolveColumns\<close>, \<open>executeUpdate\<close>: column and table\<close>
  | ErrColumnNotFound string              \<comment> \<open>executor.go \<open>evalExpr\<close>\<close>
  | ErrBadOperator string                 \<comment> \<open>executor.go \<open>compareFloat\<close> and its siblings\<close>
  | ErrCannotCompare gvalue gvalue        \<comment> \<open>executor.go \<open>compareValues\<close>\<close>
  | ErrLiteralKind string string u32      \<comment> \<open>executor.go \<open>evalLiteral\<close>\<close>
  | ErrUnsupportedExpr                    \<comment> \<open>executor.go \<open>evalLiteral\<close>\<close>
  | ErrNotNull string                     \<comment> \<open>executor.go \<open>executeInsert\<close>\<close>
  | ErrExpectedKeyword string string      \<comment> \<open>parser.go \<open>expectKeyword\<close>: expected and found\<close>
  | ErrExpectedToken nat string           \<comment> \<open>parser.go \<open>expectToken\<close>: number of the type, found\<close>
  | ErrUnexpectedToken string             \<comment> \<open>parser.go \<open>Parse\<close>\<close>
  | ErrExpectedTypeName string            \<comment> \<open>parser.go \<open>parseColumnSpec\<close>\<close>
  | ErrInvalidFloat string                \<comment> \<open>parser.go \<open>parsePrimary\<close>\<close>
  | ErrInvalidInteger string              \<comment> \<open>parser.go \<open>parsePrimary\<close>\<close>
  | ErrExpectedExpression string          \<comment> \<open>parser.go \<open>parsePrimary\<close>\<close>
  | ErrReadConn                           \<comment> \<open>a read from the connection that ends early\<close>
  | ErrWriteConn                          \<comment> \<open>a write to the connection that fails\<close>
  | ErrProtocolVersion u32                \<comment> \<open>startup.go \<open>ReadStartupMessage\<close>\<close>

text \<open>
  A call returns a value, returns an \<open>error\<close>, or panics (an index or a slice bound out of
  range). Only \<open>recover\<close> in \<open>handleConnection\<close> catches a panic, so a handler of an
  \<open>error\<close> never sees one.
\<close>

datatype 'a result = Ok 'a | Err go_error | Panic

fun bind :: "'a result \<Rightarrow> ('a \<Rightarrow> 'b result) \<Rightarrow> 'b result" where
  "bind (Ok x) f = f x"
| "bind (Err e) f = Err e"
| "bind Panic f = Panic"

named_theorems result_iff \<open>when a composed call returns a value\<close>

lemma bind_Ok_iff [result_iff]: "bind m f = Ok y \<longleftrightarrow> (\<exists>x. m = Ok x \<and> f x = Ok y)"
  by (cases m) auto

lemma bind_Panic_iff [result_iff]: "bind m f = Panic \<longleftrightarrow> m = Panic \<or> (\<exists>x. m = Ok x \<and> f x = Panic)"
  by (cases m) auto

lemma bind_cong [fundef_cong]:
  "m = m' \<Longrightarrow> (\<And>x. m' = Ok x \<Longrightarrow> f x = f' x) \<Longrightarrow> bind m f = bind m' f'"
  by (cases m') auto

lemma bind_assoc: "bind (bind m f) g = bind m (\<lambda>x. bind (f x) g)"
  by (cases m) auto

section \<open>Cutting and overwriting lists\<close>

text \<open>\<open>put_at off bs xs\<close> is \<open>copy(xs[off:], bs)\<close> where the bytes fit.\<close>

definition put_at :: "nat \<Rightarrow> 'a list \<Rightarrow> 'a list \<Rightarrow> 'a list" where
  "put_at off bs xs = take off xs @ bs @ drop (off + length bs) xs"

lemma length_put_at [simp]: "off + length bs \<le> length xs \<Longrightarrow> length (put_at off bs xs) = length xs"
  by (simp add: put_at_def)

lemma put_at_append_exact:
  "length xs = off \<Longrightarrow> length bs = length ys \<Longrightarrow> put_at off bs (xs @ ys @ zs) = xs @ bs @ zs"
  by (simp add: put_at_def)

lemma take_drop_append_exact:
  "length xs = off \<Longrightarrow> length ys = n \<Longrightarrow> take n (drop off (xs @ ys @ zs)) = ys"
  by simp

lemma put_at_head:
  "off + length bs \<le> length xs \<Longrightarrow> put_at off bs (xs @ ys) = put_at off bs xs @ ys"
  by (simp add: put_at_def)

lemma put_at_tail:
  "put_at (length xs + off) bs (xs @ ys) = xs @ put_at off bs ys"
  by (simp add: put_at_def add.assoc)

lemma put_at_same: "off + length bs \<le> length xs \<Longrightarrow> take (length bs) (drop off (put_at off bs xs)) = bs"
  by (simp add: put_at_def)

section \<open>Checked indexing and slicing\<close>

text \<open>
  Go's \<open>xs[i]\<close>, \<open>xs[i] = v\<close>, \<open>xs[a:b]\<close> and \<open>xs[a:]\<close>: out of range they panic. The bound of a slice is
  its capacity, which for the slices the program cuts is the length (they come from \<open>make\<close> with
  one size, from a fixed array, or are cut from such a slice at their end). \<open>put_be\<close> and \<open>get_be\<close> are
  \<open>binary.BigEndian.PutUintN(buf, v)\<close> and \<open>UintN(buf)\<close>, which touch the last of their bytes first.
  The rules below reduce each to the total list function where it is in range.
\<close>

definition go_index :: "'a list \<Rightarrow> nat \<Rightarrow> 'a result" where
  "go_index xs i = (if i < length xs then Ok (xs ! i) else Panic)"

definition go_set :: "'a list \<Rightarrow> nat \<Rightarrow> 'a \<Rightarrow> 'a list result" where
  "go_set xs i v = (if i < length xs then Ok (xs[i := v]) else Panic)"

definition go_slice :: "'a list \<Rightarrow> nat \<Rightarrow> nat \<Rightarrow> 'a list result" where
  "go_slice xs a b = (if a \<le> b \<and> b \<le> length xs then Ok (take (b - a) (drop a xs)) else Panic)"

definition go_from :: "'a list \<Rightarrow> nat \<Rightarrow> 'a list result" where
  "go_from xs a = (if a \<le> length xs then Ok (drop a xs) else Panic)"

named_theorems in_range \<open>checked operations whose bounds hold\<close>

lemma go_index_in [in_range]: "i < length xs \<Longrightarrow> go_index xs i = Ok (xs ! i)"
  by (simp add: go_index_def)

lemma go_set_in [in_range]: "i < length xs \<Longrightarrow> go_set xs i v = Ok (xs[i := v])"
  by (simp add: go_set_def)

lemma go_slice_in [in_range]: "a \<le> b \<Longrightarrow> b \<le> length xs \<Longrightarrow> go_slice xs a b = Ok (take (b - a) (drop a xs))"
  by (simp add: go_slice_def)

lemma go_from_in [in_range]: "a \<le> length xs \<Longrightarrow> go_from xs a = Ok (drop a xs)"
  by (simp add: go_from_def)

lemma go_Ok_iff [result_iff]:
  "go_index xs i = Ok x \<longleftrightarrow> i < length xs \<and> x = xs ! i"
  "go_set xs i v = Ok ys \<longleftrightarrow> i < length xs \<and> ys = xs[i := v]"
  "go_slice xs a b = Ok ys \<longleftrightarrow> a \<le> b \<and> b \<le> length xs \<and> ys = take (b - a) (drop a xs)"
  "go_from xs a = Ok ys \<longleftrightarrow> a \<le> length xs \<and> ys = drop a xs"
  by (auto simp: go_index_def go_set_def go_slice_def go_from_def)

lemma go_Panic_iff [result_iff]:
  "go_index xs i = Panic \<longleftrightarrow> length xs \<le> i"
  "go_set xs i v = Panic \<longleftrightarrow> length xs \<le> i"
  "go_slice xs a b = Panic \<longleftrightarrow> b < a \<or> length xs < b"
  "go_from xs a = Panic \<longleftrightarrow> length xs < a"
  by (auto simp: go_index_def go_set_def go_slice_def go_from_def)

lemma go_no_Err [simp]: "go_index xs i \<noteq> Err e" "go_set xs i v \<noteq> Err e" "go_slice xs a b \<noteq> Err e" "go_from xs a \<noteq> Err e"
  by (simp_all add: go_index_def go_set_def go_slice_def go_from_def)

section \<open>Files of equal blocks\<close>

lemma concat_blocks_nth:
  assumes "\<And>x. x \<in> set xss \<Longrightarrow> length x = n" and "i < length xss"
  shows "take n (drop (i * n) (concat xss)) = xss ! i"
  using assms
proof (induction xss arbitrary: i)
  case (Cons x xss)
  then show ?case by (cases i) (auto simp: add.commute)
qed simp

lemma length_concat_blocks:
  "(\<And>x. x \<in> set xss \<Longrightarrow> length x = n) \<Longrightarrow> length (concat xss) = length xss * n"
  by (induction xss) auto

lemma put_at_concat_blocks:
  assumes "\<And>x. x \<in> set xss \<Longrightarrow> length x = n" and "i < length xss" and "length b = n"
  shows "put_at (i * n) b (concat xss) = concat (xss[i := b])"
  using assms
proof (induction xss arbitrary: i)
  case (Cons x xss)
  show ?case
  proof (cases i)
    case 0
    with Cons.prems show ?thesis by (simp add: put_at_def)
  next
    case (Suc j)
    have "put_at (i * n) b (concat (x # xss)) = x @ put_at (j * n) b (concat xss)"
      using Cons.prems put_at_tail [of x "j * n" b "concat xss"] by (simp add: Suc)
    with Cons show ?thesis by (simp add: Suc)
  qed
qed simp

lemma butlast_append_last: "xs \<noteq> [] \<Longrightarrow> butlast xs @ [y] = xs[length xs - 1 := y]"
  by (induction xs rule: rev_induct) simp_all

section \<open>Big-endian words\<close>

text \<open>
  \<open>be_bytes n v\<close> are the low \<open>n\<close> bytes of \<open>v\<close>, most significant first: what
  \<open>binary.BigEndian.PutUint16/32/64\<close> store. \<open>be_word\<close> reads them back.
\<close>

fun be_bytes :: "nat \<Rightarrow> 'a::len word \<Rightarrow> byte list" where
  "be_bytes 0 v = []"
| "be_bytes (Suc n) v = ucast (drop_bit (8 * n) v) # be_bytes n v"

fun be_word :: "byte list \<Rightarrow> 'a::len word" where
  "be_word [] = 0"
| "be_word (b # bs) = push_bit (8 * length bs) (ucast b) OR be_word bs"

lemma length_be_bytes [simp]: "length (be_bytes n v) = n"
  by (induction n) auto

lemma be_bytes_eq_Nil [simp]: "be_bytes n v = [] \<longleftrightarrow> n = 0"
  by (cases n) auto

lemma be_bytes_numeral:
  "be_bytes (numeral k) v = ucast (drop_bit (8 * pred_numeral k) v) # be_bytes (pred_numeral k) v"
  by (simp add: numeral_eq_Suc)

definition put_be :: "nat \<Rightarrow> 'a::len word \<Rightarrow> byte list \<Rightarrow> byte list result" where
  "put_be n v buf = (if n \<le> length buf then Ok (put_at 0 (be_bytes n v) buf) else Panic)"

definition get_be :: "nat \<Rightarrow> byte list \<Rightarrow> 'a::len word result" where
  "get_be n buf = (if n \<le> length buf then Ok (be_word (take n buf)) else Panic)"

lemma put_be_in [in_range]: "n \<le> length buf \<Longrightarrow> put_be n v buf = Ok (put_at 0 (be_bytes n v) buf)"
  by (simp add: put_be_def)

lemma get_be_in [in_range]: "n \<le> length buf \<Longrightarrow> get_be n buf = Ok (be_word (take n buf))"
  by (simp add: get_be_def)

lemma be_result_iff [result_iff]:
  "put_be n v buf = Ok xs \<longleftrightarrow> n \<le> length buf \<and> xs = put_at 0 (be_bytes n v) buf" "put_be n v buf = Panic \<longleftrightarrow> length buf < n"
  "get_be n buf = Ok w \<longleftrightarrow> n \<le> length buf \<and> w = be_word (take n buf)" "get_be n buf = Panic \<longleftrightarrow> length buf < n"
  by (auto simp: put_be_def get_be_def)

text \<open>Writing then reading gives the word back when all its bytes are written.\<close>

lemma be_word_be_bytes_take: "be_word (be_bytes n v) = take_bit (8 * n) (v::'a::len word)"
proof (induction n)
  case (Suc n)
  show ?case
    by (rule bit_word_eqI) (auto simp: Suc bit_simps)
qed simp

lemma be_word_be_bytes [simp]: "LENGTH('a) \<le> 8 * n \<Longrightarrow> be_word (be_bytes n (v::'a::len word)) = v"
  by (simp add: be_word_be_bytes_take take_bit_word_eq_self)

text \<open>Reading then writing gives the bytes back when the word is wide enough to hold them.\<close>

lemma be_word_high_bits: "bit (be_word bs :: 'a::len word) k \<Longrightarrow> k < 8 * length bs"
  by (induction bs) (auto simp: bit_simps dest: bit_imp_le_length)

lemma be_bytes_cong: "take_bit (8 * n) v = take_bit (8 * n) w \<Longrightarrow> be_bytes n v = be_bytes n (w::'a::len word)"
proof (induction n)
  case (Suc n)
  have "ucast (drop_bit (8 * n) v) = (ucast (drop_bit (8 * n) w) :: byte)"
  proof (rule bit_word_eqI)
    fix k assume "k < LENGTH(8)"
    then show "bit (ucast (drop_bit (8 * n) v) :: byte) k = bit (ucast (drop_bit (8 * n) w) :: byte) k"
      using arg_cong [OF Suc.prems, of "\<lambda>x. bit x (8 * n + k)"] by (auto simp: bit_simps)
  qed
  moreover have "take_bit (8 * n) v = take_bit (8 * n) w"
    using arg_cong [OF Suc.prems, of "take_bit (8 * n)"] by simp
  ultimately show ?case using Suc.IH by simp
qed simp

lemma be_bytes_be_word:
  "8 * length bs \<le> LENGTH('a) \<Longrightarrow> be_bytes (length bs) (be_word bs :: 'a::len word) = bs"
proof (induction bs)
  case (Cons b bs)
  have "ucast (drop_bit (8 * length bs) (be_word (b # bs) :: 'a word)) = b"
    using Cons.prems by (intro bit_word_eqI) (auto simp: bit_simps dest: be_word_high_bits)
  moreover have "take_bit (8 * length bs) (be_word (b # bs) :: 'a word) = take_bit (8 * length bs) (be_word bs)"
    by (rule bit_word_eqI) (auto simp: bit_simps)
  ultimately show ?case using Cons be_bytes_cong by fastforce
qed simp

section \<open>Bytes and strings\<close>

lemma unat_of_char_byte [simp]: "unat (of_char c :: byte) = of_char c"
proof -
  have "unat (of_nat (of_char c) :: byte) = of_char c"
    by (subst unat_of_nat) simp
  then show ?thesis by (simp only: of_nat_of_char)
qed

lemma of_char_char_of_byte [simp]: "of_char (char_of (unat b)) = (b :: byte)"
proof -
  have "of_char (char_of (unat b)) = (of_nat (unat b mod 256) :: byte)"
    by (metis of_char_of of_nat_of_char)
  moreover have "unat b mod 256 = unat b" using unsigned_less [where ?'a = nat, of b] by simp
  ultimately show ?thesis by simp
qed

lemma string_of_bytes_of_string [simp]: "string_of_bytes (bytes_of_string s) = s"
  by (induction s) (auto simp: string_of_bytes_def bytes_of_string_def)

lemma bytes_of_string_of_bytes [simp]: "bytes_of_string (string_of_bytes bs) = bs"
  by (induction bs) (auto simp: string_of_bytes_def bytes_of_string_def)

lemma length_bytes_of_string [simp]: "length (bytes_of_string s) = length s"
  by (simp add: bytes_of_string_def)

lemma length_string_of_bytes [simp]: "length (string_of_bytes s) = length s"
  by (simp add: string_of_bytes_def)

section \<open>Unsigned words as numbers\<close>

lemma unat_of_nat_small: "n < 2 ^ LENGTH('a) \<Longrightarrow> unat (of_nat n :: 'a::len word) = n"
  by (simp add: unat_of_nat)

end
