(* ===== verification/Ast.thy ===== *)
theory Ast
  imports Prelude
begin

text \<open>
  The syntax trees of \<open>internal/ast/ast.go\<close>. The interface \<open>Expression\<close> and its node types
  are one datatype with a constructor per node, \<open>Statement\<close> another; a \<open>nil\<close> \<open>Where\<close> is
  \<open>None\<close>. An integer literal is an \<open>int64\<close>, a float literal the bits of a \<open>float64\<close>.
\<close>

datatype expression =
    ColumnRef string
  | BinaryExpr expression string expression
  | IsNullExpr expression bool
  | IntegerLiteral u64
  | StringLiteral string
  | BoolLiteral bool
  | NullLiteral
  | FloatLiteral u64

record column_spec =
  spec_Name :: string
  spec_TypeName :: string
  spec_NotNull :: bool
  spec_PrimaryKey :: bool

record set_clause =
  set_Column :: string
  set_Value :: expression

datatype statement =
    CreateTableStatement string "column_spec list"
  | DropTableStatement string bool
  | InsertStatement string "string list" "expression list"
  | SelectStatement "string list" string "expression option"
  | UpdateStatement string "set_clause list" "expression option"
  | DeleteStatement string "expression option"
  | BeginStatement
  | CommitStatement
  | RollbackStatement

end
