(* ===== verification/GoFloat.thy ===== *)
theory GoFloat
  imports Prelude
begin

text \<open>
  What the program uses of Go's numbers and of \<open>strconv\<close>: IEEE 754 floats as bit patterns,
  the conversions between integers, \<open>float32\<close> and \<open>float64\<close> (round to nearest, ties to
  even), the comparisons, and \<open>FormatInt\<close>, \<open>ParseInt\<close>, \<open>ParseUint\<close>,
  \<open>FormatFloat(_, 'G', -1, _)\<close> and \<open>ParseFloat\<close>. Everything is integer arithmetic, so it
  computes. The lemmas show that an integer of magnitude at most \<open>2 ^ 53\<close> converts to
  \<open>float64\<close> without error, so comparisons through \<open>float64\<close> are exact on that range.
\<close>

section \<open>Floats as bit patterns\<close>

text \<open>
  A format has \<open>mb\<close> fraction bits, its least positive value is \<open>2 ^ -k\<close>, and the biased
  exponent of infinities and NaNs is \<open>emax\<close>: \<open>52, 1074, 2047\<close> for \<open>float64\<close> and
  \<open>23, 149, 255\<close> for \<open>float32\<close>. A magnitude is counted in units of \<open>2 ^ -k\<close>.
\<close>

fun bit_len :: "int \<Rightarrow> nat" where
  "bit_len n = (if n \<le> 0 then 0 else Suc (bit_len (n div 2)))"

declare bit_len.simps [simp del]

definition float_round :: "nat \<Rightarrow> nat \<Rightarrow> int \<Rightarrow> int \<Rightarrow> int \<Rightarrow> int" where
  \<comment> \<open>the bits, without the sign, of the float nearest to \<open>num / den\<close>\<close>
  "float_round mb k emax num den =
     (let n = num * 2 ^ k;
          s = bit_len (n div den) - (mb + 1);
          d = den * 2 ^ s;
          hi = n div d;
          lo = n mod d;
          hi' = (if 2 * lo > d \<or> (2 * lo = d \<and> odd hi) then hi + 1 else hi)
      in min (int s * 2 ^ mb + hi') (emax * 2 ^ mb))"

definition float_mag :: "nat \<Rightarrow> int \<Rightarrow> int" where
  \<comment> \<open>the magnitude of unsigned bits, in units of the least positive value\<close>
  "float_mag mb b =
     (let e = b div 2 ^ mb; m = b mod 2 ^ mb
      in if e = 0 then m else (2 ^ mb + m) * 2 ^ nat (e - 1))"

definition float_nan :: "nat \<Rightarrow> int \<Rightarrow> int \<Rightarrow> bool" where
  "float_nan mb emax b \<longleftrightarrow> b > emax * 2 ^ mb"

subsection \<open>float64\<close>

definition f64_neg :: "u64 \<Rightarrow> bool" where
  "f64_neg f \<longleftrightarrow> uint f \<ge> 2 ^ 63"

definition f64_abs :: "u64 \<Rightarrow> int" where
  "f64_abs f = uint f mod 2 ^ 63"

definition f64_make :: "bool \<Rightarrow> int \<Rightarrow> u64" where
  "f64_make neg b = word_of_int ((if neg then 2 ^ 63 else 0) + b)"

definition f64_is_nan :: "u64 \<Rightarrow> bool" where
  "f64_is_nan f = float_nan 52 2047 (f64_abs f)"

definition f64_is_inf :: "u64 \<Rightarrow> bool" where
  "f64_is_inf f \<longleftrightarrow> f64_abs f = 2047 * 2 ^ 52"

definition f64_val :: "u64 \<Rightarrow> int" where
  \<comment> \<open>the value in units of \<open>2 ^ -1074\<close>; an infinity lies beyond every finite value\<close>
  "f64_val f = (if f64_neg f then - float_mag 52 (f64_abs f) else float_mag 52 (f64_abs f))"

definition f64_of_int :: "int \<Rightarrow> u64" where
  "f64_of_int i = f64_make (i < 0) (float_round 52 1074 2047 \<bar>i\<bar> 1)"

definition f64_eq :: "u64 \<Rightarrow> u64 \<Rightarrow> bool" where
  "f64_eq l r \<longleftrightarrow> \<not> f64_is_nan l \<and> \<not> f64_is_nan r \<and> f64_val l = f64_val r"

definition f64_lt :: "u64 \<Rightarrow> u64 \<Rightarrow> bool" where
  "f64_lt l r \<longleftrightarrow> \<not> f64_is_nan l \<and> \<not> f64_is_nan r \<and> f64_val l < f64_val r"

definition f64_le :: "u64 \<Rightarrow> u64 \<Rightarrow> bool" where
  "f64_le l r \<longleftrightarrow> \<not> f64_is_nan l \<and> \<not> f64_is_nan r \<and> f64_val l \<le> f64_val r"

subsection \<open>float32 and the conversions\<close>

definition f32_neg :: "u32 \<Rightarrow> bool" where
  "f32_neg f \<longleftrightarrow> uint f \<ge> 2 ^ 31"

definition f32_abs :: "u32 \<Rightarrow> int" where
  "f32_abs f = uint f mod 2 ^ 31"

definition f32_make :: "bool \<Rightarrow> int \<Rightarrow> u32" where
  "f32_make neg b = word_of_int ((if neg then 2 ^ 31 else 0) + b)"

definition f32_of_int :: "int \<Rightarrow> u32" where
  "f32_of_int i = f32_make (i < 0) (float_round 23 149 255 \<bar>i\<bar> 1)"

text \<open>A NaN stays a (quiet) NaN with its payload moved, an infinity stays an infinity.\<close>

definition f64_of_f32 :: "u32 \<Rightarrow> u64" where
  "f64_of_f32 f =
     f64_make (f32_neg f)
       (let b = f32_abs f
        in if float_nan 23 255 b
           then 2047 * 2 ^ 52 + 2 ^ 51 + ((b mod 2 ^ 22) * 2 ^ 29)
           else if b = 255 * 2 ^ 23 then 2047 * 2 ^ 52
           else float_round 52 1074 2047 (float_mag 23 b) (2 ^ 149))"

definition f32_of_f64 :: "u64 \<Rightarrow> u32" where
  "f32_of_f64 f =
     f32_make (f64_neg f)
       (let b = f64_abs f
        in if float_nan 52 2047 b
           then 255 * 2 ^ 23 + 2 ^ 22 + ((b mod 2 ^ 51) div 2 ^ 29)
           else if b = 2047 * 2 ^ 52 then 255 * 2 ^ 23
           else float_round 23 149 255 (float_mag 52 b) (2 ^ 1074))"

section \<open>Decimal integers\<close>

definition digit_char :: "nat \<Rightarrow> char" where
  "digit_char d = char_of (48 + d)"

definition char_digit :: "char \<Rightarrow> nat option" where
  "char_digit c = (let n = of_char c :: nat in if 48 \<le> n \<and> n \<le> 57 then Some (n - 48) else None)"

fun nat_digits :: "nat \<Rightarrow> string" where
  "nat_digits n = (if n < 10 then [digit_char n] else nat_digits (n div 10) @ [digit_char (n mod 10)])"

declare nat_digits.simps [simp del]

text \<open>\<open>strconv.FormatInt(i, 10)\<close> and \<open>strconv.FormatUint(u, 10)\<close>.\<close>

definition FormatInt :: "int \<Rightarrow> string" where
  "FormatInt i = (if i < 0 then CHR ''-'' # nat_digits (nat (- i)) else nat_digits (nat i))"

fun digits_val :: "int \<Rightarrow> string \<Rightarrow> int option" where
  "digits_val acc [] = Some acc"
| "digits_val acc (c # cs) = (case char_digit c of None \<Rightarrow> None | Some d \<Rightarrow> digits_val (10 * acc + int d) cs)"

text \<open>
  \<open>strconv.ParseUint(s, 10, bits)\<close>: a non-empty run of digits whose value is below
  \<open>2 ^ bits\<close>; \<open>strconv.ParseInt(s, 10, bits)\<close>: an optional sign first, and the two's
  complement range. \<open>None\<close> stands for either of the two errors (syntax, range).
\<close>

definition ParseUint :: "nat \<Rightarrow> string \<Rightarrow> int option" where
  "ParseUint bits s =
     (if s = [] then None
      else case digits_val 0 s of None \<Rightarrow> None | Some n \<Rightarrow> if n < 2 ^ bits then Some n else None)"

definition ParseInt :: "nat \<Rightarrow> string \<Rightarrow> int option" where
  "ParseInt bits s =
     (case s of [] \<Rightarrow> None
      | c # cs \<Rightarrow>
        let neg = (c = CHR ''-'');
            ds = (if c = CHR ''-'' \<or> c = CHR ''+'' then cs else s)
        in case ParseUint 64 ds of
             None \<Rightarrow> None
           | Some n \<Rightarrow>
               if \<not> neg \<and> n \<ge> 2 ^ (bits - 1) then None
               else if neg \<and> n > 2 ^ (bits - 1) then None
               else Some (if neg then - n else n))"

section \<open>Decimal and hexadecimal floats\<close>

text \<open>
  \<open>strconv.ParseFloat\<close>. The mantissa and the exponent are read as \<open>readFloat\<close> reads them:
  an optional sign, an optional \<open>0x\<close>, digits with at most one point and at least one digit,
  an optional exponent (\<open>e\<close>, or a mandatory \<open>p\<close> after \<open>0x\<close>) whose value is capped, and
  underscores where Go's syntax allows them. The names \<open>inf\<close>, \<open>infinity\<close> and \<open>nan\<close> are
  read in any case. A value that rounds to infinity is the range error, so \<open>None\<close>.
\<close>

definition lower_char :: "char \<Rightarrow> char" where
  "lower_char c = (let n = of_char c :: nat in if 65 \<le> n \<and> n \<le> 90 then char_of (n + 32) else c)"

definition upper_char :: "char \<Rightarrow> char" where
  "upper_char c = (let n = of_char c :: nat in if 97 \<le> n \<and> n \<le> 122 then char_of (n - 32) else c)"

definition hex_digit :: "char \<Rightarrow> nat option" where
  "hex_digit c =
     (case char_digit c of Some d \<Rightarrow> Some d
      | None \<Rightarrow> let n = of_char (lower_char c) :: nat
                in if 97 \<le> n \<and> n \<le> 102 then Some (n - 87) else None)"

fun underscore_scan :: "bool \<Rightarrow> char \<Rightarrow> string \<Rightarrow> bool" where
  \<comment> \<open>\<open>underscoreOK\<close>: the last class seen is a digit, an underscore, the start or anything else\<close>
  "underscore_scan hex i [] \<longleftrightarrow> i \<noteq> CHR ''_''"
| "underscore_scan hex i (c # cs) =
     (if char_digit c \<noteq> None \<or> (hex \<and> hex_digit c \<noteq> None) then underscore_scan hex (CHR ''0'') cs
      else if c = CHR ''_'' then (if i \<noteq> CHR ''0'' then False else underscore_scan hex (CHR ''_'') cs)
      else if i = CHR ''_'' then False
      else underscore_scan hex (CHR ''!'') cs)"

definition underscoreOK :: "string \<Rightarrow> bool" where
  "underscoreOK s =
     (let s1 = (if s \<noteq> [] \<and> (hd s = CHR ''-'' \<or> hd s = CHR ''+'') then tl s else s);
          c = lower_char (s1 ! 1)
      in if length s1 \<ge> 2 \<and> hd s1 = CHR ''0'' \<and> (c = CHR ''b'' \<or> c = CHR ''o'' \<or> c = CHR ''x'')
         then underscore_scan (c = CHR ''x'') (CHR ''0'') (drop 2 s1)
         else underscore_scan False (CHR ''^'') s1)"

fun read_mantissa :: "bool \<Rightarrow> bool \<Rightarrow> bool \<Rightarrow> int \<Rightarrow> nat \<Rightarrow> string \<Rightarrow> bool \<times> int \<times> nat \<times> string" where
  \<comment> \<open>saw a digit, the digits as a number, how many of them are after the point, the rest\<close>
  "read_mantissa hex dot dig m frac [] = (dig, m, frac, [])"
| "read_mantissa hex dot dig m frac (c # cs) =
     (if c = CHR ''_'' then read_mantissa hex dot dig m frac cs
      else if c = CHR ''.'' then
        (if dot then (dig, m, frac, c # cs) else read_mantissa hex True dig m frac cs)
      else case (if hex then hex_digit c else char_digit c) of
             Some d \<Rightarrow> read_mantissa hex dot True ((if hex then 16 else 10) * m + int d) (if dot then Suc frac else frac) cs
           | None \<Rightarrow> (dig, m, frac, c # cs))"

fun read_exp_digits :: "int \<Rightarrow> string \<Rightarrow> int \<times> string" where
  "read_exp_digits e [] = (e, [])"
| "read_exp_digits e (c # cs) =
     (if c = CHR ''_'' then read_exp_digits e cs
      else case char_digit c of
             Some d \<Rightarrow> read_exp_digits (if e < 10000 then e * 10 + int d else e) cs
           | None \<Rightarrow> (e, c # cs))"

definition read_exponent :: "bool \<Rightarrow> string \<Rightarrow> (int \<times> string) option" where
  "read_exponent hex s =
     (case s of
        c # cs \<Rightarrow>
          if lower_char c = (if hex then CHR ''p'' else CHR ''e'') then
            let neg = (cs \<noteq> [] \<and> hd cs = CHR ''-'');
                ds = (if cs \<noteq> [] \<and> (hd cs = CHR ''-'' \<or> hd cs = CHR ''+'') then tl cs else cs)
            in if ds = [] \<or> char_digit (hd ds) = None then None
               else let (e, r) = read_exp_digits 0 ds in Some (if neg then - e else e, r)
          else if hex then None else Some (0, s)
      | [] \<Rightarrow> if hex then None else Some (0, s))"

definition scale_ratio :: "int \<Rightarrow> int \<Rightarrow> int \<Rightarrow> int \<times> int" where
  \<comment> \<open>\<open>m * b ^ e\<close> as a numerator and a denominator\<close>
  "scale_ratio m b e = (if e \<ge> 0 then (m * b ^ nat e, 1) else (m, b ^ nat (- e)))"

definition ParseFloatBits :: "nat \<Rightarrow> nat \<Rightarrow> int \<Rightarrow> string \<Rightarrow> (bool \<times> int) option" where
  "ParseFloatBits mb k emax s =
     (let neg = (s \<noteq> [] \<and> hd s = CHR ''-'');
          u = (if s \<noteq> [] \<and> (hd s = CHR ''-'' \<or> hd s = CHR ''+'') then tl s else s);
          l = map lower_char u
      in if l = ''inf'' \<or> l = ''infinity'' then Some (neg, emax * 2 ^ mb)
         else if map lower_char s = ''nan'' then Some (False, emax * 2 ^ mb + 2 ^ (mb - 1))
         else
           let hex = (length u > 2 \<and> take 2 l = ''0x'')
           in case read_mantissa hex False False 0 0 (if hex then drop 2 u else u) of
                (dig, m, frac, rest) \<Rightarrow>
                  if \<not> dig then None
                  else case read_exponent hex rest of
                         None \<Rightarrow> None
                       | Some (e, rest') \<Rightarrow>
                           if rest' \<noteq> [] \<or> (CHR ''_'' \<in> set s \<and> \<not> underscoreOK s) then None
                           else let (n, d) = (if hex then scale_ratio m 2 (e - 4 * int frac)
                                              else scale_ratio m 10 (e - int frac));
                                    b = float_round mb k emax n d
                                in if b = emax * 2 ^ mb then None else Some (neg, b))"

definition ParseFloat64 :: "string \<Rightarrow> u64 option" where
  "ParseFloat64 s = map_option (\<lambda>(neg, b). f64_make neg b) (ParseFloatBits 52 1074 2047 s)"

definition ParseFloat32 :: "string \<Rightarrow> u32 option" where
  "ParseFloat32 s = map_option (\<lambda>(neg, b). f32_make neg b) (ParseFloatBits 23 149 255 s)"

text \<open>
  \<open>strconv.FormatFloat(f, 'G', -1, bits)\<close>: the fewest decimal digits that read back as
  \<open>f\<close>, and the closest such number; \<open>E\<close> notation when the decimal exponent is below
  \<open>-4\<close> or at least \<open>6\<close>. The digits are found by trying one digit, then two, and so on;
  \<open>17\<close> digits always read back (\<open>9\<close> for \<open>float32\<close>), which bounds the search.
\<close>

fun dec_point :: "nat \<Rightarrow> int \<Rightarrow> int \<Rightarrow> int \<Rightarrow> int" where
  \<comment> \<open>the \<open>p\<close> with \<open>10 ^ (p - 1) \<le> num / den < 10 ^ p\<close>, from \<open>p\<close> upwards\<close>
  "dec_point 0 p num den = p"
| "dec_point (Suc n) p num den =
     (case scale_ratio den 10 p of (a, b) \<Rightarrow> if num * b < a then p else dec_point n (p + 1) num den)"

definition dec_candidate :: "nat \<Rightarrow> nat \<Rightarrow> int \<Rightarrow> int \<Rightarrow> int \<Rightarrow> int \<Rightarrow> int \<Rightarrow> nat \<Rightarrow> int option" where
  "dec_candidate mb k emax b num den p n =
     (case scale_ratio num 10 (int n - p) of (x, y0) \<Rightarrow>
        let y = y0 * den;
            lo = x div y;
            back = (\<lambda>v. case scale_ratio v 10 (p - int n) of (c, d) \<Rightarrow> float_round mb k emax c d = b);
            down = back lo;
            up = back (lo + 1)
        in if down \<and> up then
             Some (if 2 * (x mod y) > y \<or> (2 * (x mod y) = y \<and> odd lo) then lo + 1 else lo)
           else if down then Some lo
           else if up then Some (lo + 1)
           else None)"

fun shortest_digits :: "nat \<Rightarrow> (nat \<Rightarrow> int option) \<Rightarrow> nat \<Rightarrow> int \<times> nat" where
  "shortest_digits 0 f n = (0, n)"
| "shortest_digits (Suc i) f n = (case f n of Some v \<Rightarrow> (v, n) | None \<Rightarrow> shortest_digits i f (Suc n))"

definition format_digits :: "string \<Rightarrow> int \<Rightarrow> string" where
  \<comment> \<open>digits \<open>ds\<close> read as \<open>0.ds * 10 ^ dp\<close>, in the notation \<open>G\<close> chooses\<close>
  "format_digits ds dp =
     (let nd = length ds; x = dp - 1
      in if x < - 4 \<or> x \<ge> 6 then
           take 1 ds @ (if nd > 1 then CHR ''.'' # drop 1 ds else [])
           @ ''E'' @ (if x < 0 then ''-'' else ''+'')
           @ (let e = nat_digits (nat \<bar>x\<bar>) in if length e < 2 then CHR ''0'' # e else e)
         else if dp \<le> 0 then
           ''0'' @ (if nd > 0 then ''.'' @ replicate (nat (- dp)) (CHR ''0'') @ ds else [])
         else
           let w = nat dp
           in take w ds @ replicate (w - nd) (CHR ''0'') @ (if nd > w then ''.'' @ drop w ds else []))"

definition FormatFloatBits :: "nat \<Rightarrow> nat \<Rightarrow> int \<Rightarrow> nat \<Rightarrow> bool \<Rightarrow> int \<Rightarrow> string" where
  "FormatFloatBits mb k emax maxd neg b =
     (if float_nan mb emax b then ''NaN''
      else if b = emax * 2 ^ mb then (if neg then ''-Inf'' else ''+Inf'')
      else (if neg then ''-'' else []) @
        (if b = 0 then format_digits [] 0
         else
           let num = float_mag mb b; den = 2 ^ k;
               p = dec_point 700 (- 330) num den;
               (v, n) = shortest_digits maxd (dec_candidate mb k emax b num den p) 1
           in if v = 10 ^ n then format_digits ''1'' (p + 1)
              else format_digits (nat_digits (nat v)) p))"

definition FormatFloat64 :: "u64 \<Rightarrow> string" where
  "FormatFloat64 f = FormatFloatBits 52 1074 2047 17 (f64_neg f) (f64_abs f)"

definition FormatFloat32 :: "u32 \<Rightarrow> string" where
  "FormatFloat32 f = FormatFloatBits 23 149 255 9 (f32_neg f) (f32_abs f)"

section \<open>Integers of at most 53 bits are exact in float64\<close>

lemma bit_len_bounds:
  assumes "0 < x"
  shows "2 ^ (bit_len x - 1) \<le> x \<and> x < 2 ^ bit_len x \<and> 0 < bit_len x"
  using assms
proof (induction x rule: bit_len.induct)
  case (1 n)
  show ?case
  proof (cases "n = 1")
    case True
    then show ?thesis by (simp add: bit_len.simps)
  next
    case False
    with "1.prems" have p: "0 < n div 2" by simp
    have IH: "2 ^ (bit_len (n div 2) - 1) \<le> n div 2 \<and> n div 2 < 2 ^ bit_len (n div 2) \<and> 0 < bit_len (n div 2)"
      using "1.IH" "1.prems" p by auto
    then obtain k where k: "bit_len (n div 2) = Suc k" by (cases "bit_len (n div 2)") auto
    have e: "bit_len n = Suc (Suc k)" using "1.prems" k by (simp add: bit_len.simps [of n])
    from IH have "2 ^ k \<le> n div 2" "n div 2 < 2 * 2 ^ k" by (simp_all add: k)
    then have "2 * 2 ^ k \<le> n" "n < 4 * 2 ^ k" by linarith+
    then show ?thesis by (simp add: e)
  qed
qed

lemma bit_len_unique: 
  assumes "2 ^ k \<le> x" and "x < 2 ^ Suc k"
  shows "bit_len x = Suc k"
proof -
  have pos: "0 < x" using assms(1) zero_less_power [of "2 :: int"] by (meson order_less_le_trans zero_less_numeral)
  note b = bit_len_bounds [OF pos]
  have "k < bit_len x"
  proof -
    have "(2::int) ^ k < 2 ^ bit_len x" using assms(1) b by linarith
    then show ?thesis by (rule power_less_imp_less_exp [rotated]) simp
  qed
  moreover have "bit_len x - 1 < Suc k"
  proof -
    have "(2::int) ^ (bit_len x - 1) < 2 ^ Suc k" using assms(2) b by linarith
    then show ?thesis by (rule power_less_imp_less_exp [rotated]) simp
  qed
  ultimately show ?thesis by simp
qed

lemma bit_len_shift: "0 < x \<Longrightarrow> bit_len (x * 2 ^ k) = bit_len x + k"
proof -
  assume x: "0 < x"
  obtain l where l: "bit_len x = Suc l" using bit_len_bounds [OF x] by (cases "bit_len x") auto
  have "2 ^ (l + k) \<le> x * 2 ^ k" "x * 2 ^ k < 2 ^ Suc (l + k)"
    using bit_len_bounds [OF x] by (simp_all add: l power_add)
  then show ?thesis using bit_len_unique [of "l + k" "x * 2 ^ k"] by (simp add: l)
qed

text \<open>A value that needs no rounding.\<close>
lemma float_round_exact:
  assumes "2 ^ mb \<le> hi" and "hi < 2 ^ Suc mb" and eq: "num * 2 ^ k = hi * 2 ^ s" and "int s + 1 < emax"
  shows "float_round mb k emax num 1 = int s * 2 ^ mb + hi"
proof -
  have "0 < hi" using assms(1) zero_less_power [of "2 :: int"] by (meson order_less_le_trans zero_less_numeral)
  then have "bit_len (num * 2 ^ k) = Suc mb + s"
    using bit_len_unique [OF assms(1,2)] bit_len_shift [of hi s] by (simp only: eq) 
  then have s: "bit_len (num * 2 ^ k) - (mb + 1) = s" by simp
  have "int s * 2 ^ mb + hi \<le> emax * 2 ^ mb"
  proof -
    have "int s * 2 ^ mb + hi \<le> (int s + 2) * 2 ^ mb" using assms(2) by (simp add: algebra_simps)
    also have "\<dots> \<le> emax * 2 ^ mb" using assms(4) by (intro mult_right_mono) auto
    finally show ?thesis .
  qed
  then show ?thesis unfolding float_round_def Let_def div_by_1 s by (simp add: eq)
qed

lemma float_mag_normal:
  assumes "2 ^ mb \<le> hi" and "hi < 2 ^ Suc mb"
  shows "float_mag mb (int s * 2 ^ mb + hi) = hi * 2 ^ s"
proof -
  define m where "m = hi - 2 ^ mb"
  have m: "0 \<le> m" "m < 2 ^ mb" using assms by (simp_all add: m_def)
  have b: "int s * 2 ^ mb + hi = m + 2 ^ mb * (int s + 1)" by (simp add: m_def algebra_simps)
  have "(int s * 2 ^ mb + hi) div 2 ^ mb = int s + 1" "(int s * 2 ^ mb + hi) mod 2 ^ mb = m"
    unfolding b using m by simp_all
  then show ?thesis by (simp add: float_mag_def m_def)
qed

lemma int_normal_form:
  assumes "0 < (i :: int)" and "i \<le> 2 ^ 53"
  obtains hi s where "2 ^ 52 \<le> hi" "hi < 2 ^ Suc 52" "i * 2 ^ 1074 = hi * 2 ^ s" "s \<le> 1075"
proof -
  have "bit_len i - 1 < 54"
  proof -
    have "(2::int) ^ (bit_len i - 1) < 2 ^ 54"
      using bit_len_bounds [OF assms(1)] assms(2) by simp
    then show ?thesis by (rule power_less_imp_less_exp [rotated]) simp
  qed
  then obtain l where l: "bit_len i = Suc l" "l \<le> 53" using bit_len_bounds [OF assms(1)] by (cases "bit_len i") auto
  have b: "2 ^ l \<le> i" "i < 2 ^ Suc l" using bit_len_bounds [OF assms(1)] l(1) by simp_all
  show thesis
  proof (cases "l = 53")
    case True
    with b assms have "i = 2 ^ 53" by simp
    then show thesis using that [of "2 ^ 52" 1075] by simp
  next
    case False
    with l(2) have "l \<le> 52" by simp
    then obtain r where r: "52 = l + r" using le_iff_add by blast 
    have "(2::int) ^ 52 = 2 ^ l * 2 ^ r" "(2::int) ^ Suc 52 = 2 ^ Suc l * 2 ^ r" unfolding r by (simp_all add: power_add)
    moreover have "2 ^ l * 2 ^ r \<le> i * 2 ^ r" "i * 2 ^ r < 2 ^ Suc l * 2 ^ r"
      using b by (auto intro!: mult_right_mono mult_strict_right_mono)
    ultimately have "2 ^ 52 \<le> i * 2 ^ r" "i * 2 ^ r < 2 ^ Suc 52" by (simp_all only:)
    moreover have "i * 2 ^ 1074 = (i * 2 ^ r) * 2 ^ (1074 - r)" using r by (simp add: mult.assoc power_add [symmetric])
    ultimately show thesis using that by simp
  qed
qed


lemma f64_of_nat_bits:
  assumes "0 < (i :: int)" and "i \<le> 2 ^ 53"
  obtains b where "float_round 52 1074 2047 i 1 = b" "float_mag 52 b = i * 2 ^ 1074" "0 \<le> b" "b \<le> 2047 * 2 ^ 52" "b < 2 ^ 63"
proof -
  obtain hi s where h: "2 ^ 52 \<le> hi" "hi < 2 ^ Suc 52" "i * 2 ^ 1074 = hi * 2 ^ s" "s \<le> 1075"
    using int_normal_form [OF assms] by blast
  have "float_round 52 1074 2047 i 1 = int s * 2 ^ 52 + hi"
    using h(4) by (intro float_round_exact h) simp
  moreover have "float_mag 52 (int s * 2 ^ 52 + hi) = i * 2 ^ 1074"
    using float_mag_normal [OF h(1,2)] h(3) by (simp only:)
  moreover have "int s * 2 ^ 52 + hi \<le> 1077 * 2 ^ 52"
    using h(2,4) by (simp add: algebra_simps)
  moreover have "0 \<le> int s * 2 ^ 52 + hi" using h(1) by (simp add: add_nonneg_nonneg)
  ultimately show thesis using that by simp
qed

lemma f64_of_int_parts:
  assumes "\<bar>i\<bar> \<le> 2 ^ 53"
  shows "f64_val (f64_of_int i) = i * 2 ^ 1074" and "\<not> f64_is_nan (f64_of_int i)"
proof -
  have "f64_val (f64_of_int i) = i * 2 ^ 1074 \<and> \<not> f64_is_nan (f64_of_int i)"
  proof (cases "i = 0")
    case True
    have "bit_len 0 = 0" by (simp add: bit_len.simps)
    then have "float_round 52 1074 2047 0 1 = 0" by (simp add: float_round_def)
    then have "f64_of_int 0 = 0" by (simp add: f64_of_int_def f64_make_def)
    with True show ?thesis
      by (simp add: f64_val_def f64_abs_def f64_is_nan_def float_nan_def float_mag_def)
  next
    case False
    then have "0 < \<bar>i\<bar>" by simp
    then obtain b where b: "float_round 52 1074 2047 \<bar>i\<bar> 1 = b" "float_mag 52 b = \<bar>i\<bar> * 2 ^ 1074"
      "0 \<le> b" "b \<le> 2047 * 2 ^ 52" "b < 2 ^ 63"
      using f64_of_nat_bits assms by metis
    define c where "c = (if i < 0 then 2 ^ 63 else 0) + b"
    have "f64_of_int i = word_of_int c"
      by (simp add: f64_of_int_def f64_make_def b(1) c_def)
    moreover have "0 \<le> c" "c < 2 ^ 64" using b(3,5) by (simp_all add: c_def)
    ultimately have u: "uint (f64_of_int i) = c" by (simp add: uint_word_of_int)
    then have a: "f64_abs (f64_of_int i) = b" and n: "f64_neg (f64_of_int i) \<longleftrightarrow> i < 0"
      using b(3,5) by (auto simp: f64_abs_def f64_neg_def c_def)
    show ?thesis
      using b(2,4) by (simp add: f64_val_def f64_is_nan_def float_nan_def a n)
  qed
  then show "f64_val (f64_of_int i) = i * 2 ^ 1074" and "\<not> f64_is_nan (f64_of_int i)" by simp_all
qed

lemma f64_compare_int:
  assumes "\<bar>i\<bar> \<le> 2 ^ 53" and "\<bar>j\<bar> \<le> 2 ^ 53"
  shows "f64_lt (f64_of_int i) (f64_of_int j) \<longleftrightarrow> i < j"
    and "f64_le (f64_of_int i) (f64_of_int j) \<longleftrightarrow> i \<le> j"
    and "f64_eq (f64_of_int i) (f64_of_int j) \<longleftrightarrow> i = j"
  using f64_of_int_parts [OF assms(1)] f64_of_int_parts [OF assms(2)]
  by (simp_all add: f64_lt_def f64_le_def f64_eq_def)

text \<open>Beyond that range two integers can meet in one float.\<close>

lemma f64_of_int_collision: "f64_of_int (2 ^ 53 + 1) = f64_of_int (2 ^ 53)"
proof -
  let ?n = "(2 ^ 53 + 1) * 2 ^ 1074 :: int"
  have "bit_len (2 ^ 53 + 1) = Suc 53" by (rule bit_len_unique) simp_all
  then have "bit_len ?n = 1128" by (subst bit_len_shift) simp_all
  then have s: "bit_len (?n div 1) - (52 + 1) = 1075" by (simp only: div_by_1)
  have two: "(2::int) ^ 1075 = 2 * 2 ^ 1074" by (rule power_Suc [of 2 1074, simplified])
  have split: "(2 ^ 53 + 1) * p = p + 2 * p * 2 ^ 52" for p :: int by (simp add: algebra_simps)
  have half: "(p + 2 * p * q) div (2 * p) = q \<and> (p + 2 * p * q) mod (2 * p) = p" if "0 < p" for p q :: int
    using that by (simp add: div_pos_pos_trivial)
  have hi: "?n div 2 ^ 1075 = 2 ^ 52" and lo: "?n mod 2 ^ 1075 = 2 ^ 1074"
    using half [of "2 ^ 1074" "2 ^ 52"] unfolding split two by (simp_all only: zero_less_power zero_less_numeral)
  have "float_round 52 1074 2047 (2 ^ 53 + 1) 1 = 1075 * 2 ^ 52 + 2 ^ 52"
    unfolding float_round_def Let_def s mult_1 hi lo by (simp add: two)
  moreover have "float_round 52 1074 2047 (2 ^ 53) 1 = int 1075 * 2 ^ 52 + 2 ^ 52"
    by (rule float_round_exact) (simp_all add: two)
  ultimately show ?thesis by (simp add: f64_of_int_def)
qed


section \<open>Integers survive their text\<close>

lemma char_digit_digit_char: "d < 10 \<Longrightarrow> char_digit (digit_char d) = Some d"
  by (simp add: char_digit_def digit_char_def)

lemma digits_val_append:
  "digits_val a (xs @ [c]) =
     (case digits_val a xs of None \<Rightarrow> None
      | Some v \<Rightarrow> (case char_digit c of None \<Rightarrow> None | Some d \<Rightarrow> Some (10 * v + int d)))"
  by (induction xs arbitrary: a) (auto split: option.splits)

lemma nat_digits_nonempty [simp]: "nat_digits n \<noteq> []"
  by (subst nat_digits.simps) simp

lemma digits_val_nat_digits: "digits_val 0 (nat_digits n) = Some (int n)"
proof (induction n rule: nat_digits.induct)
  case (1 n)
  show ?case
  proof (cases "n < 10")
    case True
    then show ?thesis by (simp add: nat_digits.simps [of n] char_digit_digit_char)
  next
    case False
    have "10 * int (n div 10) + int (n mod 10) = int n" by presburger
    with 1 False show ?thesis
      by (simp add: nat_digits.simps [of n] digits_val_append char_digit_digit_char)
  qed
qed

lemma hd_nat_digits: "hd (nat_digits n) \<noteq> CHR ''-'' \<and> hd (nat_digits n) \<noteq> CHR ''+''"
proof (induction n rule: nat_digits.induct)
  case (1 n)
  have neq: "digit_char d \<noteq> CHR ''-'' \<and> digit_char d \<noteq> CHR ''+''" if "d < 10" for d
    using char_digit_digit_char [OF that] by (auto simp: char_digit_def)
  show ?case
  proof (cases "n < 10")
    case True
    then show ?thesis using neq [of n] by (simp add: nat_digits.simps [of n])
  next
    case False
    with 1 show ?thesis by (simp add: nat_digits.simps [of n])
  qed
qed

lemma ParseUint_FormatInt:
  assumes "0 \<le> i" and "i < 2 ^ bits"
  shows "ParseUint bits (FormatInt i) = Some i"
  using assms by (simp add: ParseUint_def FormatInt_def digits_val_nat_digits)

lemma ParseInt_FormatInt:
  assumes "- (2 ^ (bits - 1)) \<le> i" and "i < 2 ^ (bits - 1)" and "0 < bits" and "bits \<le> 64"
  shows "ParseInt bits (FormatInt i) = Some i"
proof -
  have "(2::int) ^ (bits - 1) \<le> 2 ^ 63"
    using assms(4) by (intro power_increasing) auto
  then have b: "\<bar>i\<bar> < 2 ^ 64" using assms(1,2) by simp
  then have p: "ParseUint 64 (nat_digits (nat \<bar>i\<bar>)) = Some \<bar>i\<bar>"
    by (simp add: ParseUint_def digits_val_nat_digits)
  show ?thesis
  proof (cases "i < 0")
    case True
    then show ?thesis using p assms(1) by (simp add: ParseInt_def FormatInt_def)
  next
    case False
    obtain c cs where c: "nat_digits (nat i) = c # cs" by (cases "nat_digits (nat i)") auto
    then have "c \<noteq> CHR ''-''" "c \<noteq> CHR ''+''" using hd_nat_digits [of "nat i"] by auto
    then show ?thesis using p assms(2) False c by (simp add: ParseInt_def FormatInt_def)
  qed
qed

end
