(* ===== verification/SqlTypes.thy ===== *)
theory SqlTypes
  imports GoFloat
begin

text \<open>
  The type registry of \<open>internal/types/types.go\<close>: a record per type with its text encoder
  and decoder, the two maps filled by \<open>init\<close> through \<open>registerType\<close>, and the lookups
  \<open>TypeByOID\<close> and \<open>OIDByName\<close>. The lemmas show that the two maps agree and that text
  encoding and decoding are inverse on the values of each type (floats aside, whose decimal
  text is modelled in \<open>GoFloat\<close>).
\<close>

section \<open>Types and the registry\<close>

definition OidBool :: u32 where "OidBool = 16"
definition OidInt2 :: u32 where "OidInt2 = 21"
definition OidInt4 :: u32 where "OidInt4 = 23"
definition OidInt8 :: u32 where "OidInt8 = 20"
definition OidFloat4 :: u32 where "OidFloat4 = 700"
definition OidFloat8 :: u32 where "OidFloat8 = 701"
definition OidText :: u32 where "OidText = 25"
definition OidVarchar :: u32 where "OidVarchar = 1043"
definition OidChar :: u32 where "OidChar = 1042"
definition OidBytea :: u32 where "OidBytea = 17"
definition OidOid :: u32 where "OidOid = 26"

lemmas oid_defs = OidBool_def OidInt2_def OidInt4_def OidInt8_def OidFloat4_def OidFloat8_def
  OidText_def OidVarchar_def OidChar_def OidBytea_def OidOid_def

record pg_type =
  type_OID :: u32
  type_Name :: string
  type_Size :: int
  TextEncode :: "any \<Rightarrow> string result"
  TextDecode :: "string \<Rightarrow> any result"

text \<open>
  \<open>strings.ToLower\<close>. Type names and the words of a boolean are ASCII, and so are the words
  the lexer makes; on ASCII text this is Go's function.
\<close>

definition ToLower :: "string \<Rightarrow> string" where
  "ToLower s = map lower_char s"

text \<open>\<open>hex.EncodeToString\<close> and \<open>hex.DecodeString\<close>; \<open>None\<close> is an odd length or a bad digit.\<close>

definition hex_char :: "nat \<Rightarrow> char" where
  "hex_char d = (if d < 10 then char_of (48 + d) else char_of (87 + d))"

fun hex_encode :: "byte list \<Rightarrow> string" where
  "hex_encode [] = []"
| "hex_encode (b # bs) = hex_char (unat b div 16) # hex_char (unat b mod 16) # hex_encode bs"

fun hex_decode :: "string \<Rightarrow> byte list option" where
  "hex_decode [] = Some []"
| "hex_decode [c] = None"
| "hex_decode (c # d # cs) =
     (case (hex_digit c, hex_digit d) of
        (Some h, Some l) \<Rightarrow> map_option (\<lambda>bs. of_nat (16 * h + l) # bs) (hex_decode cs)
      | _ \<Rightarrow> None)"

definition type_bool :: pg_type where
  "type_bool = \<lparr>type_OID = OidBool, type_Name = ''boolean'', type_Size = 1,
     TextEncode = (\<lambda>v. case v of Some (VBool b) \<Rightarrow> Ok (if b then ''t'' else ''f'')
                              | _ \<Rightarrow> Err (ErrEncodeKind ''boolean'' v)),
     TextDecode = (\<lambda>s. let l = ToLower s
       in if l \<in> {''t'', ''true'', ''1'', ''yes'', ''on''} then Ok (Some (VBool True))
          else if l \<in> {''f'', ''false'', ''0'', ''no'', ''off''} then Ok (Some (VBool False))
          else Err (ErrBadText ''boolean'' s))\<rparr>"

definition type_int2 :: pg_type where
  "type_int2 = \<lparr>type_OID = OidInt2, type_Name = ''smallint'', type_Size = 2,
     TextEncode = (\<lambda>v. case v of Some (VInt16 i) \<Rightarrow> Ok (FormatInt (sint i))
                              | _ \<Rightarrow> Err (ErrEncodeKind ''smallint'' v)),
     TextDecode = (\<lambda>s. case ParseInt 16 s of Some i \<Rightarrow> Ok (Some (VInt16 (word_of_int i)))
                              | None \<Rightarrow> Err (ErrBadText ''smallint'' s))\<rparr>"

definition type_int4 :: pg_type where
  "type_int4 = \<lparr>type_OID = OidInt4, type_Name = ''integer'', type_Size = 4,
     TextEncode = (\<lambda>v. case v of Some (VInt32 i) \<Rightarrow> Ok (FormatInt (sint i))
                              | _ \<Rightarrow> Err (ErrEncodeKind ''integer'' v)),
     TextDecode = (\<lambda>s. case ParseInt 32 s of Some i \<Rightarrow> Ok (Some (VInt32 (word_of_int i)))
                              | None \<Rightarrow> Err (ErrBadText ''integer'' s))\<rparr>"

definition type_int8 :: pg_type where
  "type_int8 = \<lparr>type_OID = OidInt8, type_Name = ''bigint'', type_Size = 8,
     TextEncode = (\<lambda>v. case v of Some (VInt64 i) \<Rightarrow> Ok (FormatInt (sint i))
                              | _ \<Rightarrow> Err (ErrEncodeKind ''bigint'' v)),
     TextDecode = (\<lambda>s. case ParseInt 64 s of Some i \<Rightarrow> Ok (Some (VInt64 (word_of_int i)))
                              | None \<Rightarrow> Err (ErrBadText ''bigint'' s))\<rparr>"

definition type_float4 :: pg_type where
  "type_float4 = \<lparr>type_OID = OidFloat4, type_Name = ''real'', type_Size = 4,
     TextEncode = (\<lambda>v. case v of Some (VFloat32 f) \<Rightarrow> Ok (FormatFloat32 f)
                              | _ \<Rightarrow> Err (ErrEncodeKind ''real'' v)),
     TextDecode = (\<lambda>s. case ParseFloat32 s of Some f \<Rightarrow> Ok (Some (VFloat32 f))
                              | None \<Rightarrow> Err (ErrBadText ''real'' s))\<rparr>"

definition type_float8 :: pg_type where
  "type_float8 = \<lparr>type_OID = OidFloat8, type_Name = ''double precision'', type_Size = 8,
     TextEncode = (\<lambda>v. case v of Some (VFloat64 f) \<Rightarrow> Ok (FormatFloat64 f)
                              | _ \<Rightarrow> Err (ErrEncodeKind ''double precision'' v)),
     TextDecode = (\<lambda>s. case ParseFloat64 s of Some f \<Rightarrow> Ok (Some (VFloat64 f))
                              | None \<Rightarrow> Err (ErrBadText ''double precision'' s))\<rparr>"

definition type_text :: pg_type where
  "type_text = \<lparr>type_OID = OidText, type_Name = ''text'', type_Size = - 1,
     TextEncode = (\<lambda>v. case v of Some (VString s) \<Rightarrow> Ok s | _ \<Rightarrow> Err (ErrEncodeKind ''text'' v)),
     TextDecode = (\<lambda>s. Ok (Some (VString s)))\<rparr>"

definition type_varchar :: pg_type where
  "type_varchar = \<lparr>type_OID = OidVarchar, type_Name = ''character varying'', type_Size = - 1,
     TextEncode = (\<lambda>v. case v of Some (VString s) \<Rightarrow> Ok s | _ \<Rightarrow> Err (ErrEncodeKind ''varchar'' v)),
     TextDecode = (\<lambda>s. Ok (Some (VString s)))\<rparr>"

definition type_char :: pg_type where
  "type_char = \<lparr>type_OID = OidChar, type_Name = ''character'', type_Size = - 1,
     TextEncode = (\<lambda>v. case v of Some (VString s) \<Rightarrow> Ok s | _ \<Rightarrow> Err (ErrEncodeKind ''character'' v)),
     TextDecode = (\<lambda>s. Ok (Some (VString s)))\<rparr>"

text \<open>The prefix of a \<open>bytea\<close> is a backslash (character 92) and an \<open>x\<close>.\<close>

definition bytea_prefix :: string where
  "bytea_prefix = [char_of (92 :: nat), CHR ''x'']"

definition type_bytea :: pg_type where
  "type_bytea = \<lparr>type_OID = OidBytea, type_Name = ''bytea'', type_Size = - 1,
     TextEncode = (\<lambda>v. case v of Some (VBytes b) \<Rightarrow> Ok (bytea_prefix @ hex_encode b)
                              | _ \<Rightarrow> Err (ErrEncodeKind ''bytea'' v)),
     TextDecode = (\<lambda>s. if take 2 s = bytea_prefix
       then bind (go_from s 2) (\<lambda>h. case hex_decode h of Some b \<Rightarrow> Ok (Some (VBytes b))
                                                       | None \<Rightarrow> Err (ErrBadText ''bytea'' s))
       else Ok (Some (VBytes (bytes_of_string s))))\<rparr>"

definition type_oid :: pg_type where
  "type_oid = \<lparr>type_OID = OidOid, type_Name = ''oid'', type_Size = 4,
     TextEncode = (\<lambda>v. case v of Some (VUint32 u) \<Rightarrow> Ok (FormatInt (uint u))
                              | _ \<Rightarrow> Err (ErrEncodeKind ''oid'' v)),
     TextDecode = (\<lambda>s. case ParseUint 32 s of Some n \<Rightarrow> Ok (Some (VUint32 (word_of_int n)))
                              | None \<Rightarrow> Err (ErrBadText ''oid'' s))\<rparr>"

record registry =
  typesByOID :: "u32 \<rightharpoonup> pg_type"
  oidsByName :: "string \<rightharpoonup> u32"

fun add_aliases :: "string list \<Rightarrow> u32 \<Rightarrow> (string \<rightharpoonup> u32) \<Rightarrow> (string \<rightharpoonup> u32)" where
  "add_aliases [] oid m = m"
| "add_aliases (a # as) oid m = add_aliases as oid (m(a \<mapsto> oid))"

definition registerType :: "pg_type \<Rightarrow> string list \<Rightarrow> registry \<Rightarrow> registry" where
  "registerType t aliases r =
     r\<lparr>typesByOID := (typesByOID r)(type_OID t \<mapsto> t),
       oidsByName := add_aliases aliases (type_OID t) ((oidsByName r)(type_Name t \<mapsto> type_OID t))\<rparr>"

text \<open>The calls of \<open>init\<close>, in its order.\<close>

definition init_calls :: "(pg_type \<times> string list) list" where
  "init_calls =
     [(type_bool, [''bool'']), (type_int2, [''int2'']), (type_int4, [''int4'', ''int'']),
      (type_int8, [''int8'']), (type_float4, [''float4'']), (type_float8, [''float8'']),
      (type_text, []), (type_varchar, [''varchar'']), (type_char, [''char'']),
      (type_bytea, []), (type_oid, [])]"

definition types_init :: registry where
  "types_init = fold (\<lambda>(t, as) r. registerType t as r) init_calls
     \<lparr>typesByOID = Map.empty, oidsByName = Map.empty\<rparr>"

definition TypeByOID :: "u32 \<Rightarrow> pg_type option" where
  "TypeByOID oid = typesByOID types_init oid"

definition OIDByName :: "string \<Rightarrow> u32 option" where
  "OIDByName name = oidsByName types_init (ToLower name)"

section \<open>The registry as a table, and text round trips\<close>

lemmas type_defs = type_bool_def type_int2_def type_int4_def type_int8_def type_float4_def
  type_float8_def type_text_def type_varchar_def type_char_def type_bytea_def type_oid_def

lemma TypeByOID_eq:
  "TypeByOID oid =
     (if oid = OidBool then Some type_bool else if oid = OidInt2 then Some type_int2
      else if oid = OidInt4 then Some type_int4 else if oid = OidInt8 then Some type_int8
      else if oid = OidFloat4 then Some type_float4 else if oid = OidFloat8 then Some type_float8
      else if oid = OidText then Some type_text else if oid = OidVarchar then Some type_varchar
      else if oid = OidChar then Some type_char else if oid = OidBytea then Some type_bytea
      else if oid = OidOid then Some type_oid else None)"
  by (simp add: TypeByOID_def types_init_def init_calls_def registerType_def type_defs oid_defs)

text \<open>The dynamic type that \<open>TextEncode\<close> and \<open>encodeFixed\<close> expect of a column's value.\<close>

definition value_has_type :: "u32 \<Rightarrow> gvalue \<Rightarrow> bool" where
  "value_has_type oid v =
     (case v of
        VBool _ \<Rightarrow> oid = OidBool
      | VInt16 _ \<Rightarrow> oid = OidInt2
      | VInt32 _ \<Rightarrow> oid = OidInt4
      | VInt64 _ \<Rightarrow> oid = OidInt8
      | VFloat32 _ \<Rightarrow> oid = OidFloat4
      | VFloat64 _ \<Rightarrow> oid = OidFloat8
      | VString _ \<Rightarrow> oid = OidText \<or> oid = OidVarchar \<or> oid = OidChar
      | VBytes _ \<Rightarrow> oid = OidBytea
      | VUint32 _ \<Rightarrow> oid = OidOid)"

lemma TypeByOID_OID: "TypeByOID oid = Some t \<Longrightarrow> type_OID t = oid"
  by (auto simp: TypeByOID_eq type_defs split: if_splits)

lemma hex_digit_hex_char: "d < 16 \<Longrightarrow> hex_digit (hex_char d) = Some d"
  by (simp add: hex_digit_def hex_char_def char_digit_def lower_char_def)

lemma hex_decode_encode: "hex_decode (hex_encode bs) = Some bs"
proof (induction bs)
  case (Cons b bs)
  have "unat b < 256" using unsigned_less [where ?'a = nat, of b] by simp
  then have "unat b div 16 < 16" by simp
  then show ?case using Cons by (simp add: hex_digit_hex_char)
qed simp

lemma sint_roundtrip:
  "ParseInt (LENGTH('a)) (FormatInt (sint (i :: 'a::len word))) = Some (sint i)"
  if "LENGTH('a) \<le> 64"
  using that sint_greater_eq [of i] sint_less [of i] by (intro ParseInt_FormatInt) auto

lemma uint_roundtrip: "ParseUint 32 (FormatInt (uint (u :: u32))) = Some (uint u)"
  by (rule ParseUint_FormatInt) (auto intro: uint_lt2p [of u, simplified])

lemma text_encode_ok_iff:
  assumes "TypeByOID oid = Some t"
  shows "(\<exists>s. TextEncode t v = Ok s) \<longleftrightarrow> (\<exists>x. v = Some x \<and> value_has_type oid x)"
proof (cases v)
  case None
  with assms show ?thesis by (auto simp: TypeByOID_eq type_defs split: if_splits)
next
  case (Some x)
  with assms show ?thesis
    by (cases x) (auto simp: TypeByOID_eq type_defs value_has_type_def oid_defs split: if_splits)
qed

lemma text_roundtrip:
  assumes "TypeByOID oid = Some t" and "value_has_type oid v" and "oid \<noteq> OidFloat4" and "oid \<noteq> OidFloat8"
  shows "\<exists>s. TextEncode t (Some v) = Ok s \<and> TextDecode t s = Ok (Some v)"
  using assms sint_roundtrip [where ?'a = 16] sint_roundtrip [where ?'a = 32] sint_roundtrip [where ?'a = 64]
  by (cases v)
     (auto simp: TypeByOID_eq type_defs value_has_type_def oid_defs uint_roundtrip hex_decode_encode
        bytea_prefix_def ToLower_def lower_char_def in_range split: if_splits)

lemma OIDByName_registered: "OIDByName n = Some oid \<Longrightarrow> \<exists>t. TypeByOID oid = Some t \<and> type_OID t = oid"
  by (auto simp: OIDByName_def types_init_def init_calls_def registerType_def TypeByOID_eq type_defs oid_defs
      split: if_splits)

lemma lower_upper_char: "lower_char (upper_char c) = lower_char c"
proof -
  have "(of_char c :: nat) < 256" by simp
  then show ?thesis
  by (auto simp: lower_char_def upper_char_def Let_def)
qed

lemma OIDByName_case: "OIDByName (map upper_char n) = OIDByName n"
  by (simp add: OIDByName_def ToLower_def lower_upper_char comp_def)

section \<open>Properties\<close>

text \<open>C36. For every registered type but the two float types, \<open>TextDecode\<close> reads back what \<open>TextEncode\<close> wrote: every value of the type's dynamic Go type is encoded, and decoding the text gives the value.\<close>

theorem types_text_roundtrip:
  assumes "TypeByOID oid = Some t" and "value_has_type oid v" and "oid \<noteq> OidFloat4" and "oid \<noteq> OidFloat8"
  shows "\<exists>s. TextEncode t (Some v) = Ok s \<and> TextDecode t s = Ok (Some v)"
  using assms by (rule text_roundtrip)

theorem types_text_roundtrip_witness:
  "\<exists>s. TextEncode type_int2 (Some (VInt16 (- 300))) = Ok s \<and> TextDecode type_int2 s = Ok (Some (VInt16 (- 300)))"
  using types_text_roundtrip [of OidInt2 type_int2 "VInt16 (- 300)"]
  by (simp add: TypeByOID_eq value_has_type_def oid_defs)

text \<open>C37. The two maps of the registry agree: a type name that \<open>OIDByName\<close> knows leads to a type that \<open>TypeByOID\<close> finds and whose OID it is, the lookup of a name ignores its case, and \<open>TextEncode\<close> of the type accepts exactly the values of the type's dynamic Go type.\<close>

theorem types_registry_consistent:
  assumes "OIDByName name = Some oid"
  shows "\<exists>t. TypeByOID oid = Some t \<and> type_OID t = oid \<and> OIDByName (map upper_char name) = Some oid \<and>
    (\<forall>v. (\<exists>s. TextEncode t v = Ok s) \<longleftrightarrow> (\<exists>x. v = Some x \<and> value_has_type oid x))"
proof -
  obtain t where t: "TypeByOID oid = Some t" "type_OID t = oid" using OIDByName_registered [OF assms] by blast
  show ?thesis using t assms text_encode_ok_iff [OF t(1)] OIDByName_case [of name] by auto
qed

theorem types_registry_consistent_witness:
  "\<exists>t. TypeByOID OidChar = Some t \<and> type_OID t = OidChar \<and> OIDByName ''CHAR'' = Some OidChar"
proof -
  have "OIDByName ''char'' = Some OidChar" by code_simp
  moreover have "map upper_char ''char'' = ''CHAR''" by code_simp
  ultimately show ?thesis using types_registry_consistent [of "''char''" OidChar] by auto
qed

end
