(* ===== verification/Catalog.thy ===== *)
theory Catalog
  imports SqlTypes
begin

text \<open>
  The in-memory catalog of \<open>internal/catalog/catalog.go\<close>. Each operation runs under the
  catalog's mutex, so it is one atomic function on the record. The contract its clients rely
  on is the locale \<open>table_store\<close>: what a lookup returns after a creation and a removal, that a
  refused operation changes nothing, and that object identifiers are never shared.
\<close>

section \<open>Tables and the catalog\<close>

record column_def =
  col_Name :: string
  col_TypeOID :: u32
  col_TypeMod :: int
  col_NotNull :: bool
  col_HasDefault :: bool
  col_Default :: string

record table_def =
  tbl_OID :: u32
  tbl_Name :: string
  tbl_Schema :: string
  tbl_Columns :: "column_def list"

record catalog =
  cat_tables :: "string \<rightharpoonup> table_def"
  cat_nextOID :: u32

definition NewCatalog :: catalog where
  "NewCatalog = \<lparr>cat_tables = Map.empty, cat_nextOID = 16384\<rparr>"

definition table_key :: "string \<Rightarrow> string \<Rightarrow> string" where
  "table_key schema name = schema @ ''.'' @ name"

definition CreateTable :: "string \<Rightarrow> string \<Rightarrow> column_def list \<Rightarrow> catalog \<Rightarrow> unit result \<times> catalog" where
  "CreateTable schema name columns c =
     (let key = table_key schema name
      in case cat_tables c key of
           Some _ \<Rightarrow> (Err (ErrRelationExists name), c)
         | None \<Rightarrow>
             (Ok (), c\<lparr>cat_tables := (cat_tables c)(key \<mapsto>
                \<lparr>tbl_OID = cat_nextOID c, tbl_Name = name, tbl_Schema = schema, tbl_Columns = columns\<rparr>),
                cat_nextOID := cat_nextOID c + 1\<rparr>))"

definition DropTable :: "string \<Rightarrow> string \<Rightarrow> bool \<Rightarrow> catalog \<Rightarrow> unit result \<times> catalog" where
  "DropTable schema name ifExists c =
     (let key = table_key schema name
      in case cat_tables c key of
           None \<Rightarrow> if ifExists then (Ok (), c) else (Err (ErrTableMissing name), c)
         | Some _ \<Rightarrow> (Ok (), c\<lparr>cat_tables := (cat_tables c)(key := None)\<rparr>))"

definition GetTable :: "string \<Rightarrow> string \<Rightarrow> catalog \<Rightarrow> table_def result" where
  "GetTable schema name c =
     (case cat_tables c (table_key schema name) of
        None \<Rightarrow> Err (ErrRelationMissing name)
      | Some table \<Rightarrow> Ok table)"

section \<open>The invariant\<close>

text \<open>
  Every table's OID lies between the first user OID and the next one to be given, and two
  names never share an OID. The counter wraps after \<open>2 ^ 32 - 16384\<close> creations; the
  invariant is kept as long as it has not.
\<close>

definition catalog_inv :: "catalog \<Rightarrow> bool" where
  "catalog_inv c \<longleftrightarrow>
     16384 \<le> unat (cat_nextOID c) \<and>
     (\<forall>k t. cat_tables c k = Some t \<longrightarrow> 16384 \<le> unat (tbl_OID t) \<and> unat (tbl_OID t) < unat (cat_nextOID c)) \<and>
     (\<forall>k k' t t'. cat_tables c k = Some t \<longrightarrow> cat_tables c k' = Some t' \<longrightarrow> tbl_OID t = tbl_OID t' \<longrightarrow> k = k')"

lemma table_key_inject [simp]: "table_key s n = table_key s n' \<longleftrightarrow> n = n'"
  by (simp add: table_key_def)

lemma catalog_inv_NewCatalog: "catalog_inv NewCatalog"
  by (simp add: catalog_inv_def NewCatalog_def)

lemma unat_Suc_no_wrap: "x \<noteq> - 1 \<Longrightarrow> unat (x + 1 :: 'a::len word) = Suc (unat x)"
  using unatSuc [of x] by (simp add: add.commute [of x] add_eq_0_iff)

lemma catalog_inv_CreateTable:
  assumes "catalog_inv c" and "cat_nextOID c \<noteq> - 1"
  shows "catalog_inv (snd (CreateTable schema name cols c))"
proof (cases "cat_tables c (table_key schema name)")
  case (Some t)
  then show ?thesis using assms by (simp add: CreateTable_def)
next
  case None
  have n: "unat (cat_nextOID c + 1) = Suc (unat (cat_nextOID c))"
    using assms(2) by (rule unat_Suc_no_wrap)
  have fresh: "cat_tables c k = Some t \<Longrightarrow> tbl_OID t \<noteq> cat_nextOID c" for k t
    using assms(1) by (fastforce simp: catalog_inv_def)
  have old: "cat_tables c k = Some t \<Longrightarrow> 16384 \<le> unat (tbl_OID t) \<and> unat (tbl_OID t) < Suc (unat (cat_nextOID c))" for k t
    using assms(1) by (auto simp: catalog_inv_def less_Suc_eq)
  show ?thesis
    using assms(1) None n old fresh
    unfolding catalog_inv_def CreateTable_def Let_def
    by (auto split: if_splits) (metis fresh)+
qed

lemma catalog_inv_DropTable: "catalog_inv c \<Longrightarrow> catalog_inv (snd (DropTable schema name ifExists c))"
  by (auto simp: catalog_inv_def DropTable_def Let_def split: option.splits if_splits)

section \<open>The contract of the catalog\<close>

text \<open>
  What the executor relies on. It names tables inside one schema, so the operations are taken
  with the schema fixed. \<open>room\<close> says that the OID counter has not reached its end.
\<close>

locale table_store =
  fixes create :: "string \<Rightarrow> column_def list \<Rightarrow> 'c \<Rightarrow> unit result \<times> 'c"
    and drop :: "string \<Rightarrow> bool \<Rightarrow> 'c \<Rightarrow> unit result \<times> 'c"
    and get :: "string \<Rightarrow> 'c \<Rightarrow> table_def result"
    and inv :: "'c \<Rightarrow> bool"
    and room :: "'c \<Rightarrow> bool"
  assumes get_total: "(\<exists>t. get n c = Ok t) \<or> get n c = Err (ErrRelationMissing n)"
    and create_new: "get n c = Err e \<Longrightarrow> \<exists>c' t. create n cols c = (Ok (), c') \<and> get n c' = Ok t \<and>
          tbl_Name t = n \<and> tbl_Columns t = cols \<and> (\<forall>m. m \<noteq> n \<longrightarrow> get m c' = get m c)"
    and create_taken: "get n c = Ok t \<Longrightarrow> create n cols c = (Err (ErrRelationExists n), c)"
    and drop_present: "get n c = Ok t \<Longrightarrow> \<exists>c'. drop n x c = (Ok (), c') \<and>
          get n c' = Err (ErrRelationMissing n) \<and> (\<forall>m. m \<noteq> n \<longrightarrow> get m c' = get m c)"
    and drop_absent: "get n c = Err e \<Longrightarrow>
          drop n x c = (if x then Ok () else Err (ErrTableMissing n), c)"
    and inv_create: "inv c \<Longrightarrow> room c \<Longrightarrow> inv (snd (create n cols c))"
    and inv_drop: "inv c \<Longrightarrow> inv (snd (drop n x c))"
    and inv_oid: "inv c \<Longrightarrow> get n c = Ok t \<Longrightarrow> get m c = Ok u \<Longrightarrow> tbl_OID t = tbl_OID u \<Longrightarrow> n = m"
begin

text \<open>A name is free again after a drop, and a second creation succeeds.\<close>

lemma drop_then_create:
  assumes "get n c = Ok t"
  shows "\<exists>c1 c2 u. drop n x c = (Ok (), c1) \<and> create n cols c1 = (Ok (), c2) \<and>
    get n c2 = Ok u \<and> tbl_Columns u = cols \<and> (\<forall>m. m \<noteq> n \<longrightarrow> get m c2 = get m c)"
proof -
  obtain c1 where c1: "drop n x c = (Ok (), c1)" "get n c1 = Err (ErrRelationMissing n)"
    and f1: "\<And>m. m \<noteq> n \<Longrightarrow> get m c1 = get m c"
    using drop_present [OF assms] by blast
  then obtain c2 u where "create n cols c1 = (Ok (), c2)" "get n c2 = Ok u" "tbl_Columns u = cols"
    and "\<And>m. m \<noteq> n \<Longrightarrow> get m c2 = get m c1"
    using create_new by blast
  with c1 f1 show ?thesis by metis
qed

text \<open>An operation on one name never changes what another name means.\<close>

lemma create_frame: "m \<noteq> n \<Longrightarrow> get m (snd (create n cols c)) = get m c"
  using get_total [of n c] create_new [of n c] create_taken [of n c]
  by (metis snd_conv)

lemma drop_frame: "m \<noteq> n \<Longrightarrow> get m (snd (drop n x c)) = get m c"
  using get_total [of n c] drop_present [of n c] drop_absent [of n c]
  by (metis snd_conv)

end

definition catalog_room :: "catalog \<Rightarrow> bool" where
  "catalog_room c \<longleftrightarrow> cat_nextOID c \<noteq> - 1"

interpretation pub: table_store "CreateTable ''public''" "DropTable ''public''" "GetTable ''public''"
  catalog_inv catalog_room
proof (unfold_locales, goal_cases)
  case (1 n c)
  show ?case by (simp add: GetTable_def split: option.splits)
next
  case (2 n c e cols)
  then show ?case by (auto simp: GetTable_def CreateTable_def Let_def split: option.splits)
next
  case (3 n c t cols)
  then show ?case by (simp add: GetTable_def CreateTable_def Let_def split: option.splits)
next
  case (4 n c t x)
  then show ?case by (auto simp: GetTable_def DropTable_def Let_def split: option.splits)
next
  case (5 n c e x)
  then show ?case by (simp add: GetTable_def DropTable_def Let_def split: option.splits)
next
  case (6 c n cols)
  then show ?case by (simp add: catalog_inv_CreateTable catalog_room_def)
next
  case (7 c n x)
  then show ?case by (rule catalog_inv_DropTable)
next
  case (8 c n t m u)
  then have "cat_tables c (table_key ''public'' n) = Some t" "cat_tables c (table_key ''public'' m) = Some u"
    by (simp_all add: GetTable_def split: option.splits)
  with 8(1,4) have "table_key ''public'' n = table_key ''public'' m"
    unfolding catalog_inv_def by blast
  then show ?case by simp
qed

section \<open>Properties\<close>

text \<open>C34. Creating a table under a free name makes it the table that \<open>GetTable\<close> finds, with the given columns, changes what no other name means, keeps the invariant of the catalog, and gives the table an OID that no other table has.\<close>

theorem catalog_create_table:
  assumes "catalog_inv c" and "catalog_room c" and "GetTable ''public'' n c = Err e"
  shows "\<exists>c' t. CreateTable ''public'' n cols c = (Ok (), c') \<and> catalog_inv c' \<and>
    GetTable ''public'' n c' = Ok t \<and> tbl_Name t = n \<and> tbl_Columns t = cols \<and>
    (\<forall>m. m \<noteq> n \<longrightarrow> GetTable ''public'' m c' = GetTable ''public'' m c) \<and>
    (\<forall>m u. m \<noteq> n \<longrightarrow> GetTable ''public'' m c = Ok u \<longrightarrow> tbl_OID u \<noteq> tbl_OID t)"
proof -
  obtain c' t where c: "CreateTable ''public'' n cols c = (Ok (), c')" "GetTable ''public'' n c' = Ok t"
    "tbl_Name t = n" "tbl_Columns t = cols" and o: "\<And>m. m \<noteq> n \<Longrightarrow> GetTable ''public'' m c' = GetTable ''public'' m c"
    using pub.create_new [OF assms(3)] by blast
  have i: "catalog_inv c'" using pub.inv_create [OF assms(1,2), of n cols] c(1) by simp
  have "tbl_OID u \<noteq> tbl_OID t" if "m \<noteq> n" "GetTable ''public'' m c = Ok u" for m u
    using pub.inv_oid [OF i _ c(2), of m u] that o by auto
  then show ?thesis using c i o by blast
qed

theorem catalog_create_table_witness:
  "\<exists>c' t. CreateTable ''public'' ''t'' [] NewCatalog = (Ok (), c') \<and> GetTable ''public'' ''t'' c' = Ok t"
  using catalog_create_table [OF catalog_inv_NewCatalog, of "''t''" "ErrRelationMissing ''t''" "[]"]
  by (auto simp: catalog_room_def NewCatalog_def GetTable_def)

text \<open>After \<open>DROP TABLE\<close> the name is free again: the table cannot be found, a second creation under the name succeeds with its own columns, and every other table is as before.\<close>

lemma catalog_drop_then_create:
  assumes "GetTable ''public'' n c = Ok t"
  shows "\<exists>c1 c2 u. DropTable ''public'' n x c = (Ok (), c1) \<and> GetTable ''public'' n c1 = Err (ErrRelationMissing n) \<and>
    CreateTable ''public'' n cols c1 = (Ok (), c2) \<and> GetTable ''public'' n c2 = Ok u \<and> tbl_Columns u = cols \<and>
    (\<forall>m. m \<noteq> n \<longrightarrow> GetTable ''public'' m c2 = GetTable ''public'' m c)"
  using pub.drop_then_create [OF assms, of x cols] pub.drop_present [OF assms, of x] by fastforce

end
