(* ===== verification/Eval.thy ===== *)
theory Eval
  imports Ast Catalog
begin

text \<open>
  Expressions in \<open>internal/executor/executor.go\<close>: comparisons of dynamic values, the
  evaluation of a \<open>WHERE\<close> expression on a row, and the conversion of a literal to a column's
  type. The lemmas give the meaning of the comparison operators: they are exact on integers that
  a \<open>float64\<close> holds, the string comparisons form a linear order, \<open>NULL\<close> never compares,
  and the evaluation of a well-formed predicate returns a truth value.
\<close>

section \<open>Comparisons\<close>

definition toFloat64 :: "gvalue \<Rightarrow> u64 option" where
  "toFloat64 v =
     (case v of
        VInt16 n \<Rightarrow> Some (f64_of_int (sint n))
      | VInt32 n \<Rightarrow> Some (f64_of_int (sint n))
      | VInt64 n \<Rightarrow> Some (f64_of_int (sint n))
      | VFloat32 f \<Rightarrow> Some (f64_of_f32 f)
      | VFloat64 f \<Rightarrow> Some f
      | _ \<Rightarrow> None)"

definition compareFloat :: "u64 \<Rightarrow> u64 \<Rightarrow> string \<Rightarrow> bool result" where
  "compareFloat l r op =
     (if op = ''='' then Ok (f64_eq l r)
      else if op = ''!='' \<or> op = ''<>'' then Ok (\<not> f64_eq l r)
      else if op = ''<'' then Ok (f64_lt l r)
      else if op = ''>'' then Ok (f64_lt r l)
      else if op = ''<='' then Ok (f64_le l r)
      else if op = ''>='' then Ok (f64_le r l)
      else Err (ErrBadOperator op))"

text \<open>Go compares strings byte by byte.\<close>

fun str_less :: "string \<Rightarrow> string \<Rightarrow> bool" where
  "str_less s [] = False"
| "str_less [] (c # cs) = True"
| "str_less (a # as) (b # bs) =
     (if (of_char a :: nat) < of_char b then True
      else if (of_char b :: nat) < of_char a then False
      else str_less as bs)"

definition compareString :: "string \<Rightarrow> string \<Rightarrow> string \<Rightarrow> bool result" where
  "compareString l r op =
     (if op = ''='' then Ok (l = r)
      else if op = ''!='' \<or> op = ''<>'' then Ok (l \<noteq> r)
      else if op = ''<'' then Ok (str_less l r)
      else if op = ''>'' then Ok (str_less r l)
      else if op = ''<='' then Ok (\<not> str_less r l)
      else if op = ''>='' then Ok (\<not> str_less l r)
      else Err (ErrBadOperator op))"

definition compareBool :: "bool \<Rightarrow> bool \<Rightarrow> string \<Rightarrow> bool result" where
  "compareBool l r op =
     (if op = ''='' then Ok (l = r)
      else if op = ''!='' \<or> op = ''<>'' then Ok (l \<noteq> r)
      else Err (ErrBadOperator op))"

definition compareValues :: "any \<Rightarrow> any \<Rightarrow> string \<Rightarrow> bool result" where
  "compareValues left right op =
     (case (left, right) of
        (Some l, Some r) \<Rightarrow>
          (case (toFloat64 l, toFloat64 r) of
             (Some lf, Some rf) \<Rightarrow> compareFloat lf rf op
           | _ \<Rightarrow>
               (case (l, r) of
                  (VString ls, VString rs) \<Rightarrow> compareString ls rs op
                | (VBool lb, VBool rb) \<Rightarrow> compareBool lb rb op
                | _ \<Rightarrow> Err (ErrCannotCompare l r)))
      | _ \<Rightarrow> Ok False)"

section \<open>Column lookup, predicates and literals\<close>

text \<open>The index of the first column with a given name, as every loop over the columns finds it.\<close>

fun find_column :: "string \<Rightarrow> column_def list \<Rightarrow> nat option" where
  "find_column name [] = None"
| "find_column name (c # cs) =
     (if col_Name c = name then Some 0 else map_option Suc (find_column name cs))"

text \<open>\<open>row[i]\<close>: an index past the end panics.\<close>

definition row_index :: "any list \<Rightarrow> nat \<Rightarrow> any result" where
  "row_index row i = (if i < length row then Ok (row ! i) else Panic)"

fun evalExpr :: "expression \<Rightarrow> any list \<Rightarrow> column_def list \<Rightarrow> any result" where
  "evalExpr (IntegerLiteral n) row columns = Ok (Some (VInt64 n))"
| "evalExpr (FloatLiteral f) row columns = Ok (Some (VFloat64 f))"
| "evalExpr (StringLiteral s) row columns = Ok (Some (VString s))"
| "evalExpr (BoolLiteral b) row columns = Ok (Some (VBool b))"
| "evalExpr NullLiteral row columns = Ok None"
| "evalExpr (ColumnRef name) row columns =
     (case find_column name columns of
        Some i \<Rightarrow> row_index row i
      | None \<Rightarrow> Err (ErrColumnNotFound name))"
| "evalExpr (IsNullExpr e neg) row columns =
     bind (evalExpr e row columns) (\<lambda>val.
       Ok (Some (VBool (if neg then val \<noteq> None else val = None))))"
| "evalExpr (BinaryExpr l op r) row columns =
     (if op = ''AND'' then
        bind (evalExpr l row columns) (\<lambda>left.
          if left \<noteq> Some (VBool True) then Ok (Some (VBool False)) else evalExpr r row columns)
      else if op = ''OR'' then
        bind (evalExpr l row columns) (\<lambda>left.
          if left = Some (VBool True) then Ok (Some (VBool True)) else evalExpr r row columns)
      else
        bind (evalExpr l row columns) (\<lambda>left.
        bind (evalExpr r row columns) (\<lambda>right.
        bind (compareValues left right op) (\<lambda>b. Ok (Some (VBool b))))))"

definition evalLiteral :: "expression \<Rightarrow> column_def \<Rightarrow> any result" where
  "evalLiteral expr col =
     (let oid = col_TypeOID col
      in case expr of
           NullLiteral \<Rightarrow> Ok None
         | IntegerLiteral n \<Rightarrow>
             if oid = OidInt2 then Ok (Some (VInt16 (ucast n)))
             else if oid = OidInt4 then Ok (Some (VInt32 (ucast n)))
             else if oid = OidInt8 then Ok (Some (VInt64 n))
             else if oid = OidFloat4 then Ok (Some (VFloat32 (f32_of_int (sint n))))
             else if oid = OidFloat8 then Ok (Some (VFloat64 (f64_of_int (sint n))))
             else if oid = OidOid then Ok (Some (VUint32 (ucast n)))
             else Err (ErrLiteralKind ''integer'' (col_Name col) oid)
         | FloatLiteral f \<Rightarrow>
             if oid = OidFloat4 then Ok (Some (VFloat32 (f32_of_f64 f)))
             else if oid = OidFloat8 then Ok (Some (VFloat64 f))
             else Err (ErrLiteralKind ''float'' (col_Name col) oid)
         | StringLiteral s \<Rightarrow>
             if oid = OidText \<or> oid = OidVarchar \<or> oid = OidChar then Ok (Some (VString s))
             else if oid = OidBytea then Ok (Some (VBytes (bytes_of_string s)))
             else Err (ErrLiteralKind ''string'' (col_Name col) oid)
         | BoolLiteral b \<Rightarrow>
             if oid = OidBool then Ok (Some (VBool b))
             else Err (ErrLiteralKind ''boolean'' (col_Name col) oid)
         | _ \<Rightarrow> Err ErrUnsupportedExpr)"

section \<open>The comparisons mean what they say\<close>

lemma str_less_irrefl [simp]: "\<not> str_less s s"
  by (induction s) auto

lemma str_less_trans: "str_less a b \<Longrightarrow> str_less b c \<Longrightarrow> str_less a c"
proof (induction a b arbitrary: c rule: str_less.induct)
  case (3 a as b bs)
  then show ?case by (cases c) (auto split: if_splits)
next
  case (2 c cs d)
  then show ?case by (cases d) auto
qed simp

lemma str_less_linear: "str_less a b \<or> a = b \<or> str_less b a"
proof (induction a b rule: str_less.induct)
  case (1 s)
  then show ?case by (cases s) auto
next
  case (3 a as b bs)
  then show ?case by (auto simp: not_less dest: order_antisym)
qed simp

text \<open>The six operators of an expression, as relations on a linear order.\<close>

definition op_holds :: "string \<Rightarrow> ('a::linorder) \<Rightarrow> 'a \<Rightarrow> bool" where
  "op_holds op a b \<longleftrightarrow>
     (op = ''='' \<and> a = b) \<or> ((op = ''!='' \<or> op = ''<>'') \<and> a \<noteq> b) \<or> (op = ''<'' \<and> a < b) \<or>
     (op = ''>'' \<and> b < a) \<or> (op = ''<='' \<and> a \<le> b) \<or> (op = ''>='' \<and> b \<le> a)"

definition is_comparison :: "string \<Rightarrow> bool" where
  "is_comparison op \<longleftrightarrow> op \<in> {''='', ''!='', ''<>'', ''<'', ''>'', ''<='', ''>=''}"

text \<open>An integer value of a column, as a number.\<close>

definition int_value :: "gvalue \<Rightarrow> int option" where
  "int_value v = (case v of VInt16 n \<Rightarrow> Some (sint n) | VInt32 n \<Rightarrow> Some (sint n) | VInt64 n \<Rightarrow> Some (sint n) | _ \<Rightarrow> None)"

lemma toFloat64_int_value: "int_value v = Some i \<Longrightarrow> toFloat64 v = Some (f64_of_int i)"
  by (cases v) (auto simp: int_value_def toFloat64_def)

lemma compareValues_int:
  assumes "int_value l = Some i" and "int_value r = Some j" and "\<bar>i\<bar> \<le> 2 ^ 53" and "\<bar>j\<bar> \<le> 2 ^ 53"
    and "is_comparison op"
  shows "compareValues (Some l) (Some r) op = Ok (op_holds op i j)"
  using assms(5) toFloat64_int_value [OF assms(1)] toFloat64_int_value [OF assms(2)]
    f64_compare_int [OF assms(3,4)] f64_compare_int [OF assms(4,3)]
  by (auto simp: compareValues_def compareFloat_def op_holds_def is_comparison_def)

lemma int_value_bounds:
  "int_value (VInt16 n) = Some i \<Longrightarrow> \<bar>i\<bar> \<le> 2 ^ 53"
  "int_value (VInt32 m) = Some i \<Longrightarrow> \<bar>i\<bar> \<le> 2 ^ 53"
  using sint_greater_eq [of n] sint_less [of n] sint_greater_eq [of m] sint_less [of m]
  by (auto simp: int_value_def)

lemma compareValues_null: "compareValues None r op = Ok False" "compareValues l None op = Ok False"
  by (cases l; simp add: compareValues_def)+

section \<open>Predicates that cannot fail\<close>

text \<open>
  A static check of a \<open>WHERE\<close> expression against the columns of a table. An expression that
  passes it evaluates without error on every row that decodes for those columns; the value is
  \<open>NULL\<close> or of the inferred kind. Columns of type \<open>oid\<close> have no kind: their values cannot be
  compared.
\<close>

datatype kind = KNum | KStr | KBool | KNull

definition col_kind :: "u32 \<Rightarrow> kind option" where
  "col_kind oid =
     (if oid \<in> {OidInt2, OidInt4, OidInt8, OidFloat4, OidFloat8} then Some KNum
      else if oid \<in> {OidText, OidVarchar, OidChar, OidBytea} then Some KStr
      else if oid = OidBool then Some KBool else None)"

definition value_kind :: "gvalue \<Rightarrow> kind option" where
  "value_kind v =
     (case v of
        VBool _ \<Rightarrow> Some KBool | VString _ \<Rightarrow> Some KStr | VBytes _ \<Rightarrow> None | VUint32 _ \<Rightarrow> None | _ \<Rightarrow> Some KNum)"

definition comparable :: "kind \<Rightarrow> kind \<Rightarrow> string \<Rightarrow> bool" where
  "comparable a b op \<longleftrightarrow>
     is_comparison op \<and>
     (a = KNull \<or> b = KNull \<or> (a = b \<and> (a = KBool \<longrightarrow> op \<in> {''='', ''!='', ''<>''})))"

fun infer :: "column_def list \<Rightarrow> expression \<Rightarrow> kind option" where
  "infer cols (IntegerLiteral n) = Some KNum"
| "infer cols (FloatLiteral f) = Some KNum"
| "infer cols (StringLiteral s) = Some KStr"
| "infer cols (BoolLiteral b) = Some KBool"
| "infer cols NullLiteral = Some KNull"
| "infer cols (ColumnRef name) =
     (case find_column name cols of None \<Rightarrow> None | Some i \<Rightarrow> col_kind (col_TypeOID (cols ! i)))"
| "infer cols (IsNullExpr e neg) = (case infer cols e of None \<Rightarrow> None | Some k \<Rightarrow> Some KBool)"
| "infer cols (BinaryExpr l op r) =
     (case (infer cols l, infer cols r) of
        (Some a, Some b) \<Rightarrow>
          if op = ''AND'' \<or> op = ''OR'' then (if b = KBool \<or> b = KNull then Some KBool else None)
          else if comparable a b op then Some KBool else None
      | _ \<Rightarrow> None)"

definition has_kind :: "any \<Rightarrow> kind \<Rightarrow> bool" where
  "has_kind v k \<longleftrightarrow> (case v of None \<Rightarrow> True | Some x \<Rightarrow> value_kind x = Some k)"

definition row_kinds :: "any list \<Rightarrow> column_def list \<Rightarrow> bool" where
  "row_kinds row cols \<longleftrightarrow>
     length row = length cols \<and>
     (\<forall>i < length cols. \<forall>k. col_kind (col_TypeOID (cols ! i)) = Some k \<longrightarrow> has_kind (row ! i) k)"

lemma find_column_Some: "find_column n cols = Some i \<Longrightarrow> i < length cols \<and> col_Name (cols ! i) = n"
  by (induction cols arbitrary: i) (auto split: if_splits)

lemma compareValues_comparable:
  assumes "comparable a b op" and "has_kind l a" and "has_kind r b"
  shows "\<exists>t. compareValues l r op = Ok t"
proof (cases "l = None \<or> r = None")
  case True
  then show ?thesis using compareValues_null by auto
next
  case False
  then obtain x y where xy: "l = Some x" "r = Some y" by auto
  then have k: "value_kind x = Some a" "value_kind y = Some b" using assms(2,3) by (auto simp: has_kind_def)
  then have "a = b" "a \<noteq> KNull" using assms(1) by (auto simp: comparable_def value_kind_def split: gvalue.splits)
  then show ?thesis
    using xy k assms(1)
    by (cases x; cases y) (auto simp: compareValues_def value_kind_def toFloat64_def compareFloat_def compareString_def
        compareBool_def comparable_def is_comparison_def)
qed

lemma evalExpr_kind:
  assumes "row_kinds row cols"
  shows "infer cols e = Some k \<Longrightarrow> \<exists>v. evalExpr e row cols = Ok v \<and> has_kind v k"
proof (induction e arbitrary: k)
  case (ColumnRef name)
  then show ?case
    using assms by (auto simp: row_kinds_def row_index_def dest!: find_column_Some split: option.splits)
next
  case (BinaryExpr l op r)
  obtain a b where ab: "infer cols l = Some a" "infer cols r = Some b"
    using BinaryExpr.prems by (auto split: option.splits)
  obtain v w where v: "evalExpr l row cols = Ok v" "has_kind v a" and w: "evalExpr r row cols = Ok w" "has_kind w b"
    using BinaryExpr.IH ab by blast
  show ?case
  proof (cases "op = ''AND'' \<or> op = ''OR''")
    case True
    then have "k = KBool" "has_kind w KBool"
      using BinaryExpr.prems ab w(2) by (auto simp: has_kind_def value_kind_def split: if_splits option.splits gvalue.splits)
    then show ?thesis using True v w by (auto simp: has_kind_def value_kind_def)
  next
    case False
    then have c: "comparable a b op" "k = KBool" using BinaryExpr.prems ab by (auto split: if_splits)
    obtain t where "compareValues v w op = Ok t" using compareValues_comparable [OF c(1) v(2) w(2)] by blast
    then show ?thesis using False v w c by (simp add: has_kind_def value_kind_def)
  qed
next
  case (IsNullExpr e neg)
  then show ?case by (force simp: has_kind_def value_kind_def split: option.splits)
qed (auto simp: has_kind_def value_kind_def)

section \<open>Literals have the type of their column\<close>

lemma evalLiteral_type:
  "evalLiteral e c = Ok (Some v) \<Longrightarrow> value_has_type (col_TypeOID c) v"
  by (cases e) (auto simp: evalLiteral_def Let_def value_has_type_def split: if_splits)

section \<open>Properties\<close>

text \<open>C35. Comparing two integers of any width is exact for all six operators as long as both magnitudes are at most \<open>2 ^ 53\<close>, which every \<open>smallint\<close> and \<open>integer\<close> satisfies, although the comparison goes through \<open>float64\<close>.\<close>

theorem compare_integers:
  assumes "int_value l = Some i" and "int_value r = Some j" and "\<bar>i\<bar> \<le> 2 ^ 53" and "\<bar>j\<bar> \<le> 2 ^ 53"
    and "is_comparison op"
  shows "compareValues (Some l) (Some r) op = Ok (op_holds op i j)"
  using assms by (rule compareValues_int)

theorem compare_integers_witness: "compareValues (Some (VInt32 (- 4))) (Some (VInt16 9)) ''<='' = Ok True"
  using compare_integers [of "VInt32 (- 4)" "- 4" "VInt16 9" 9 "''<=''"]
  by (simp add: int_value_def is_comparison_def op_holds_def)

text \<open>The string comparisons describe one linear order: exactly one of \<open><\<close>, \<open>=\<close> and \<open>>\<close> holds between two strings, \<open><=\<close> and \<open>>=\<close> are their unions, \<open>!=\<close> and \<open><>\<close> the negation of \<open>=\<close>, and \<open><\<close> is transitive.\<close>

lemma compare_strings:
  "\<exists>lt eq gt. compareString a b ''<'' = Ok lt \<and> compareString a b ''='' = Ok eq \<and> compareString a b ''>'' = Ok gt \<and>
     (lt \<or> eq \<or> gt) \<and> \<not> (lt \<and> eq) \<and> \<not> (eq \<and> gt) \<and> \<not> (lt \<and> gt) \<and>
     compareString a b ''<='' = Ok (lt \<or> eq) \<and> compareString a b ''>='' = Ok (gt \<or> eq) \<and>
     compareString a b ''!='' = Ok (\<not> eq) \<and> compareString a b ''<>'' = Ok (\<not> eq) \<and>
     \<not> (lt \<and> compareString b c ''<'' = Ok True \<and> compareString a c ''<'' \<noteq> Ok True)"
  using str_less_linear [of a b] str_less_trans [of a b a] str_less_trans [of a b c]
  by (auto simp: compareString_def)

text \<open>C30. Type safety of predicates: an expression that the static check accepts for a table's columns evaluates without an error and without a panic on every row of those columns, to \<open>NULL\<close> or to a value of the inferred kind.\<close>

theorem eval_type_safe:
  assumes "infer cols e = Some k" and "row_kinds row cols"
  shows "\<exists>v. evalExpr e row cols = Ok v \<and> has_kind v k"
  using evalExpr_kind assms by blast

theorem eval_type_safe_witness:
  "\<exists>v. evalExpr (BinaryExpr (ColumnRef ''n'') ''>='' (IntegerLiteral 3)) [Some (VInt32 5)]
      [\<lparr>col_Name = ''n'', col_TypeOID = OidInt4, col_TypeMod = - 1, col_NotNull = False, col_HasDefault = False, col_Default = []\<rparr>] = Ok v
     \<and> has_kind v KBool"
  by (rule eval_type_safe)
     (simp_all add: comparable_def is_comparison_def col_kind_def row_kinds_def has_kind_def value_kind_def oid_defs)

text \<open>\<open>evalLiteral\<close> gives a value of the column's own type: whenever it returns a value that is not \<open>NULL\<close>, that value has the dynamic Go type which the column's encoder expects.\<close>

lemma literal_has_column_type:
  assumes "evalLiteral e c = Ok (Some v)"
  shows "value_has_type (col_TypeOID c) v"
  using assms by (rule evalLiteral_type)

end
