(* ===== verification/Page.thy ===== *)
theory Page
  imports Prelude
begin

text \<open>
  The slotted page of \<open>internal/storage/page.go\<close>. A page is its 8192 bytes; the operations
  work on the bytes with the \<open>uint16\<close> arithmetic of the code, and a slice or an index out of
  range is a panic. The specification is \<open>mk_page ts\<close>, the exact byte image of a page that
  holds the tuples \<open>ts\<close>: header, item pointers growing up, zeroed free space, tuple data
  growing down. The operations refine the list of tuples: \<open>InitPage\<close> is the empty list,
  \<open>AddTuple\<close> appends when the tuple fits and refuses when it does not, \<open>GetTuple\<close> indexes.
\<close>

section \<open>The page and its operations\<close>

definition PageSize :: nat where [simp]: "PageSize = 8192"
definition PageHeaderSize :: nat where [simp]: "PageHeaderSize = 8"
definition ItemPointerSize :: nat where [simp]: "ItemPointerSize = 4"

type_synonym page = "byte list"

definition GetItemCount :: "page \<Rightarrow> u16" where
  "GetItemCount p = be_word (take 2 p)"

definition setItemCount :: "u16 \<Rightarrow> page \<Rightarrow> page" where
  "setItemCount count p = put_at 0 (be_bytes 2 count) p"

definition GetLowerOffset :: "page \<Rightarrow> u16" where
  "GetLowerOffset p = be_word (take 2 (drop 2 p))"

definition setLowerOffset :: "u16 \<Rightarrow> page \<Rightarrow> page" where
  "setLowerOffset offset p = put_at 2 (be_bytes 2 offset) p"

definition GetUpperOffset :: "page \<Rightarrow> u16" where
  "GetUpperOffset p = be_word (take 2 (drop 4 p))"

definition setUpperOffset :: "u16 \<Rightarrow> page \<Rightarrow> page" where
  "setUpperOffset offset p = put_at 4 (be_bytes 2 offset) p"

text \<open>\<open>&Page{}\<close> is all zeros; \<open>InitPage\<close> overwrites whatever the array holds.\<close>

definition InitPage :: "page \<Rightarrow> page" where
  "InitPage p =
     (let z = map (\<lambda>_. 0) p
      in setUpperOffset (of_nat PageSize) (setLowerOffset (of_nat PageHeaderSize) (setItemCount 0 z)))"

definition FreeSpace :: "page \<Rightarrow> u16" where
  "FreeSpace p = GetUpperOffset p - GetLowerOffset p"

text \<open>
  Slices of the page at a computed offset. \<open>binary.BigEndian.PutUint16(p[off:], v)\<close> and
  \<open>Uint16(p[off:])\<close> panic unless two bytes are left at \<open>off\<close>; \<open>copy(p[off:], data)\<close>
  panics when \<open>off\<close> is past the end and copies what fits otherwise.
\<close>

definition put_u16 :: "u16 \<Rightarrow> u16 \<Rightarrow> page \<Rightarrow> page result" where
  "put_u16 off v p =
     (if unat off + 2 \<le> length p then Ok (put_at (unat off) (be_bytes 2 v) p) else Panic)"

definition get_u16 :: "u16 \<Rightarrow> page \<Rightarrow> u16 result" where
  "get_u16 off p =
     (if unat off + 2 \<le> length p then Ok (be_word (take 2 (drop (unat off) p))) else Panic)"

definition copy_into :: "u16 \<Rightarrow> byte list \<Rightarrow> page \<Rightarrow> page result" where
  "copy_into off data p =
     (if unat off \<le> length p
      then Ok (put_at (unat off) (take (length p - unat off) data) p) else Panic)"

definition slice_u16 :: "u16 \<Rightarrow> u16 \<Rightarrow> page \<Rightarrow> byte list result" where
  "slice_u16 lo hi p =
     (if unat lo \<le> unat hi \<and> unat hi \<le> length p
      then Ok (take (unat hi - unat lo) (drop (unat lo) p)) else Panic)"

definition AddTuple :: "byte list \<Rightarrow> page \<Rightarrow> (page \<times> u16) result" where
  "AddTuple data p =
     (let needed = (of_nat (ItemPointerSize + length data) :: u16)
      in if FreeSpace p < needed then Err ErrNoSpace
         else
           let tupleOffset = GetUpperOffset p - of_nat (length data)
           in bind (copy_into tupleOffset data p) (\<lambda>p1.
           let itemIndex = GetItemCount p1;
               pointerOffset = of_nat PageHeaderSize + itemIndex * of_nat ItemPointerSize
           in bind (put_u16 pointerOffset tupleOffset p1) (\<lambda>p2.
              bind (put_u16 (pointerOffset + 2) (of_nat (length data)) p2) (\<lambda>p3.
              let p4 = setItemCount (itemIndex + 1) p3;
                  p5 = setLowerOffset (pointerOffset + of_nat ItemPointerSize) p4;
                  p6 = setUpperOffset tupleOffset p5
              in Ok (p6, itemIndex)))))"

definition GetTuple :: "u16 \<Rightarrow> page \<Rightarrow> byte list result" where
  "GetTuple index p =
     (if index \<ge> GetItemCount p then Err (ErrItemRange index)
      else
        let pointerOffset = of_nat PageHeaderSize + index * of_nat ItemPointerSize
        in bind (get_u16 pointerOffset p) (\<lambda>tupleOffset.
           bind (get_u16 (pointerOffset + 2) p) (\<lambda>tupleLength.
           slice_u16 tupleOffset (tupleOffset + tupleLength) p)))"

section \<open>The byte image of a list of tuples\<close>

definition used :: "byte list list \<Rightarrow> nat" where
  "used ts = sum_list (map length ts)"

fun item_ptrs :: "nat \<Rightarrow> byte list list \<Rightarrow> byte list" where
  "item_ptrs upper [] = []"
| "item_ptrs upper (t # ts) =
     be_bytes 2 (of_nat (upper - length t) :: u16) @ be_bytes 2 (of_nat (length t) :: u16)
     @ item_ptrs (upper - length t) ts"

definition page_image :: "u16 \<Rightarrow> u16 \<Rightarrow> u16 \<Rightarrow> byte list \<Rightarrow> page" where
  "page_image count lower upper body =
     be_bytes 2 count @ be_bytes 2 lower @ be_bytes 2 upper @ [0, 0] @ body"

definition fits :: "byte list list \<Rightarrow> bool" where
  "fits ts \<longleftrightarrow> PageHeaderSize + ItemPointerSize * length ts + used ts \<le> PageSize"

definition mk_page :: "byte list list \<Rightarrow> page" where
  "mk_page ts =
     page_image (of_nat (length ts)) (of_nat (PageHeaderSize + ItemPointerSize * length ts))
       (of_nat (PageSize - used ts))
       (item_ptrs PageSize ts
        @ replicate (PageSize - (PageHeaderSize + ItemPointerSize * length ts + used ts)) 0
        @ concat (rev ts))"

subsection \<open>Header fields of an image\<close>

named_theorems page_image_simps \<open>reading and writing the fields of a page image\<close>

lemma GetItemCount_image [page_image_simps]: "GetItemCount (page_image c l u b) = c"
  by (simp add: GetItemCount_def page_image_def)

lemma GetLowerOffset_image [page_image_simps]: "GetLowerOffset (page_image c l u b) = l"
  by (simp add: GetLowerOffset_def page_image_def)

lemma GetUpperOffset_image [page_image_simps]: "GetUpperOffset (page_image c l u b) = u"
proof -
  have "drop 4 (page_image c l u b) = be_bytes 2 u @ [0, 0] @ b"
    by (simp add: page_image_def)
  then show ?thesis by (simp add: GetUpperOffset_def)
qed

lemma setItemCount_image [page_image_simps]: "setItemCount c' (page_image c l u b) = page_image c' l u b"
  by (simp add: setItemCount_def page_image_def put_at_def)

lemma setLowerOffset_image [page_image_simps]: "setLowerOffset l' (page_image c l u b) = page_image c l' u b"
  by (simp add: setLowerOffset_def page_image_def put_at_def)

lemma setUpperOffset_image [page_image_simps]: "setUpperOffset u' (page_image c l u b) = page_image c l u' b"
  by (simp add: setUpperOffset_def page_image_def put_at_def)

lemma length_page_image [page_image_simps]: "length (page_image c l u b) = 8 + length b"
  by (simp add: page_image_def)

lemma drop_page_image [page_image_simps]: "drop (8 + k) (page_image c l u b) = drop k b"
  by (simp add: page_image_def)

lemma take_page_image: "take (8 + k) (page_image c l u b) = page_image c l u (take k b)"
  by (simp add: page_image_def)

lemma put_at_page_image [page_image_simps]:
  "put_at (8 + k) bs (page_image c l u b) = page_image c l u (put_at k bs b)"
  using take_page_image [of k] drop_page_image [of "k + length bs"]
  by (simp add: put_at_def add.assoc) (simp add: page_image_def)

subsection \<open>Item pointers and tuple data\<close>

lemma used_Nil [simp]: "used [] = 0"
  by (simp add: used_def)

lemma used_Cons [simp]: "used (t # ts) = length t + used ts"
  by (simp add: used_def)

lemma used_append [simp]: "used (ts @ us) = used ts + used us"
  by (simp add: used_def)

lemma length_concat_used [simp]: "length (concat ts) = used ts"
  by (induction ts) auto

lemma used_rev [simp]: "used (rev ts) = used ts"
  by (simp add: used_def rev_map [symmetric])

lemma length_item_ptrs [simp]: "length (item_ptrs u ts) = 4 * length ts"
  by (induction u ts rule: item_ptrs.induct) auto

lemma item_ptrs_append: "item_ptrs u (ts @ us) = item_ptrs u ts @ item_ptrs (u - used ts) us"
  by (induction u ts rule: item_ptrs.induct) (auto simp: diff_diff_add)

lemma fits_append: "fits (ts @ us) \<Longrightarrow> fits ts"
  by (simp add: fits_def)

lemma length_mk_page [simp]: "fits ts \<Longrightarrow> length (mk_page ts) = PageSize"
  by (simp add: mk_page_def fits_def page_image_simps)

lemma GetItemCount_mk_page [simp]: "GetItemCount (mk_page ts) = of_nat (length ts)"
  by (simp add: mk_page_def page_image_simps)

lemma GetUpperOffset_mk_page [simp]: "GetUpperOffset (mk_page ts) = of_nat (PageSize - used ts)"
  by (simp add: mk_page_def page_image_simps)

lemma fits_length: "fits ts \<Longrightarrow> length ts \<le> 2046"
  by (simp add: fits_def)

lemma unat_count_mk_page: "fits ts \<Longrightarrow> unat (GetItemCount (mk_page ts)) = length ts"
  using fits_length [of ts] by (simp add: unat_of_nat_small)

lemma FreeSpace_mk_page:
  assumes "fits ts"
  shows "unat (FreeSpace (mk_page ts)) = PageSize - (PageHeaderSize + ItemPointerSize * length ts + used ts)"
proof -
  define n where "n = PageSize - (PageHeaderSize + ItemPointerSize * length ts + used ts)"
  have "PageSize - used ts = n + (PageHeaderSize + ItemPointerSize * length ts)"
    using assms by (simp add: n_def fits_def)
  then have "FreeSpace (mk_page ts) = of_nat n"
    by (simp add: FreeSpace_def mk_page_def page_image_simps del: of_nat_diff)
  moreover have "n < 2 ^ LENGTH(16)"
    by (simp add: n_def)
  ultimately show ?thesis
    by (simp only: unat_of_nat_small n_def)
qed

section \<open>The operations refine the list of tuples\<close>

lemma InitPage_mk_page:
  assumes "length p = PageSize"
  shows "InitPage p = mk_page []"
proof -
  have hdr: "page_image 0 0 0 b = replicate 8 0 @ b" for b
    by (simp add: page_image_def be_bytes_numeral numeral_eq_Suc)
  have "map (\<lambda>_. 0) p = replicate (8 + 8184) 0"
    using assms by (simp add: map_replicate_const)
  then have z: "map (\<lambda>_. 0) p = page_image 0 0 0 (replicate 8184 0)"
    by (simp only: replicate_add hdr)
  show ?thesis
    unfolding InitPage_def mk_page_def Let_def z by (simp add: page_image_simps)
qed

text \<open>
  The body of the image after \<open>AddTuple\<close>: the tuple is copied to the low end of the data and
  its pointer to the high end of the pointers, both inside the zeroed free space.
\<close>

lemma body_add:
  assumes "4 + length d \<le> z" and "length b1 = 2" and "length b2 = 2"
  shows "put_at (length P + 2) b2 (put_at (length P) b1
           (put_at (length P + z - length d) d (P @ replicate z 0 @ T)))
       = P @ b1 @ b2 @ replicate (z - (4 + length d)) (0 :: byte) @ d @ T"
    (is "put_at _ _ (put_at _ _ (put_at _ _ ?X)) = _")
proof -
  let ?y = "z - (4 + length d)"
  have z: "replicate z (0::byte) = replicate 2 0 @ replicate 2 0 @ replicate ?y 0 @ replicate (length d) 0"
  proof -
    have "z = 2 + (2 + (?y + length d))" using assms by simp
    then show ?thesis by (metis replicate_add)
  qed
  let ?A = "P @ replicate 2 0 @ replicate 2 0 @ replicate ?y (0::byte)"
  have "put_at (length P + z - length d) d ?X = ?A @ d @ T"
    using put_at_append_exact [of ?A "length P + z - length d" d "replicate (length d) 0" T] assms
    by (simp add: z)
  moreover have "put_at (length P) b1 (?A @ d @ T) = P @ b1 @ replicate 2 0 @ replicate ?y 0 @ d @ T"
    using put_at_append_exact [of P "length P" b1 "replicate 2 0"] assms by simp
  moreover have "put_at (length P + 2) b2 (P @ b1 @ replicate 2 0 @ replicate ?y 0 @ d @ T)
      = P @ b1 @ b2 @ replicate ?y 0 @ d @ T"
    using put_at_append_exact [of "P @ b1" "length P + 2" b2 "replicate 2 0"] assms by simp
  ultimately show ?thesis by simp
qed

lemma put_at_page_image' [page_image_simps]:
  "8 \<le> n \<Longrightarrow> put_at n bs (page_image c l u b) = page_image c l u (put_at (n - 8) bs b)"
  using put_at_page_image [of "n - 8" bs c l u b] by simp

lemma copy_into_image:
  assumes "8 \<le> unat off" and "unat off + length d \<le> 8 + length b"
  shows "copy_into off d (page_image c l u b) = Ok (page_image c l u (put_at (unat off - 8) d b))"
  using assms by (simp add: copy_into_def page_image_simps)

lemma put_u16_image:
  assumes "8 \<le> unat off" and "unat off \<le> 6 + length b"
  shows "put_u16 off v (page_image c l u b) = Ok (page_image c l u (put_at (unat off - 8) (be_bytes 2 v) b))"
  using assms by (simp add: put_u16_def page_image_simps)

lemma get_u16_image:
  assumes "8 \<le> unat off" and "unat off \<le> 6 + length b"
  shows "get_u16 off (page_image c l u b) = Ok (be_word (take 2 (drop (unat off - 8) b)))"
  using assms drop_page_image [of "unat off - 8" c l u b] by (simp add: get_u16_def page_image_simps)

lemma AddTuple_image:
  fixes c lo u :: u16 and d :: "byte list"
  defines "off \<equiv> u - of_nat (length d)"
  assumes "\<not> u - lo < of_nat (4 + length d)"
    and "8 \<le> unat off" and "unat off + length d \<le> 8 + length b"
    and "8 \<le> unat (8 + c * 4)" and "unat (10 + c * 4) = 2 + unat (8 + c * 4)"
    and "unat (8 + c * 4) \<le> 4 + length b"
  shows "AddTuple d (page_image c lo u b) =
    Ok (page_image (c + 1) (12 + c * 4) off
          (put_at (unat (8 + c * 4) - 6) (be_bytes 2 (of_nat (length d) :: u16))
            (put_at (unat (8 + c * 4) - 8) (be_bytes 2 off) (put_at (unat off - 8) d b))), c)"
  using assms(2-)
  by (simp add: AddTuple_def Let_def FreeSpace_def page_image_simps copy_into_image put_u16_image
      flip: off_def)

lemma AddTuple_mk_page:
  assumes "fits (ts @ [d])"
  shows "AddTuple d (mk_page ts) = Ok (mk_page (ts @ [d]), of_nat (length ts))"
proof -
  let ?n = "length ts" and ?u = "used ts" and ?l = "length d"
  define z where "z = 8184 - (4 * ?n + ?u)"
  have f: "8 + 4 * (?n + 1) + (?u + ?l) \<le> 8192"
    using assms by (simp add: fits_def)
  have off: "of_nat (8192 - ?u) - of_nat ?l = (of_nat (8192 - (?u + ?l)) :: u16)"
    using f by simp
  have ptr: "8 + of_nat ?n * 4 = (of_nat (8 + 4 * ?n) :: u16)"
       "10 + of_nat ?n * 4 = (of_nat (10 + 4 * ?n) :: u16)"
       "12 + of_nat ?n * 4 = (of_nat (8 + 4 * (?n + 1)) :: u16)"
    by simp_all
  have small: "unat (of_nat k :: u16) = k" if "k \<le> 8192" for k
    using that by (simp add: unat_of_nat_small)
  have space: "\<not> (of_nat (8192 - ?u) - of_nat (8 + 4 * ?n) :: u16) < of_nat (4 + ?l)"
  proof -
    have "of_nat (8192 - ?u) - of_nat (8 + 4 * ?n) = (of_nat z :: u16)"
      using f by (simp add: z_def)
    then show ?thesis
      using f small [of z] small [of "4 + ?l"] by (simp only: word_less_nat_alt) (simp add: z_def)
  qed
  let ?b = "item_ptrs 8192 ts @ replicate z 0 @ concat (rev ts)"
  have uoff: "unat (of_nat (8192 - (?u + ?l)) :: u16) = 8 + (4 * ?n + z - ?l)"
    using f by (subst small) (simp_all add: z_def)
  have uptr: "unat (of_nat (8 + 4 * ?n) :: u16) = 8 + 4 * ?n" "unat (of_nat (10 + 4 * ?n) :: u16) = 10 + 4 * ?n"
    using f by - (rule small, simp)+
  have "AddTuple d (mk_page ts) = AddTuple d (page_image (of_nat ?n) (of_nat (8 + 4 * ?n)) (of_nat (8192 - ?u)) ?b)"
    by (simp add: mk_page_def z_def)
  also have "\<dots> =
    Ok (page_image (of_nat ?n + 1) (of_nat (8 + 4 * (?n + 1))) (of_nat (8192 - (?u + ?l)))
        (put_at (4 * ?n + 2) (be_bytes 2 (of_nat ?l :: u16)) (put_at (4 * ?n) (be_bytes 2 (of_nat (8192 - (?u + ?l)) :: u16))
        (put_at (4 * ?n + z - ?l) d ?b))), of_nat ?n)"
    using f by (subst AddTuple_image) (simp_all only: off ptr uoff uptr space, simp_all add: z_def)
  also have "\<dots> = Ok (mk_page (ts @ [d]), of_nat ?n)"
    using f body_add [of d z "be_bytes 2 (of_nat (8192 - (?u + ?l)) :: u16)" "be_bytes 2 (of_nat ?l :: u16)" "item_ptrs 8192 ts" "concat (rev ts)"]
    by (simp add: mk_page_def item_ptrs_append z_def diff_diff_add add.commute [of 1 "of_nat ?n"])
  finally show ?thesis .
qed

lemma AddTuple_full:
  assumes "fits ts" and "\<not> fits (ts @ [d])" and "length d < 65532"
  shows "AddTuple d (mk_page ts) = Err ErrNoSpace"
proof -
  have "unat (FreeSpace (mk_page ts)) < 4 + length d"
    using assms FreeSpace_mk_page [of ts] by (simp add: fits_def)
  moreover have "unat (of_nat (4 + length d) :: u16) = 4 + length d"
    using assms(3) by (intro unat_of_nat_small) simp
  ultimately have "FreeSpace (mk_page ts) < of_nat (ItemPointerSize + length d)"
    by (simp only: word_less_nat_alt ItemPointerSize_def)
  then show ?thesis by (simp add: AddTuple_def Let_def)
qed

subsection \<open>Reading a tuple and overwriting its first bytes\<close>

definition item_offset :: "byte list list \<Rightarrow> nat \<Rightarrow> nat" where
  "item_offset ts i = PageSize - used (take (Suc i) ts)"

lemma take_used_le: "used (take i ts) \<le> used ts"
  by (metis append_take_drop_id le_add1 used_append)

lemma used_take_Suc: "i < length ts \<Longrightarrow> used (take (Suc i) ts) = used (take i ts) + length (ts ! i)"
  by (simp add: take_Suc_conv_app_nth)

lemma item_ptrs_nth:
  assumes "i < length ts"
  shows "item_ptrs PageSize ts = item_ptrs PageSize (take i ts)
    @ be_bytes 2 (of_nat (item_offset ts i) :: u16) @ be_bytes 2 (of_nat (length (ts ! i)) :: u16)
    @ item_ptrs (item_offset ts i) (drop (Suc i) ts)"
proof -
  have "item_ptrs PageSize ts = item_ptrs PageSize (take i ts @ ts ! i # drop (Suc i) ts)"
    using assms by (simp add: id_take_nth_drop [symmetric])
  also have "\<dots> = item_ptrs PageSize (take i ts) @ item_ptrs (PageSize - used (take i ts)) (ts ! i # drop (Suc i) ts)"
    by (rule item_ptrs_append)
  finally show ?thesis
    using assms by (simp add: item_offset_def used_take_Suc diff_diff_add)
qed

text \<open>The bytes of the page before tuple \<open>i\<close>: they depend on the other tuples and on its length only.\<close>

definition page_prefix :: "byte list list \<Rightarrow> nat \<Rightarrow> byte list" where
  "page_prefix ts i =
     page_image (of_nat (length ts)) (of_nat (PageHeaderSize + ItemPointerSize * length ts)) (of_nat (PageSize - used ts))
       (item_ptrs PageSize ts
        @ replicate (PageSize - (PageHeaderSize + ItemPointerSize * length ts + used ts)) 0
        @ concat (rev (drop (Suc i) ts)))"

lemma mk_page_split:
  assumes "i < length ts"
  shows "mk_page ts = page_prefix ts i @ ts ! i @ concat (rev (take i ts))"
proof -
  have "concat (rev ts) = concat (rev (take i ts @ ts ! i # drop (Suc i) ts))"
    using assms by (simp add: id_take_nth_drop [symmetric])
  then show ?thesis
    by (simp add: mk_page_def page_prefix_def page_image_def)
qed

lemma length_page_prefix:
  assumes "fits ts" and "i < length ts"
  shows "length (page_prefix ts i) = item_offset ts i"
proof -
  have "length (mk_page ts) = length (page_prefix ts i) + length (ts ! i) + used (take i ts)"
    by (subst mk_page_split [OF assms(2)]) simp
  with assms show ?thesis by (simp add: item_offset_def used_take_Suc)
qed

lemma item_ptrs_lengths: "map length ts = map length us \<Longrightarrow> item_ptrs u ts = item_ptrs u us"
proof (induction ts arbitrary: us u)
  case (Cons t ts)
  then obtain v vs where us: "us = v # vs" and "length t = length v" and vs: "map length ts = map length vs"
    by (cases us) auto
  then show ?case using Cons.IH [OF vs] by simp
qed simp

lemma page_prefix_update:
  assumes "i < length ts" and "length t = length (ts ! i)"
  shows "page_prefix (ts[i := t]) i = page_prefix ts i"
proof -
  have m: "map length (ts[i := t]) = map length ts"
    using assms by (metis list_update_id map_update)
  then have "used (ts[i := t]) = used ts" and "item_ptrs PageSize (ts[i := t]) = item_ptrs PageSize ts"
    by (simp add: used_def) (rule item_ptrs_lengths [OF m])
  then show ?thesis using assms by (simp add: page_prefix_def)
qed

lemma item_offset_bounds:
  assumes "fits ts" and "i < length ts"
  shows "8 + 4 * length ts \<le> item_offset ts i" and "item_offset ts i + length (ts ! i) \<le> PageSize"
  using assms take_used_le [of "Suc i" ts] by (simp_all add: item_offset_def fits_def used_take_Suc)

lemma get_u16_pointer:
  assumes "fits ts" and "i < length ts"
  shows "get_u16 (of_nat PageHeaderSize + of_nat i * of_nat ItemPointerSize) (mk_page ts) = Ok (of_nat (item_offset ts i))"
    and "get_u16 (of_nat PageHeaderSize + of_nat i * of_nat ItemPointerSize + 2) (mk_page ts) = Ok (of_nat (length (ts ! i)))"
proof -
  have f: "8 + 4 * length ts + used ts \<le> 8192" using assms by (simp add: fits_def)
  have o: "of_nat PageHeaderSize + of_nat i * of_nat ItemPointerSize = (of_nat (8 + 4 * i) :: u16)"
          "of_nat PageHeaderSize + of_nat i * of_nat ItemPointerSize + 2 = (of_nat (8 + 4 * i + 2) :: u16)"
    by simp_all
  have u: "unat (of_nat (8 + 4 * i) :: u16) = 8 + 4 * i" "unat (of_nat (8 + 4 * i + 2) :: u16) = 8 + 4 * i + 2"
    using f assms(2) by - (rule unat_of_nat_small, simp)+
  define rest where "rest = item_ptrs (item_offset ts i) (drop (Suc i) ts)
    @ replicate (8192 - (8 + 4 * length ts + used ts)) 0 @ concat (rev ts)"
  have p: "mk_page ts = page_image (of_nat (length ts)) (of_nat (8 + 4 * length ts)) (of_nat (8192 - used ts))
    (item_ptrs PageSize (take i ts) @ be_bytes 2 (of_nat (item_offset ts i) :: u16)
     @ be_bytes 2 (of_nat (length (ts ! i)) :: u16) @ rest)"
    using item_ptrs_nth [OF assms(2)] by (simp add: mk_page_def rest_def)
  have l: "length (item_ptrs PageSize (take i ts)) = 4 * i"
    using assms(2) by simp
  show "get_u16 (of_nat PageHeaderSize + of_nat i * of_nat ItemPointerSize) (mk_page ts) = Ok (of_nat (item_offset ts i))"
    using l unfolding o p by (subst get_u16_image) (simp_all only: u, simp_all)
  show "get_u16 (of_nat PageHeaderSize + of_nat i * of_nat ItemPointerSize + 2) (mk_page ts) = Ok (of_nat (length (ts ! i)))"
    using l unfolding o(2) p by (subst get_u16_image) (simp_all only: u, simp_all)
qed

lemma GetTuple_mk_page:
  assumes "fits ts" and "i < length ts"
  shows "GetTuple (of_nat i) (mk_page ts) = Ok (ts ! i)"
proof -
  let ?o = "item_offset ts i" and ?l = "length (ts ! i)"
  have b: "?o + ?l \<le> 8192" using item_offset_bounds(2) [OF assms] by simp
  have "unat (of_nat i :: u16) = i"
    using assms fits_length [of ts] by (intro unat_of_nat_small) simp
  then have idx: "\<not> of_nat i \<ge> GetItemCount (mk_page ts)"
    using assms unat_count_mk_page [of ts] by (simp only: word_le_nat_alt)
  have u: "unat (of_nat ?o :: u16) = ?o" "unat (of_nat ?o + of_nat ?l :: u16) = ?o + ?l"
    using b unat_of_nat_small [where ?'a = 16, of ?o] unat_of_nat_small [where ?'a = 16, of "?o + ?l"]
    by simp_all
  have "take ?l (drop ?o (mk_page ts)) = ts ! i"
    using mk_page_split [OF assms(2)] length_page_prefix [OF assms] by simp
  then have "slice_u16 (of_nat ?o) (of_nat ?o + of_nat ?l) (mk_page ts) = Ok (ts ! i)"
    using b assms(1) unfolding slice_u16_def u by simp
  then show ?thesis
    using get_u16_pointer [OF assms] idx by (simp add: GetTuple_def Let_def del: GetItemCount_mk_page)
qed

lemma GetTuple_out_of_range:
  "index \<ge> GetItemCount p \<Longrightarrow> GetTuple index p = Err (ErrItemRange index)"
  by (simp add: GetTuple_def)

lemma fits_update: "length t = length (ts ! i) \<Longrightarrow> i < length ts \<Longrightarrow> fits (ts[i := t]) \<longleftrightarrow> fits ts"
  by (simp add: fits_def used_def map_update sum_list_update)

lemma mk_page_overwrite:
  assumes "fits ts" and "i < length ts" and "k + length h \<le> length (ts ! i)"
  shows "put_at (item_offset ts i + k) h (mk_page ts) = mk_page (ts[i := put_at k h (ts ! i)])"
proof -
  let ?t = "put_at k h (ts ! i)" and ?R = "concat (rev (take i ts))"
  have l: "length ?t = length (ts ! i)" using assms(3) by simp
  have "put_at (item_offset ts i + k) h (mk_page ts)
      = put_at (length (page_prefix ts i) + k) h (page_prefix ts i @ ts ! i @ ?R)"
    using assms by (simp add: length_page_prefix mk_page_split)
  also have "\<dots> = page_prefix ts i @ put_at k h (ts ! i @ ?R)"
    by (rule put_at_tail)
  also have "\<dots> = page_prefix ts i @ ?t @ ?R"
    using assms(3) by (simp add: put_at_head)
  also have "\<dots> = mk_page (ts[i := ?t])"
    using assms(2) l by (simp add: mk_page_split [of i "ts[i := ?t]"] page_prefix_update)
  finally show ?thesis .
qed

section \<open>The contract of a slotted page\<close>

text \<open>
  What the heap file and the scans of the executor rely on: a page represents a list of tuples,
  adding appends or refuses, reading by index returns the list's elements.
\<close>

locale slotted_page =
  fixes add :: "'d \<Rightarrow> 'p \<Rightarrow> ('p \<times> u16) result"
    and get :: "u16 \<Rightarrow> 'p \<Rightarrow> 'd result"
    and count :: "'p \<Rightarrow> u16"
    and rep :: "'p \<Rightarrow> 'd list \<Rightarrow> bool"
    and room :: "'d list \<Rightarrow> 'd \<Rightarrow> bool"
    and small :: "'d \<Rightarrow> bool"
  assumes add_ok: "rep p ts \<Longrightarrow> room ts d \<Longrightarrow> \<exists>p'. add d p = Ok (p', of_nat (length ts)) \<and> rep p' (ts @ [d])"
    and add_full: "rep p ts \<Longrightarrow> \<not> room ts d \<Longrightarrow> small d \<Longrightarrow> add d p = Err ErrNoSpace"
    and get_ok: "rep p ts \<Longrightarrow> i < length ts \<Longrightarrow> get (of_nat i) p = Ok (ts ! i)"
    and count_ok: "rep p ts \<Longrightarrow> unat (count p) = length ts"
begin

lemma index_exact: "rep p ts \<Longrightarrow> i < length ts \<Longrightarrow> unat (of_nat i :: u16) = i"
proof (rule unat_of_nat_small)
  assume "rep p ts" and "i < length ts"
  with count_ok [of p ts] have "i < unat (count p)" by simp
  also have "\<dots> < 2 ^ LENGTH(16)" by (rule unsigned_less)
  finally show "i < 2 ^ LENGTH(16)" .
qed

text \<open>Reading every index below the count lists the tuples, in order.\<close>

lemma scan:
  assumes "rep p ts"
  shows "map (\<lambda>i. get (of_nat i) p) [0..<unat (count p)] = map Ok ts"
  unfolding count_ok [OF assms]
  by (rule nth_equalityI) (simp_all add: get_ok [OF assms])

text \<open>A successful addition is readable under the index it returned and disturbs no other tuple.\<close>

lemma add_readable:
  assumes "rep p ts" and "small d" and "add d p = Ok (p', i)"
  shows "rep p' (ts @ [d])" and "get i p' = Ok d" and "\<And>j. j < length ts \<Longrightarrow> get (of_nat j) p' = get (of_nat j) p"
proof -
  have "room ts d" using assms add_full by force
  then obtain q where "add d p = Ok (q, of_nat (length ts))" and "rep q (ts @ [d])"
    using add_ok [OF assms(1)] by blast
  with assms(3) have r: "rep p' (ts @ [d])" and i: "i = of_nat (length ts)"
    by simp_all
  show "rep p' (ts @ [d])" by (rule r)
  show "get i p' = Ok d" using get_ok [OF r, of "length ts"] by (simp add: i)
  show "get (of_nat j) p' = get (of_nat j) p" if "j < length ts" for j
    using get_ok [OF r, of j] get_ok [OF assms(1) that] that by (simp add: nth_append)
qed

end

definition page_rep :: "page \<Rightarrow> byte list list \<Rightarrow> bool" where
  "page_rep p ts \<longleftrightarrow> fits ts \<and> p = mk_page ts"

interpretation sp: slotted_page AddTuple GetTuple GetItemCount page_rep
  "\<lambda>ts d. fits (ts @ [d])" "\<lambda>d. length d < 65532"
proof (unfold_locales, goal_cases)
  case (1 p ts d)
  then show ?case by (simp add: page_rep_def AddTuple_mk_page)
next
  case (2 p ts d)
  then show ?case by (simp add: page_rep_def AddTuple_full)
next
  case (3 p ts i)
  then show ?case by (simp add: page_rep_def GetTuple_mk_page)
next
  case (4 p ts)
  then show ?case by (simp only: page_rep_def unat_count_mk_page)
qed

section \<open>Bounds\<close>

text \<open>Any sequence of insertions, those that find no room included.\<close>

fun add_all :: "byte list list \<Rightarrow> page \<Rightarrow> page" where
  "add_all [] p = p"
| "add_all (d # ds) p = (case AddTuple d p of Ok (p', i) \<Rightarrow> add_all ds p' | _ \<Rightarrow> add_all ds p)"

definition item_pointer :: "nat \<Rightarrow> page \<Rightarrow> (u16 \<times> u16) result" where
  "item_pointer i p =
     bind (get_u16 (of_nat PageHeaderSize + of_nat i * of_nat ItemPointerSize) p) (\<lambda>off.
     bind (get_u16 (of_nat PageHeaderSize + of_nat i * of_nat ItemPointerSize + 2) p) (\<lambda>len. Ok (off, len)))"

lemma add_all_rep:
  "page_rep p ts \<Longrightarrow> list_all (\<lambda>d. length d < 65532) ds \<Longrightarrow> \<exists>ts'. page_rep (add_all ds p) ts'"
proof (induction ds arbitrary: p ts)
  case (Cons d ds)
  show ?case
  proof (cases "fits (ts @ [d])")
    case True
    then obtain p' where "AddTuple d p = Ok (p', of_nat (length ts))" "page_rep p' (ts @ [d])"
      using sp.add_ok [OF Cons.prems(1)] by blast
    then show ?thesis using Cons by simp
  next
    case False
    then show ?thesis using sp.add_full [OF Cons.prems(1) False] Cons by simp
  qed
qed auto

lemma GetLowerOffset_mk_page: "GetLowerOffset (mk_page ts) = of_nat (PageHeaderSize + ItemPointerSize * length ts)"
  by (simp add: mk_page_def page_image_simps)

lemma page_rep_bounds:
  assumes "page_rep p ts"
  shows "unat (GetItemCount p) = length ts" and "length ts \<le> 2046" and "unat (GetLowerOffset p) = 8 + 4 * length ts"
    and "unat (GetUpperOffset p) = 8192 - used ts" and "8 + 4 * length ts + used ts \<le> 8192"
    and "unat (FreeSpace p) = 8192 - used ts - (8 + 4 * length ts)" and "length p = PageSize"
proof -
  have f: "fits ts" and p: "p = mk_page ts" using assms by (auto simp: page_rep_def)
  show u: "8 + 4 * length ts + used ts \<le> 8192" using f by (simp add: fits_def)
  show "length ts \<le> 2046" "unat (GetItemCount p) = length ts" using fits_length [OF f] unat_count_mk_page [OF f] p by simp_all
  have "unat (of_nat (8 + 4 * length ts) :: u16) = 8 + 4 * length ts" "unat (of_nat (8192 - used ts) :: u16) = 8192 - used ts"
    using u by (intro unat_of_nat_small; simp)+
  then show "unat (GetLowerOffset p) = 8 + 4 * length ts" "unat (GetUpperOffset p) = 8192 - used ts"
    unfolding p GetLowerOffset_mk_page GetUpperOffset_mk_page by simp_all
  show "unat (FreeSpace p) = 8192 - used ts - (8 + 4 * length ts)" using FreeSpace_mk_page [OF f] p by simp
  show "length p = PageSize" using length_mk_page [OF f] p by simp
qed

lemma item_pointer_rep:
  assumes "page_rep p ts" and "i < length ts"
  shows "item_pointer i p = Ok (of_nat (item_offset ts i), of_nat (length (ts ! i)))"
    and "unat (of_nat (item_offset ts i) :: u16) = item_offset ts i" and "unat (of_nat (length (ts ! i)) :: u16) = length (ts ! i)"
    and "8192 - used ts \<le> item_offset ts i"
    and "item_offset ts i + length (ts ! i) = (if i = 0 then 8192 else item_offset ts (i - 1))"
proof -
  have f: "fits ts" and p: "p = mk_page ts" using assms by (auto simp: page_rep_def)
  show "item_pointer i p = Ok (of_nat (item_offset ts i), of_nat (length (ts ! i)))"
    using get_u16_pointer [OF f assms(2)] by (simp add: item_pointer_def p)
  note b = item_offset_bounds [OF f assms(2)]
  show "unat (of_nat (item_offset ts i) :: u16) = item_offset ts i" "unat (of_nat (length (ts ! i)) :: u16) = length (ts ! i)"
    using b by (intro unat_of_nat_small; simp)+
  show "8192 - used ts \<le> item_offset ts i" using take_used_le [of "Suc i" ts] by (simp add: item_offset_def)
  show "item_offset ts i + length (ts ! i) = (if i = 0 then 8192 else item_offset ts (i - 1))"
    using b used_take_Suc [OF assms(2)] by (cases i) (simp_all add: item_offset_def used_def)
qed

section \<open>Properties\<close>

text \<open>C14. A page that holds the tuples \<open>ts\<close> takes one more exactly when the header, the item pointers and the tuples fit into 8192 bytes. Then the tuple is stored under the next index, and reading every index below the new item count gives the old tuples and the new one, in order. Otherwise \<open>AddTuple\<close> returns the error of a full page. (A tuple is shorter than 65532 bytes, so that the length \<open>AddTuple\<close> computes does not wrap.)\<close>

theorem page_add_tuple:
  assumes "page_rep p ts" and "length d < 65532"
  shows "if 8 + 4 * (length ts + 1) + sum_list (map length ts) + length d \<le> 8192
    then \<exists>p'. AddTuple d p = Ok (p', of_nat (length ts)) \<and> page_rep p' (ts @ [d]) \<and>
      map (\<lambda>i. GetTuple (of_nat i) p') [0..<unat (GetItemCount p')] = map Ok (ts @ [d])
    else AddTuple d p = Err ErrNoSpace"
proof -
  have f: "fits (ts @ [d]) \<longleftrightarrow> 8 + 4 * (length ts + 1) + sum_list (map length ts) + length d \<le> 8192"
    by (auto simp: fits_def used_def)
  show ?thesis
  proof (cases "fits (ts @ [d])")
    case True
    then obtain p' where "AddTuple d p = Ok (p', of_nat (length ts))" and r: "page_rep p' (ts @ [d])"
      using sp.add_ok [OF assms(1)] by blast
    then show ?thesis using sp.scan [OF r] True f by auto
  next
    case False
    then show ?thesis using sp.add_full [OF assms(1) False assms(2)] f by auto
  qed
qed

theorem page_add_tuple_witness:
  "\<exists>p'. AddTuple [1, 2, 3] (InitPage (replicate 8192 0)) = Ok (p', 0) \<and> page_rep p' [[1, 2, 3]]"
proof -
  have "page_rep (InitPage (replicate 8192 0)) []"
    using InitPage_mk_page [of "replicate 8192 0"] by (simp add: page_rep_def fits_def used_def)
  then show ?thesis using page_add_tuple [of _ "[]" "[1, 2, 3]"] by auto
qed

text \<open>C15. The layout of a page never breaks. Whatever tuples are added to a fresh page, in any order and whether or not they find room, the item pointers end where the free space begins, the tuples begin where it ends, the free space is what lies between, and each tuple ends exactly where the one before it begins, the first at the end of the page: no two overlap, none reaches into the item pointers, and no 16-bit offset wraps.\<close>

theorem page_bounds:
  assumes "length p0 = PageSize" and "list_all (\<lambda>d. length d < 65532) ds" and "p = add_all ds (InitPage p0)"
  shows "length p = PageSize \<and> unat (GetItemCount p) \<le> 2046 \<and>
    unat (GetLowerOffset p) = 8 + 4 * unat (GetItemCount p) \<and> unat (GetLowerOffset p) \<le> unat (GetUpperOffset p) \<and>
    unat (GetUpperOffset p) \<le> 8192 \<and> unat (FreeSpace p) = unat (GetUpperOffset p) - unat (GetLowerOffset p) \<and>
    (\<forall>i < unat (GetItemCount p). \<exists>off len. item_pointer i p = Ok (off, len) \<and> unat (GetUpperOffset p) \<le> unat off \<and>
       Ok (unat off + unat len) = (if i = 0 then Ok 8192 else bind (item_pointer (i - 1) p) (\<lambda>(off', len'). Ok (unat off'))))"
proof -
  have "page_rep (InitPage p0) []" using InitPage_mk_page [OF assms(1)] by (simp add: page_rep_def fits_def used_def)
  then obtain ts where r: "page_rep p ts" using add_all_rep [OF _ assms(2)] assms(3) by blast
  note b = page_rep_bounds [OF r]
  have "\<exists>off len. item_pointer i p = Ok (off, len) \<and> unat (GetUpperOffset p) \<le> unat off \<and>
      Ok (unat off + unat len) = (if i = 0 then Ok 8192 else bind (item_pointer (i - 1) p) (\<lambda>(off', len'). Ok (unat off')))"
    if "i < unat (GetItemCount p)" for i
  proof -
    have i: "i < length ts" "i - 1 < length ts" using that b(1) by simp_all
    show ?thesis
      using item_pointer_rep [OF r i(1)] item_pointer_rep [OF r i(2)] b(4)
      by (intro exI [of _ "of_nat (item_offset ts i)"] exI [of _ "of_nat (length (ts ! i))"]) simp
  qed
  then show ?thesis using b by simp
qed

theorem page_bounds_witness:
  "let p = add_all [[1, 2, 3], [4]] (InitPage (replicate 8192 0))
   in unat (GetItemCount p) \<le> 2046 \<and> unat (GetLowerOffset p) = 8 + 4 * unat (GetItemCount p) \<and> unat (GetLowerOffset p) \<le> unat (GetUpperOffset p)"
  using page_bounds [of "replicate 8192 0" "[[1, 2, 3], [4]]", OF _ _ refl] by (simp add: Let_def)

end
