(* ===== verification/Tuple.thy ===== *)
theory Tuple
  imports Catalog
begin

text \<open>
  The tuple codec of \<open>internal/storage/tuple.go\<close>: a header with the two transaction
  identifiers, a null bitmap, and the columns' values in their binary form. The loops of
  \<open>EncodeTuple\<close> and \<open>DecodeTuple\<close> are recursions over the columns. The main lemma is the
  round trip: a row whose values have the dynamic types of its columns is encoded, and decoding
  gives the header and the row back, a \<open>bytea\<close> value coming back as a Go \<open>string\<close>.
\<close>

section \<open>Encoding\<close>

record tuple_header =
  Xmin :: u64
  Xmax :: u64

definition TupleHeaderSize :: nat where [simp]: "TupleHeaderSize = 16"

definition encodeFixed :: "gvalue \<Rightarrow> pg_type \<Rightarrow> byte list result" where
  "encodeFixed v t =
     (let buf = replicate (nat (type_Size t)) 0
      in if type_OID t = OidBool then
           (case v of VBool b \<Rightarrow> (if b then go_set buf 0 1 else Ok buf) | _ \<Rightarrow> Err (ErrExpected ''bool'' (Some v)))
         else if type_OID t = OidInt2 then
           (case v of VInt16 i \<Rightarrow> put_be 2 i buf | _ \<Rightarrow> Err (ErrExpected ''int16'' (Some v)))
         else if type_OID t = OidInt4 then
           (case v of VInt32 i \<Rightarrow> put_be 4 i buf | _ \<Rightarrow> Err (ErrExpected ''int32'' (Some v)))
         else if type_OID t = OidInt8 then
           (case v of VInt64 i \<Rightarrow> put_be 8 i buf | _ \<Rightarrow> Err (ErrExpected ''int64'' (Some v)))
         else if type_OID t = OidFloat4 then
           (case v of VFloat32 f \<Rightarrow> put_be 4 f buf | _ \<Rightarrow> Err (ErrExpected ''float32'' (Some v)))
         else if type_OID t = OidFloat8 then
           (case v of VFloat64 f \<Rightarrow> put_be 8 f buf | _ \<Rightarrow> Err (ErrExpected ''float64'' (Some v)))
         else if type_OID t = OidOid then
           (case v of VUint32 u \<Rightarrow> put_be 4 u buf | _ \<Rightarrow> Err (ErrExpected ''uint32'' (Some v)))
         else Err (ErrUnsupportedFixed (type_OID t)))"

definition encodeVariable :: "gvalue \<Rightarrow> byte list result" where
  "encodeVariable v =
     bind (case v of VString s \<Rightarrow> Ok (bytes_of_string s)
                   | VBytes b \<Rightarrow> Ok b
                   | _ \<Rightarrow> Err (ErrExpected ''string or []byte'' (Some v)))
       (\<lambda>data. Ok (be_bytes 4 (of_nat (length data) :: u32) @ data))"

definition encodeValue :: "gvalue \<Rightarrow> pg_type \<Rightarrow> byte list result" where
  "encodeValue v t = (if type_Size t > 0 then encodeFixed v t else encodeVariable v)"

text \<open>The two loops of \<open>EncodeTuple\<close>: the null bits, then the column data appended to \<open>buf\<close>.\<close>

fun set_null_bits :: "nat \<Rightarrow> any list \<Rightarrow> byte list \<Rightarrow> byte list result" where
  "set_null_bits i [] bitmap = Ok bitmap"
| "set_null_bits i (v # vs) bitmap =
     bind (if v = None
           then bind (go_index bitmap (i div 8)) (\<lambda>b. go_set bitmap (i div 8) (b OR push_bit (i mod 8) 1))
           else Ok bitmap)
       (\<lambda>bitmap'. set_null_bits (Suc i) vs bitmap')"

fun encode_columns :: "any list \<Rightarrow> column_def list \<Rightarrow> byte list \<Rightarrow> byte list result" where
  "encode_columns [] cols buf = Ok buf"
| "encode_columns (v # vs) [] buf = Panic"
| "encode_columns (v # vs) (col # cols) buf =
     (case v of
        None \<Rightarrow> encode_columns vs cols buf
      | Some x \<Rightarrow>
          (case TypeByOID (col_TypeOID col) of
             None \<Rightarrow> Err (ErrUnknownType (col_TypeOID col))
           | Some t \<Rightarrow> bind (encodeValue x t) (\<lambda>encoded. encode_columns vs cols (buf @ encoded))))"

definition bitmap_len :: "column_def list \<Rightarrow> nat" where
  "bitmap_len columns = (length columns + 7) div 8"

definition header_bytes :: "tuple_header \<Rightarrow> byte list" where
  "header_bytes h = be_bytes 8 (Xmin h) @ be_bytes 8 (Xmax h)"

definition EncodeTuple :: "tuple_header \<Rightarrow> any list \<Rightarrow> column_def list \<Rightarrow> byte list result" where
  "EncodeTuple header values columns =
     (if length values \<noteq> length columns then Err (ErrValueCount (length columns) (length values))
      else
        bind (set_null_bits 0 values (replicate (bitmap_len columns) 0)) (\<lambda>bitmap.
          encode_columns values columns (header_bytes header @ bitmap)))"

section \<open>Decoding\<close>

definition decodeFixed :: "byte list \<Rightarrow> pg_type \<Rightarrow> (gvalue \<times> nat) result" where
  "decodeFixed data t =
     (let size = nat (type_Size t)
      in if length data < size then Err (ErrShortFixed (type_Name t))
         else if type_OID t = OidBool then bind (go_index data 0) (\<lambda>b. Ok (VBool (b \<noteq> 0), size))
         else if type_OID t = OidInt2 then bind (get_be 2 data) (\<lambda>w. Ok (VInt16 w, size))
         else if type_OID t = OidInt4 then bind (get_be 4 data) (\<lambda>w. Ok (VInt32 w, size))
         else if type_OID t = OidInt8 then bind (get_be 8 data) (\<lambda>w. Ok (VInt64 w, size))
         else if type_OID t = OidFloat4 then bind (get_be 4 data) (\<lambda>w. Ok (VFloat32 w, size))
         else if type_OID t = OidFloat8 then bind (get_be 8 data) (\<lambda>w. Ok (VFloat64 w, size))
         else if type_OID t = OidOid then bind (get_be 4 data) (\<lambda>w. Ok (VUint32 w, size))
         else Err (ErrUnsupportedFixed (type_OID t)))"

definition decodeVariable :: "byte list \<Rightarrow> (gvalue \<times> nat) result" where
  "decodeVariable data =
     (if length data < 4 then Err ErrShortVarHeader
      else
        bind (go_slice data 0 4) (\<lambda>hdr.
        bind (get_be 4 hdr) (\<lambda>w.
        let len = unat (w :: u32)
        in if length data < 4 + len then Err ErrShortVar
           else bind (go_slice data 4 (4 + len)) (\<lambda>bs. Ok (VString (string_of_bytes bs), 4 + len)))))"

definition decodeValue :: "byte list \<Rightarrow> pg_type \<Rightarrow> (gvalue \<times> nat) result" where
  "decodeValue data t = (if type_Size t > 0 then decodeFixed data t else decodeVariable data)"

definition null_bit :: "byte list \<Rightarrow> nat \<Rightarrow> bool result" where
  "null_bit bitmap i = bind (go_index bitmap (i div 8)) (\<lambda>b. Ok (b AND push_bit (i mod 8) 1 \<noteq> 0))"

fun decode_columns :: "nat \<Rightarrow> byte list \<Rightarrow> byte list \<Rightarrow> nat \<Rightarrow> column_def list \<Rightarrow> any list result" where
  "decode_columns i bitmap data offset [] = Ok []"
| "decode_columns i bitmap data offset (col # cols) =
     bind (null_bit bitmap i) (\<lambda>is_null.
       if is_null
       then bind (decode_columns (Suc i) bitmap data offset cols) (\<lambda>vs. Ok (None # vs))
       else
         (case TypeByOID (col_TypeOID col) of
            None \<Rightarrow> Err (ErrUnknownType (col_TypeOID col))
          | Some t \<Rightarrow>
              bind (go_from data offset) (\<lambda>tail.
              bind (decodeValue tail t) (\<lambda>(x, n).
              bind (decode_columns (Suc i) bitmap data (offset + n) cols) (\<lambda>vs. Ok (Some x # vs))))))"

definition DecodeTuple :: "byte list \<Rightarrow> column_def list \<Rightarrow> (tuple_header \<times> any list) result" where
  "DecodeTuple data columns =
     (if length data < TupleHeaderSize then Err ErrShortHeader
      else
        bind (bind (go_slice data 0 8) (get_be 8)) (\<lambda>xmin.
        bind (bind (go_slice data 8 16) (get_be 8)) (\<lambda>xmax.
        let header = \<lparr>Xmin = xmin, Xmax = xmax\<rparr>; bl = bitmap_len columns
        in if length data < TupleHeaderSize + bl then Err ErrShortBitmap
           else
             bind (go_slice data TupleHeaderSize (TupleHeaderSize + bl)) (\<lambda>bitmap.
             let offset = TupleHeaderSize + bl
             in bind (decode_columns 0 bitmap data offset columns) (\<lambda>values. Ok (header, values))))))"

section \<open>One value\<close>

text \<open>
  A value fits a column when the encoder of the column's type takes it and its length prefix
  does not wrap: every value of the column's own dynamic type does, and a variable-length type
  takes any string or byte slice. \<open>stored_value\<close> is what the disk gives back:
  \<open>decodeVariable\<close> makes a \<open>string\<close> of every variable-length value, so a \<open>[]byte\<close>
  changes its type.
\<close>

definition variable_oid :: "u32 \<Rightarrow> bool" where
  "variable_oid oid \<longleftrightarrow> oid = OidText \<or> oid = OidVarchar \<or> oid = OidChar \<or> oid = OidBytea"

definition value_ok :: "u32 \<Rightarrow> gvalue \<Rightarrow> bool" where
  "value_ok oid v =
     (case v of
        VString s \<Rightarrow> variable_oid oid \<and> length s < 2 ^ 32
      | VBytes b \<Rightarrow> variable_oid oid \<and> length b < 2 ^ 32
      | _ \<Rightarrow> value_has_type oid v)"

fun stored_value :: "gvalue \<Rightarrow> gvalue" where
  "stored_value (VBytes b) = VString (string_of_bytes b)"
| "stored_value v = v"

lemma decodeVariable_encode:
  "length bs < 2 ^ 32 \<Longrightarrow>
     decodeVariable (be_bytes 4 (of_nat (length bs) :: u32) @ bs @ rest) = Ok (VString (string_of_bytes bs), 4 + length bs)"
  by (simp add: decodeVariable_def Let_def unat_of_nat_small in_range)

lemma decodeVariable_encode_string:
  "length s < 2 ^ 32 \<Longrightarrow>
     decodeVariable (be_bytes 4 (of_nat (length s) :: u32) @ bytes_of_string s @ rest) = Ok (VString s, 4 + length s)"
  using decodeVariable_encode [of "bytes_of_string s"] by simp

text \<open>
  The contract of a self-delimiting codec: an encoding can be decoded whatever follows it.
\<close>

locale value_codec =
  fixes enc :: "'t \<Rightarrow> 'v \<Rightarrow> byte list result"
    and dec :: "'t \<Rightarrow> byte list \<Rightarrow> ('v \<times> nat) result"
    and ok :: "'t \<Rightarrow> 'v \<Rightarrow> bool"
    and norm :: "'v \<Rightarrow> 'v"
  assumes enc_dec: "ok t v \<Longrightarrow> \<exists>bs. enc t v = Ok bs \<and> (\<forall>rest. dec t (bs @ rest) = Ok (norm v, length bs))"
begin

text \<open>No encoding is a proper prefix of another, and equal encodings mean equal stored values.\<close>

lemma enc_prefix_free:
  assumes "ok t v" and "ok t w" and "enc t v = Ok a" and "enc t w = Ok b" and "a @ r = b @ s"
  shows "norm v = norm w \<and> a = b \<and> r = s"
proof -
  have "dec t (a @ r) = Ok (norm v, length a)"
    using enc_dec [OF assms(1)] assms(3) by auto
  moreover have "dec t (b @ s) = Ok (norm w, length b)"
    using enc_dec [OF assms(2)] assms(4) by auto
  ultimately have "norm v = norm w" and "length a = length b"
    using assms(5) by simp_all
  with assms(5) show ?thesis by simp
qed

end

definition codec_ok :: "pg_type \<Rightarrow> gvalue \<Rightarrow> bool" where
  "codec_ok t v \<longleftrightarrow> TypeByOID (type_OID t) = Some t \<and> value_ok (type_OID t) v"

lemma take_be_bytes [simp]: "take n (be_bytes n v @ rest) = be_bytes n v"
  by simp

interpretation vc: value_codec "\<lambda>t v. encodeValue v t" "\<lambda>t data. decodeValue data t" codec_ok stored_value
proof (unfold_locales, goal_cases)
  case (1 t v)
  then have t: "TypeByOID (type_OID t) = Some t" and v: "value_ok (type_OID t) v"
    by (simp_all add: codec_ok_def)
  show ?case
    using t v
    by (cases v)
       (auto simp: value_ok_def variable_oid_def value_has_type_def TypeByOID_eq type_defs oid_defs encodeValue_def decodeValue_def
          encodeFixed_def decodeFixed_def encodeVariable_def decodeVariable_encode [simplified]
          decodeVariable_encode_string [simplified] put_at_def in_range Let_def
          split: if_splits)
qed

section \<open>The null bitmap\<close>

text \<open>The bit of a column, inside the bitmap.\<close>

definition null_at :: "byte list \<Rightarrow> nat \<Rightarrow> bool" where
  "null_at bitmap i \<longleftrightarrow> bit (bitmap ! (i div 8)) (i mod 8)"

lemma null_bit_in [in_range]: "i < 8 * length bitmap \<Longrightarrow> null_bit bitmap i = Ok (null_at bitmap i)"
  by (simp add: null_bit_def null_at_def bit_iff_and_push_bit_not_eq_0 go_index_def less_mult_imp_div_less mult.commute)

lemma null_bit_Panic_iff [result_iff]: "null_bit bitmap i = Panic \<longleftrightarrow> 8 * length bitmap \<le> i"
  by (simp add: null_bit_def result_iff less_eq_div_iff_mult_less_eq mult.commute)

lemma null_at_update:
  assumes "i div 8 < length bm" and "j div 8 < length bm"
  shows "null_at (bm[i div 8 := (bm ! (i div 8)) OR push_bit (i mod 8) 1]) j \<longleftrightarrow> null_at bm j \<or> j = i"
proof (cases "j div 8 = i div 8")
  case True
  have "j = i \<longleftrightarrow> j mod 8 = i mod 8"
    using True by (metis div_mult_mod_eq)
  with assms True show ?thesis
    by (auto simp: null_at_def bit_simps)
next
  case False
  with assms show ?thesis by (auto simp: null_at_def)
qed

lemma set_null_bits_in:
  assumes "i + length vs \<le> 8 * length bm"
  shows "\<exists>bm'. set_null_bits i vs bm = Ok bm' \<and> length bm' = length bm \<and>
    (\<forall>j < 8 * length bm. null_at bm' j \<longleftrightarrow> null_at bm j \<or> (i \<le> j \<and> j < i + length vs \<and> vs ! (j - i) = None))"
  using assms
proof (induction vs arbitrary: i bm)
  case (Cons v vs)
  define bm1 where "bm1 = (if v = None then bm[i div 8 := (bm ! (i div 8)) OR push_bit (i mod 8) 1] else bm)"
  have len: "length bm1 = length bm" by (simp add: bm1_def)
  have i: "i div 8 < length bm" using Cons.prems by simp
  have e: "set_null_bits i (v # vs) bm = set_null_bits (Suc i) vs bm1" by (simp add: bm1_def in_range i)
  obtain bm' where s: "set_null_bits (Suc i) vs bm1 = Ok bm'" "length bm' = length bm"
    and r: "\<And>j. j < 8 * length bm \<Longrightarrow>
      null_at bm' j \<longleftrightarrow> null_at bm1 j \<or> (Suc i \<le> j \<and> j < Suc i + length vs \<and> vs ! (j - Suc i) = None)"
    using Cons.IH [of "Suc i" bm1] Cons.prems len by auto
  have n: "null_at bm1 j \<longleftrightarrow> null_at bm j \<or> (j = i \<and> v = None)" if "j < 8 * length bm" for j
    using null_at_update [of i bm j] i that by (auto simp: bm1_def)
  have "null_at bm' j \<longleftrightarrow> null_at bm j \<or> (i \<le> j \<and> j < i + length (v # vs) \<and> (v # vs) ! (j - i) = None)"
    if "j < 8 * length bm" for j
    using r [OF that] n [OF that] by (cases "j = i") (auto simp: nth_Cons' less_Suc_eq_le Suc_le_eq)
  then show ?case using e s by (intro exI [of _ bm']) simp
qed auto

lemma null_at_zero: "j < 8 * n \<Longrightarrow> \<not> null_at (replicate n 0) j"
  by (simp add: null_at_def less_mult_imp_div_less mult.commute)

lemma set_null_bits_length: "set_null_bits i vs bm = Ok bm' \<Longrightarrow> length bm' = length bm"
  by (induction i vs bm rule: set_null_bits.induct) (auto simp: result_iff split: if_splits)

text \<open>The bitmap of a row is large enough, and its bits are the nulls of the row.\<close>

lemma row_bitmap:
  assumes "length vs = length cols"
  obtains bm where "set_null_bits 0 vs (replicate (bitmap_len cols) 0) = Ok bm" and "length bm = bitmap_len cols"
    and "\<And>k. k < length vs \<Longrightarrow> null_bit bm k = Ok (vs ! k = None)"
proof -
  have le: "length cols \<le> 8 * bitmap_len cols" unfolding bitmap_len_def by arith
  from set_null_bits_in [of 0 vs "replicate (bitmap_len cols) 0"] null_at_zero [of _ "bitmap_len cols"] assms le that
  show thesis by (auto simp: in_range)
qed

section \<open>The round trip of a row\<close>

definition row_ok :: "any list \<Rightarrow> column_def list \<Rightarrow> bool" where
  "row_ok vs cols = list_all2 (\<lambda>v c. case v of None \<Rightarrow> True | Some x \<Rightarrow> value_ok (col_TypeOID c) x) vs cols"

definition stored_row :: "any list \<Rightarrow> any list" where
  "stored_row vs = map (map_option stored_value) vs"

lemma value_ok_codec: "value_ok oid x \<Longrightarrow> \<exists>t. TypeByOID oid = Some t \<and> codec_ok t x"
  by (cases x) (auto simp: value_ok_def variable_oid_def value_has_type_def codec_ok_def TypeByOID_eq type_defs oid_defs)

lemma columns_roundtrip:
  assumes "row_ok vs cols" and "\<forall>k < length vs. null_bit bm (i + k) = Ok (vs ! k = None)"
  shows "\<exists>body. (\<forall>buf. encode_columns vs cols buf = Ok (buf @ body)) \<and>
    (\<forall>buf rest. decode_columns i bm (buf @ body @ rest) (length buf) cols = Ok (stored_row vs))"
  using assms
proof (induction vs cols arbitrary: i rule: list_induct2')
  case (4 v vs c cols)
  have ok: "row_ok vs cols" using 4(2) by (simp add: row_ok_def)
  have bits: "\<forall>k < length vs. null_bit bm (Suc i + k) = Ok (vs ! k = None)"
    using 4(3) by (metis Suc_less_eq add_Suc_shift length_Cons nth_Cons_Suc)
  obtain body where enc: "\<And>buf. encode_columns vs cols buf = Ok (buf @ body)"
    and dec: "\<And>buf rest. decode_columns (Suc i) bm (buf @ body @ rest) (length buf) cols = Ok (stored_row vs)"
    using 4(1) [OF ok bits] by blast
  have bit: "null_bit bm i = Ok (v = None)" using 4(3) by force
  show ?case
  proof (cases v)
    case None
    with enc dec bit show ?thesis by (intro exI [of _ body]) (simp add: stored_row_def)
  next
    case (Some x)
    then obtain t where t: "TypeByOID (col_TypeOID c) = Some t" and "codec_ok t x"
      using 4(2) value_ok_codec by (auto simp: row_ok_def)
    then obtain bs where e: "encodeValue x t = Ok bs"
      and d: "\<And>rest. decodeValue (bs @ rest) t = Ok (stored_value x, length bs)"
      using vc.enc_dec by metis
    have "decode_columns (Suc i) bm (buf @ (bs @ body) @ rest) (length buf + length bs) cols = Ok (stored_row vs)" for buf rest
      using dec [of "buf @ bs" rest] by simp
    with Some t e d enc bit show ?thesis
      by (intro exI [of _ "bs @ body"]) (simp add: stored_row_def in_range)
  qed
qed (simp_all add: row_ok_def stored_row_def)

lemma encode_columns_body: "row_ok vs cols \<Longrightarrow> \<exists>body. \<forall>buf. encode_columns vs cols buf = Ok (buf @ body)"
proof (induction vs cols rule: list_induct2')
  case (4 v vs c cols)
  then obtain body where b: "\<And>buf. encode_columns vs cols buf = Ok (buf @ body)" by (auto simp: row_ok_def)
  show ?case
  proof (cases v)
    case (Some x)
    then obtain t bs where "TypeByOID (col_TypeOID c) = Some t" "encodeValue x t = Ok bs"
      using 4(2) value_ok_codec vc.enc_dec by (fastforce simp: row_ok_def)
    then show ?thesis using Some b by auto
  qed (use b in auto)
qed (simp_all add: row_ok_def)

lemma EncodeTuple_DecodeTuple:
  assumes "row_ok vs cols"
  shows "\<exists>bs. EncodeTuple h vs cols = Ok bs \<and> DecodeTuple bs cols = Ok (h, stored_row vs) \<and>
    TupleHeaderSize \<le> length bs \<and> take TupleHeaderSize bs = header_bytes h"
proof -
  have len: "length vs = length cols" using assms by (simp add: row_ok_def list_all2_lengthD)
  obtain bm where bm: "set_null_bits 0 vs (replicate (bitmap_len cols) 0) = Ok bm" "length bm = bitmap_len cols"
    and "\<And>k. k < length vs \<Longrightarrow> null_bit bm k = Ok (vs ! k = None)"
    using row_bitmap [OF len] by blast
  then obtain body where enc: "\<And>buf. encode_columns vs cols buf = Ok (buf @ body)"
    and dec: "\<And>buf rest. decode_columns 0 bm (buf @ body @ rest) (length buf) cols = Ok (stored_row vs)"
    using columns_roundtrip [OF assms, of bm 0] by auto
  let ?bs = "header_bytes h @ bm @ body"
  have lh: "length (header_bytes h) = 16" by (simp add: header_bytes_def)
  have "DecodeTuple ?bs cols = Ok (h, stored_row vs)"
    using dec [of "header_bytes h @ bm" "[]"] lh bm(2)
    by (simp add: DecodeTuple_def Let_def in_range) (simp add: header_bytes_def)
  moreover have "EncodeTuple h vs cols = Ok ?bs"
    using len enc bm(1) by (simp add: EncodeTuple_def)
  ultimately show ?thesis using lh by simp
qed

section \<open>Overwriting the header\<close>

text \<open>
  \<open>UpdateTupleHeader\<close> rewrites the first sixteen bytes of a stored tuple. Decoding then gives
  the new header and the same values: no column looks at those bytes.
\<close>

definition set_header :: "tuple_header \<Rightarrow> byte list \<Rightarrow> byte list" where
  "set_header h bs = put_at 0 (header_bytes h) bs"

lemma length_header_bytes [simp]: "length (header_bytes h) = 16"
  by (simp add: header_bytes_def)

lemma length_set_header [simp]: "16 \<le> length bs \<Longrightarrow> length (set_header h bs) = length bs"
  by (simp add: set_header_def)

lemma drop_set_header [simp]: "16 \<le> length bs \<Longrightarrow> drop 16 (set_header h bs) = drop 16 bs"
  by (simp add: set_header_def put_at_def)

lemma decode_columns_tail:
  assumes "drop k data = drop k data'" and "length data = length data'" and "k \<le> off"
  shows "decode_columns i bm data off cols = decode_columns i bm data' off cols"
  using assms
proof (induction cols arbitrary: i off)
  case (Cons c cols)
  have d: "drop off data = drop off data'"
    using Cons.prems(1,3) by (metis drop_drop le_add_diff_inverse2)
  have "decode_columns (Suc i) bm data (off + n) cols = decode_columns (Suc i) bm data' (off + n) cols" for n
    using Cons by simp
  moreover have "go_from data off = go_from data' off" using d Cons.prems(2) by (simp add: go_from_def)
  moreover have "decode_columns (Suc i) bm data off cols = decode_columns (Suc i) bm data' off cols"
    using Cons by simp
  ultimately show ?case by (cases "null_bit bm i") (simp_all split: option.split)
qed simp

lemma DecodeTuple_set_header:
  assumes "DecodeTuple bs cols = Ok (h, vs)"
  shows "DecodeTuple (set_header h' bs) cols = Ok (h', vs)"
proof -
  have l: "16 + bitmap_len cols \<le> length bs"
    using assms by (auto simp: DecodeTuple_def Let_def result_iff split: if_splits)
  have "take 8 (set_header h' bs) = be_bytes 8 (Xmin h')" "take 8 (drop 8 (set_header h' bs)) = be_bytes 8 (Xmax h')"
    by (simp_all add: set_header_def put_at_def header_bytes_def)
  moreover have "decode_columns 0 bm (set_header h' bs) (16 + bitmap_len cols) cols
      = decode_columns 0 bm bs (16 + bitmap_len cols) cols" for bm
    using l by (intro decode_columns_tail [where k = 16]) auto
  ultimately show ?thesis
    using assms l by (auto simp: DecodeTuple_def Let_def result_iff in_range)
qed

section \<open>What decoding returns\<close>

text \<open>Decoded values fit their columns, and are stored values already.\<close>

lemma TypeByOID_cases:
  assumes "TypeByOID oid = Some t"
  obtains (bool) "oid = OidBool" "type_OID t = OidBool" "type_Size t = 1"
    | (int2) "oid = OidInt2" "type_OID t = OidInt2" "type_Size t = 2"
    | (int4) "oid = OidInt4" "type_OID t = OidInt4" "type_Size t = 4"
    | (int8) "oid = OidInt8" "type_OID t = OidInt8" "type_Size t = 8"
    | (float4) "oid = OidFloat4" "type_OID t = OidFloat4" "type_Size t = 4"
    | (float8) "oid = OidFloat8" "type_OID t = OidFloat8" "type_Size t = 8"
    | (oid) "oid = OidOid" "type_OID t = OidOid" "type_Size t = 4"
    | (variable) "variable_oid oid" "type_OID t = oid" "type_Size t = - 1"
  using assms by (auto simp: TypeByOID_eq type_defs variable_oid_def split: if_splits)

lemma encodeValue_ok:
  assumes "TypeByOID oid = Some t" and "encodeValue x t = Ok bs" and "length bs < 2 ^ 32"
  shows "value_ok oid x"
  using assms(1)
proof (cases rule: TypeByOID_cases)
  case variable
  with assms(2,3) show ?thesis
    by (cases x) (auto simp: encodeValue_def encodeVariable_def value_ok_def)
qed (use assms(2,3) in \<open>cases x; simp add: encodeValue_def encodeFixed_def Let_def value_ok_def value_has_type_def oid_defs\<close>)+

lemma decodeValue_ok:
  assumes "TypeByOID oid = Some t" and "decodeValue data t = Ok (x, n)"
  shows "value_ok oid x \<and> stored_value x = x \<and> n \<le> length data"
  using assms(1)
proof (cases rule: TypeByOID_cases)
  case variable
  have u: "unat (be_word (take 4 data) :: u32) < 2 ^ 32"
    using unsigned_less [where ?'a = nat, of "be_word (take 4 data) :: u32"] by simp
  with variable assms(2) show ?thesis
    by (auto simp: decodeValue_def decodeVariable_def Let_def value_ok_def result_iff split: if_splits)
qed (use assms(2) in \<open>auto simp: decodeValue_def decodeFixed_def Let_def value_ok_def value_has_type_def oid_defs result_iff Suc_le_eq split: if_splits\<close>)

lemma decode_columns_ok:
  "decode_columns i bm data off cols = Ok vs \<Longrightarrow> row_ok vs cols \<and> stored_row vs = vs"
proof (induction cols arbitrary: i off vs)
  case (Cons c cols)
  then obtain b where b: "null_bit bm i = Ok b" by (auto simp: result_iff)
  show ?case
  proof (cases b)
    case True
    with Cons b show ?thesis by (auto simp: result_iff row_ok_def stored_row_def)
  next
    case False
    then obtain t x n vs' where t: "TypeByOID (col_TypeOID c) = Some t"
      and d: "decodeValue (drop off data) t = Ok (x, n)"
      and r: "decode_columns (Suc i) bm data (off + n) cols = Ok vs'" and vs: "vs = Some x # vs'"
      using Cons.prems b by (auto simp: result_iff split: option.splits if_splits)
    show ?thesis
      using Cons.IH [OF r] decodeValue_ok [OF t d] by (simp add: vs row_ok_def stored_row_def)
  qed
qed (simp add: row_ok_def stored_row_def)

lemma DecodeTuple_ok:
  assumes "DecodeTuple bs cols = Ok (h, vs)"
  shows "row_ok vs cols" and "stored_row vs = vs" and "16 \<le> length bs"
  using assms decode_columns_ok by (auto simp: DecodeTuple_def Let_def result_iff split: if_splits)

section \<open>What the encoder accepts\<close>

text \<open>
  The encoder accepts a row exactly when every value fits its column, provided that the bytes it
  makes are fewer than \<open>2 ^ 32\<close>, so that no length prefix wraps. \<open>tuple_fits\<close> is the case that
  matters for storage: the encoding is small enough for a page.
\<close>

lemma encode_columns_row_ok:
  "encode_columns vs cols buf = Ok d \<Longrightarrow> length d < 2 ^ 32 \<Longrightarrow> length vs = length cols \<Longrightarrow>
     row_ok vs cols \<and> length buf \<le> length d"
proof (induction vs cols buf rule: encode_columns.induct)
  case (3 v vs col cols buf)
  show ?case
  proof (cases v)
    case None
    then show ?thesis using 3 by (simp add: row_ok_def)
  next
    case (Some x)
    obtain t bs where t: "TypeByOID (col_TypeOID col) = Some t" "encodeValue x t = Ok bs"
      and e: "encode_columns vs cols (buf @ bs) = Ok d"
      using 3(3) Some by (auto simp: result_iff split: option.splits)
    then have "row_ok vs cols" "length (buf @ bs) \<le> length d"
      using 3(2) [OF Some t(1,2)] 3(4,5) by simp_all
    moreover from this have "value_ok (col_TypeOID col) x"
      using encodeValue_ok [OF t] 3(4) by simp
    ultimately show ?thesis using Some by (simp add: row_ok_def)
  qed
qed (auto simp: row_ok_def)

definition tuple_fits :: "any list \<Rightarrow> column_def list \<Rightarrow> bool" where
  "tuple_fits vs cols =
     (case EncodeTuple \<lparr>Xmin = 0, Xmax = 0\<rparr> vs cols of Ok d \<Rightarrow> length d + 4 \<le> 8184 | _ \<Rightarrow> False)"

lemma tuple_fits_ok:
  assumes "tuple_fits vs cols"
  shows "row_ok vs cols" and
    "\<exists>d. EncodeTuple h vs cols = Ok d \<and> DecodeTuple d cols = Ok (h, stored_row vs) \<and> length d + 4 \<le> 8184"
proof -
  obtain d where d: "EncodeTuple \<lparr>Xmin = 0, Xmax = 0\<rparr> vs cols = Ok d" "length d + 4 \<le> 8184"
    using assms by (auto simp: tuple_fits_def split: result.splits)
  then show r: "row_ok vs cols"
    using encode_columns_row_ok by (fastforce simp: EncodeTuple_def result_iff split: if_splits)
  obtain body where b: "\<And>buf. encode_columns vs cols buf = Ok (buf @ body)"
    using encode_columns_body [OF r] by blast
  obtain d' where d': "EncodeTuple h vs cols = Ok d'" "DecodeTuple d' cols = Ok (h, stored_row vs)"
    using EncodeTuple_DecodeTuple [OF r] by blast
  have "length d' = length d"
    using d(1) d'(1) by (auto simp: EncodeTuple_def b result_iff split: if_splits)
  with d' d(2) show "\<exists>d. EncodeTuple h vs cols = Ok d \<and> DecodeTuple d cols = Ok (h, stored_row vs) \<and> length d + 4 \<le> 8184"
    by auto
qed

section \<open>No panic\<close>

text \<open>
  Every index and slice of the codec is in range: the sizes of the registry are the numbers of bytes
  that the fixed types read and write, the guards of the decoder cover its slices, and the bitmap
  has a bit for every column.
\<close>

lemma decodeValue_no_panic: "TypeByOID oid = Some t \<Longrightarrow> decodeValue data t \<noteq> Panic"
  by (erule TypeByOID_cases)
     (auto simp: decodeValue_def decodeFixed_def decodeVariable_def Let_def bind_Panic_iff result_iff oid_defs)

lemma encodeValue_no_panic: "TypeByOID oid = Some t \<Longrightarrow> encodeValue v t \<noteq> Panic"
  by (erule TypeByOID_cases)
     (auto simp: encodeValue_def encodeFixed_def encodeVariable_def Let_def bind_Panic_iff result_iff oid_defs split: gvalue.splits)

lemma decode_columns_no_panic:
  "off \<le> length data \<Longrightarrow> i + length cs \<le> 8 * length bm \<Longrightarrow> decode_columns i bm data off cs \<noteq> Panic"
proof (induction cs arbitrary: i off)
  case (Cons c cs)
  have "off + n \<le> length data" if "TypeByOID (col_TypeOID c) = Some t" "decodeValue (drop off data) t = Ok (x, n)" for t x n
    using decodeValue_ok [OF that] Cons.prems by auto
  then show ?case
    using Cons decodeValue_no_panic [of "col_TypeOID c"] by (auto simp: bind_Panic_iff in_range split: option.splits)
qed simp

lemma DecodeTuple_no_panic: "DecodeTuple data cols \<noteq> Panic"
proof -
  have "length cols \<le> 8 * bitmap_len cols" unfolding bitmap_len_def by arith
  then show ?thesis
    using decode_columns_no_panic [of "16 + bitmap_len cols" data 0 cols]
    by (auto simp: DecodeTuple_def Let_def bind_Panic_iff result_iff)
qed

lemma encode_columns_sound:
  "length vs = length cols \<Longrightarrow>
     encode_columns vs cols buf \<noteq> Panic \<and> (\<forall>bs. encode_columns vs cols buf = Ok bs \<longrightarrow> length buf \<le> length bs)"
proof (induction vs cols buf rule: encode_columns.induct)
  case (3 v vs col cols buf)
  then show ?case
    using encodeValue_no_panic by (fastforce simp: result_iff split: option.splits)
qed auto

lemma EncodeTuple_no_panic: "EncodeTuple h vs cols \<noteq> Panic"
proof (cases "length vs = length cols")
  case True
  then obtain bm where "set_null_bits 0 vs (replicate (bitmap_len cols) 0) = Ok bm" by (rule row_bitmap)
  then show ?thesis using encode_columns_sound [OF True] by (simp add: EncodeTuple_def)
qed (simp add: EncodeTuple_def)

lemma EncodeTuple_length: "EncodeTuple h vs cols = Ok bs \<Longrightarrow> 16 \<le> length bs"
  using encode_columns_sound [of vs cols] by (fastforce simp: EncodeTuple_def header_bytes_def result_iff split: if_splits)

section \<open>Properties\<close>

text \<open>C10. A row whose values fit their columns is encoded, the bytes decode to the same header and the stored values (a \<open>[]byte\<close> comes back as a string, every other value unchanged), and overwriting the header in place changes nothing else.\<close>

theorem tuple_roundtrip:
  assumes "row_ok vs cols"
  shows "\<exists>bs. EncodeTuple h vs cols = Ok bs \<and> DecodeTuple bs cols = Ok (h, stored_row vs) \<and>
    DecodeTuple (set_header h' bs) cols = Ok (h', stored_row vs)"
  using EncodeTuple_DecodeTuple [OF assms, of h] DecodeTuple_set_header by blast

definition sample_columns :: "column_def list" where
  "sample_columns =
     [\<lparr>col_Name = ''a'', col_TypeOID = 21, col_TypeMod = - 1, col_NotNull = False, col_HasDefault = False, col_Default = []\<rparr>,
      \<lparr>col_Name = ''b'', col_TypeOID = 25, col_TypeMod = - 1, col_NotNull = False, col_HasDefault = False, col_Default = []\<rparr>]"

theorem tuple_roundtrip_witness:
  "\<exists>bs. EncodeTuple \<lparr>Xmin = 3, Xmax = 0\<rparr> [None, Some (VString ''xy'')] sample_columns = Ok bs \<and>
     DecodeTuple (set_header \<lparr>Xmin = 3, Xmax = 9\<rparr> bs) sample_columns = Ok (\<lparr>Xmin = 3, Xmax = 9\<rparr>, [None, Some (VString ''xy'')])"
proof -
  have "row_ok [None, Some (VString ''xy'')] sample_columns"
    by (simp add: row_ok_def sample_columns_def value_ok_def variable_oid_def oid_defs)
  from tuple_roundtrip [OF this, of "\<lparr>Xmin = 3, Xmax = 0\<rparr>" "\<lparr>Xmin = 3, Xmax = 9\<rparr>"] show ?thesis
    by (auto simp: stored_row_def)
qed

text \<open>C24. The tuple codec never panics. Every byte, slice and 16-, 32- or 64-bit access of \<open>DecodeTuple\<close>, and every one of the null bitmap, has a panic branch where Go checks the bounds; whatever bytes it is given, a damaged tuple gives a row or an \<open>error\<close>. Nor does \<open>EncodeTuple\<close> panic, whatever the values and columns, in the null bitmap or in the buffers of the fixed-size types.\<close>

theorem decode_tuple_no_panic: "DecodeTuple data cols \<noteq> Panic \<and> EncodeTuple header values cols \<noteq> Panic"
  using DecodeTuple_no_panic EncodeTuple_no_panic by blast

text \<open>\<open>EncodeTuple\<close> accepts a row only when it can be read back: whatever it encodes in fewer than \<open>2 ^ 32\<close> bytes fits the columns, and the bytes decode to the header and the stored values.\<close>

lemma encode_tuple_sound:
  assumes "EncodeTuple h vs cols = Ok bs" and "length bs < 2 ^ 32"
  shows "row_ok vs cols \<and> DecodeTuple bs cols = Ok (h, stored_row vs)"
proof -
  have r: "row_ok vs cols"
    using assms encode_columns_row_ok by (fastforce simp: EncodeTuple_def result_iff split: if_splits)
  then show ?thesis using EncodeTuple_DecodeTuple [OF r, of h] assms(1) by auto
qed

end
