(* ===== verification/HeapFile.thy ===== *)
theory HeapFile
  imports Page Tuple
begin

text \<open>
  The heap file of \<open>internal/storage/heap.go\<close>: a file is its bytes, pages are read and
  written at multiples of the page size, a tuple goes to the last page or to a new one. The only
  failure of the operating system that is modelled is a short read; the others (a full disk, a
  missing permission) are outside the model. The specification is a list of pages, each a list
  of tuples; \<open>InsertTuple\<close> and \<open>UpdateTupleHeader\<close> refine it.
\<close>

section \<open>Operations\<close>

type_synonym heap_bytes = "byte list"

definition PageCount :: "heap_bytes \<Rightarrow> u32" where
  "PageCount f = of_nat (length f div PageSize)"

definition ReadPage :: "u32 \<Rightarrow> heap_bytes \<Rightarrow> page result" where
  "ReadPage pageNum f =
     (let offset = unat pageNum * PageSize
      in if offset + PageSize \<le> length f then Ok (take PageSize (drop offset f))
         else Err (ErrReadPage pageNum))"

text \<open>\<open>WriteAt\<close> past the end of the file fills the gap with zeros.\<close>

definition WritePage :: "u32 \<Rightarrow> page \<Rightarrow> heap_bytes \<Rightarrow> heap_bytes" where
  "WritePage pageNum p f =
     (let offset = unat pageNum * PageSize
      in put_at offset p (f @ replicate (offset - length f) 0))"

definition allocate_page :: "byte list \<Rightarrow> heap_bytes \<Rightarrow> (u32 \<times> u16) result \<times> heap_bytes" where
  "allocate_page data f =
     (let pageCount = PageCount f
      in case AddTuple data (InitPage (replicate PageSize 0)) of
           Ok (newPage, itemIndex) \<Rightarrow> (Ok (pageCount, itemIndex), WritePage pageCount newPage f)
         | Err e \<Rightarrow> (Err (ErrNewPage e), f)
         | Panic \<Rightarrow> (Panic, f))"

definition InsertTuple :: "byte list \<Rightarrow> heap_bytes \<Rightarrow> (u32 \<times> u16) result \<times> heap_bytes" where
  "InsertTuple data f =
     (if length data + ItemPointerSize > PageSize - PageHeaderSize
      then (Err (ErrTupleTooLarge (length data)), f)
      else if PageCount f > 0 then
        let lastPageNum = PageCount f - 1
        in case ReadPage lastPageNum f of
             Err e \<Rightarrow> (Err e, f)
           | Panic \<Rightarrow> (Panic, f)
           | Ok page \<Rightarrow>
               (case AddTuple data page of
                  Ok (page', itemIndex) \<Rightarrow> (Ok (lastPageNum, itemIndex), WritePage lastPageNum page' f)
                | Err _ \<Rightarrow> allocate_page data f
                | Panic \<Rightarrow> (Panic, f))
      else allocate_page data f)"

definition put_u64 :: "u16 \<Rightarrow> u64 \<Rightarrow> page \<Rightarrow> page result" where
  "put_u64 off v p =
     (if unat off + 8 \<le> length p then Ok (put_at (unat off) (be_bytes 8 v) p) else Panic)"

definition UpdateTupleHeader :: "u32 \<Rightarrow> u16 \<Rightarrow> tuple_header \<Rightarrow> heap_bytes \<Rightarrow> unit result \<times> heap_bytes" where
  "UpdateTupleHeader pageNum itemIdx header f =
     (case ReadPage pageNum f of
        Err e \<Rightarrow> (Err e, f)
      | Panic \<Rightarrow> (Panic, f)
      | Ok page \<Rightarrow>
          if itemIdx \<ge> GetItemCount page then (Err (ErrUpdateRange itemIdx), f)
          else
            let pointerOffset = of_nat PageHeaderSize + itemIdx * of_nat ItemPointerSize
            in case bind (get_u16 pointerOffset page) (\<lambda>tupleOffset.
                    bind (put_u64 tupleOffset (Xmin header) page) (\<lambda>p1.
                    put_u64 (tupleOffset + 8) (Xmax header) p1)) of
                 Ok p2 \<Rightarrow> (Ok (), WritePage pageNum p2 f)
               | Err e \<Rightarrow> (Err e, f)
               | Panic \<Rightarrow> (Panic, f))"

section \<open>The file of a list of pages\<close>

definition heap_rep :: "heap_bytes \<Rightarrow> byte list list list \<Rightarrow> bool" where
  "heap_rep f pgs \<longleftrightarrow> list_all fits pgs \<and> f = concat (map mk_page pgs) \<and> length pgs < 2 ^ 32"

definition heap_insert :: "byte list \<Rightarrow> byte list list list \<Rightarrow> byte list list list" where
  "heap_insert d pgs =
     (if pgs \<noteq> [] \<and> fits (last pgs @ [d]) then butlast pgs @ [last pgs @ [d]] else pgs @ [[d]])"

lemma concat_heap_insert [simp]: "concat (heap_insert d pgs) = concat pgs @ [d]"
proof (cases "pgs = []")
  case False
  then have "concat pgs = concat (butlast pgs) @ last pgs"
    by (metis append_butlast_last_id append_Nil2 concat.simps concat_append)
  then show ?thesis by (simp add: heap_insert_def)
qed (simp add: heap_insert_def)

lemma heap_rep_blocks: "heap_rep f pgs \<Longrightarrow> p \<in> set (map mk_page pgs) \<Longrightarrow> length p = PageSize"
  by (auto simp: heap_rep_def list_all_iff)

lemma heap_rep_length: "heap_rep f pgs \<Longrightarrow> length f = length pgs * PageSize"
  using length_concat_blocks [of "map mk_page pgs" PageSize] heap_rep_blocks [of f pgs]
  by (auto simp: heap_rep_def)

lemma PageCount_rep: "heap_rep f pgs \<Longrightarrow> PageCount f = of_nat (length pgs)"
  using heap_rep_length [of f pgs] by (simp add: PageCount_def)

lemma unat_PageCount_rep: "heap_rep f pgs \<Longrightarrow> unat (PageCount f) = length pgs"
  by (simp add: PageCount_rep) (simp add: unat_of_nat_small heap_rep_def)

lemma ReadPage_rep:
  assumes "heap_rep f pgs" and "i < length pgs"
  shows "ReadPage (of_nat i) f = Ok (mk_page (pgs ! i))"
proof -
  have u: "unat (of_nat i :: u32) = i"
    using assms by (intro unat_of_nat_small) (simp add: heap_rep_def)
  have "take PageSize (drop (i * PageSize) (concat (map mk_page pgs))) = map mk_page pgs ! i"
    using assms heap_rep_blocks [OF assms(1)] by (intro concat_blocks_nth) auto
  then have "take PageSize (drop (i * PageSize) f) = mk_page (pgs ! i)"
    using assms by (simp add: heap_rep_def)
  moreover have "i * PageSize + PageSize \<le> length f"
    using assms(2) heap_rep_length [OF assms(1)] by simp
  ultimately show ?thesis by (simp add: ReadPage_def Let_def u)
qed

lemma ReadPage_beyond:
  assumes "heap_rep f pgs" and "length pgs \<le> unat n"
  shows "ReadPage n f = Err (ErrReadPage n)"
  using assms heap_rep_length [OF assms(1)] by (simp add: ReadPage_def Let_def)

lemma WritePage_rep:
  assumes "heap_rep f pgs" and "i < length pgs" and "fits ts"
  shows "heap_rep (WritePage (of_nat i) (mk_page ts) f) (pgs[i := ts])"
proof -
  have u: "unat (of_nat i :: u32) = i"
    using assms by (intro unat_of_nat_small) (simp add: heap_rep_def)
  have "i * PageSize \<le> length f"
    using assms(2) heap_rep_length [OF assms(1)] by simp
  then have "WritePage (of_nat i) (mk_page ts) f = put_at (i * PageSize) (mk_page ts) (concat (map mk_page pgs))"
    using assms(1) by (simp add: WritePage_def Let_def u heap_rep_def)
  also have "\<dots> = concat ((map mk_page pgs)[i := mk_page ts])"
    using assms heap_rep_blocks [OF assms(1)] by (intro put_at_concat_blocks) auto
  finally show ?thesis
    using assms by (auto simp: heap_rep_def map_update list_all_iff dest!: set_update_subset_insert [THEN subsetD])
qed

lemma WritePage_append:
  assumes "heap_rep f pgs" and "Suc (length pgs) < 2 ^ 32" and "fits ts"
  shows "heap_rep (WritePage (PageCount f) (mk_page ts) f) (pgs @ [ts])"
proof -
  have "unat (PageCount f) * PageSize = length f"
    using unat_PageCount_rep [OF assms(1)] heap_rep_length [OF assms(1)] by simp
  then have "WritePage (PageCount f) (mk_page ts) f = f @ mk_page ts"
    by (simp add: WritePage_def Let_def put_at_def)
  then show ?thesis using assms by (simp add: heap_rep_def)
qed

section \<open>Insertion and header update refine the list of pages\<close>

lemma fits_single: "length d + 4 \<le> 8184 \<Longrightarrow> fits [d]"
  by (simp add: fits_def)

lemma allocate_page_rep:
  assumes "heap_rep f pgs" and "length d + 4 \<le> 8184" and "Suc (length pgs) < 2 ^ 32"
  shows "\<exists>f'. allocate_page d f = (Ok (of_nat (length pgs), 0), f') \<and> heap_rep f' (pgs @ [[d]])"
proof -
  have "AddTuple d (InitPage (replicate PageSize 0)) = Ok (mk_page [d], 0)"
    using AddTuple_mk_page [of "[]" d] fits_single [OF assms(2)] by (simp only: InitPage_mk_page length_replicate) simp
  then have "allocate_page d f = (Ok (of_nat (length pgs), 0), WritePage (PageCount f) (mk_page [d]) f)"
    using PageCount_rep [OF assms(1)] by (simp add: allocate_page_def Let_def)
  moreover have "heap_rep (WritePage (PageCount f) (mk_page [d]) f) (pgs @ [[d]])"
    using WritePage_append [OF assms(1,3) fits_single [OF assms(2)]] .
  ultimately show ?thesis by blast
qed

definition tuple_at :: "byte list list list \<Rightarrow> u32 \<times> u16 \<Rightarrow> byte list option" where
  "tuple_at pgs loc =
     (if unat (fst loc) < length pgs \<and> unat (snd loc) < length (pgs ! unat (fst loc))
      then Some (pgs ! unat (fst loc) ! unat (snd loc)) else None)"

lemma InsertTuple_new_page:
  assumes "heap_rep f pgs" and "length d + 4 \<le> 8184" and "Suc (length pgs) < 2 ^ 32"
    and "InsertTuple d f = allocate_page d f" and "heap_insert d pgs = pgs @ [[d]]"
  shows "\<exists>loc f'. InsertTuple d f = (Ok loc, f') \<and> heap_rep f' (heap_insert d pgs) \<and>
    tuple_at (heap_insert d pgs) loc = Some d"
proof -
  have "unat (of_nat (length pgs) :: u32) = length pgs"
    using assms(3) by (intro unat_of_nat_small) simp
  then have "tuple_at (pgs @ [[d]]) (of_nat (length pgs), 0) = Some d"
    by (simp add: tuple_at_def)
  then show ?thesis
    using allocate_page_rep [OF assms(1-3)] unfolding assms(4,5) by blast
qed

lemma InsertTuple_rep:
  assumes "heap_rep f pgs" and "length d + 4 \<le> 8184" and "Suc (length pgs) < 2 ^ 32"
  shows "\<exists>loc f'. InsertTuple d f = (Ok loc, f') \<and> heap_rep f' (heap_insert d pgs) \<and>
    tuple_at (heap_insert d pgs) loc = Some d"
proof (cases "pgs = []")
  case True
  then have "InsertTuple d f = allocate_page d f"
    using assms(2) PageCount_rep [OF assms(1)] by (simp add: InsertTuple_def)
  then show ?thesis
    using InsertTuple_new_page [OF assms] True by (simp add: heap_insert_def)
next
  case False
  let ?k = "length pgs - 1"
  have k: "?k < length pgs" and last: "pgs ! ?k = last pgs" using False by (simp_all add: last_conv_nth)
  have pos: "PageCount f > 0"
    using False unat_PageCount_rep [OF assms(1)] by (simp add: word_less_nat_alt)
  have pc: "PageCount f - 1 = of_nat ?k"
    using False PageCount_rep [OF assms(1)] by (simp add: Suc_le_eq)
  have rd: "ReadPage (PageCount f - 1) f = Ok (mk_page (last pgs))"
    using ReadPage_rep [OF assms(1) k] by (simp only: pc last)
  have fl: "fits (last pgs)" using assms(1) False by (simp add: heap_rep_def list_all_iff)
  show ?thesis
  proof (cases "fits (last pgs @ [d])")
    case True
    let ?t = "last pgs @ [d]"
    have "InsertTuple d f = (Ok (of_nat ?k, of_nat (length (last pgs))), WritePage (of_nat ?k) (mk_page ?t) f)"
      using assms(2) pos rd AddTuple_mk_page [OF True] unfolding pc [symmetric] by (simp add: InsertTuple_def Let_def)
    moreover have up: "heap_insert d pgs = pgs[?k := ?t]"
      using True False by (simp add: heap_insert_def butlast_append_last)
    moreover have "unat (of_nat ?k :: u32) = ?k"
      using assms(3) by (intro unat_of_nat_small) simp
    moreover have "unat (of_nat (length (last pgs)) :: u16) = length (last pgs)"
      using fits_length [OF fl] by (intro unat_of_nat_small) simp
    ultimately show ?thesis
      using WritePage_rep [OF assms(1) k True] k by (simp add: tuple_at_def)
  next
    case full: False
    have "InsertTuple d f = allocate_page d f"
      using assms(2) pos rd AddTuple_full [OF fl full] by (simp add: InsertTuple_def Let_def)
    then show ?thesis
      using InsertTuple_new_page [OF assms] full by (simp add: heap_insert_def)
  qed
qed

lemma InsertTuple_too_large:
  "8184 < length d + 4 \<Longrightarrow> InsertTuple d f = (Err (ErrTupleTooLarge (length d)), f)"
  by (simp add: InsertTuple_def)

definition heap_update :: "nat \<Rightarrow> nat \<Rightarrow> tuple_header \<Rightarrow> byte list list list \<Rightarrow> byte list list list" where
  "heap_update i j h pgs = pgs[i := (pgs ! i)[j := set_header h (pgs ! i ! j)]]"

lemma put_header_page:
  assumes "fits ts" and "j < length ts" and "16 \<le> length (ts ! j)"
  shows "bind (put_u64 (of_nat (item_offset ts j)) x (mk_page ts)) (\<lambda>p1. put_u64 (of_nat (item_offset ts j) + 8) y p1)
    = Ok (mk_page (ts[j := put_at 0 (be_bytes 8 x @ be_bytes 8 y) (ts ! j)]))"
proof -
  let ?o = "item_offset ts j" and ?t = "put_at 0 (be_bytes 8 x) (ts ! j)"
  have b: "?o + length (ts ! j) \<le> 8192" using item_offset_bounds(2) [OF assms(1,2)] by simp
  have u: "unat (of_nat ?o :: u16) = ?o" "unat (of_nat ?o + 8 :: u16) = ?o + 8"
    using b assms(3) unat_of_nat_small [where ?'a = 16, of ?o] unat_of_nat_small [where ?'a = 16, of "?o + 8"]
    by simp_all
  have p1: "put_at ?o (be_bytes 8 x) (mk_page ts) = mk_page (ts[j := ?t])"
    using mk_page_overwrite [OF assms(1,2), of 0 "be_bytes 8 x"] assms(3) by simp
  have f1: "fits (ts[j := ?t])" using assms by (simp add: fits_update)
  have "item_offset (ts[j := ?t]) j = ?o"
    using assms by (simp add: item_offset_def used_take_Suc)
  then have p2: "put_at (?o + 8) (be_bytes 8 y) (mk_page (ts[j := ?t])) = mk_page (ts[j := put_at 8 (be_bytes 8 y) ?t])"
    using mk_page_overwrite [OF f1, of j 8 "be_bytes 8 y"] assms by simp
  have "put_at 8 (be_bytes 8 y) ?t = put_at 0 (be_bytes 8 x @ be_bytes 8 y) (ts ! j)"
    by (simp add: put_at_def)
  then show ?thesis
    using assms b p1 p2 f1 by (simp add: put_u64_def u)
qed

lemma UpdateTupleHeader_rep:
  assumes "heap_rep f pgs" and "i < length pgs" and "j < length (pgs ! i)" and "16 \<le> length (pgs ! i ! j)"
  shows "\<exists>f'. UpdateTupleHeader (of_nat i) (of_nat j) h f = (Ok (), f') \<and> heap_rep f' (heap_update i j h pgs)"
proof -
  let ?ts = "pgs ! i"
  have ft: "fits ?ts" using assms(1,2) by (simp add: heap_rep_def list_all_iff)
  have idx: "\<not> of_nat j \<ge> GetItemCount (mk_page ?ts)"
    using sp.index_exact [of "mk_page ?ts" ?ts j] unat_count_mk_page [OF ft] assms(3) ft
    by (simp only: word_le_nat_alt page_rep_def)
  have "bind (get_u16 (of_nat PageHeaderSize + of_nat j * of_nat ItemPointerSize) (mk_page ?ts)) (\<lambda>o'.
          bind (put_u64 o' (Xmin h) (mk_page ?ts)) (\<lambda>p1. put_u64 (o' + 8) (Xmax h) p1))
      = Ok (mk_page (?ts[j := set_header h (?ts ! j)]))"
    using get_u16_pointer(1) [OF ft assms(3)] put_header_page [OF ft assms(3,4)]
    by (simp add: set_header_def header_bytes_def)
  then have "UpdateTupleHeader (of_nat i) (of_nat j) h f
      = (Ok (), WritePage (of_nat i) (mk_page (?ts[j := set_header h (?ts ! j)])) f)"
    using idx ReadPage_rep [OF assms(1,2)]
    by (simp add: UpdateTupleHeader_def Let_def del: GetItemCount_mk_page)
  moreover have "fits (?ts[j := set_header h (?ts ! j)])"
    using ft assms(3,4) by (simp add: fits_update)
  ultimately show ?thesis
    using WritePage_rep [OF assms(1,2)] by (simp add: heap_update_def)
qed

section \<open>Tuples by location\<close>

text \<open>
  A location is a page number and an item index. \<open>read_tuple\<close> is how every scan reads one:
  \<open>ReadPage\<close>, then \<open>GetTuple\<close>.
\<close>

definition read_tuple :: "u32 \<times> u16 \<Rightarrow> heap_bytes \<Rightarrow> byte list result" where
  "read_tuple loc f = bind (ReadPage (fst loc) f) (GetTuple (snd loc))"

lemma read_tuple_rep:
  assumes "heap_rep f pgs"
  shows "read_tuple loc f = Ok t \<longleftrightarrow> tuple_at pgs loc = Some t"
proof (cases "unat (fst loc) < length pgs")
  case True
  let ?ts = "pgs ! unat (fst loc)"
  have ft: "fits ?ts" using assms True by (simp add: heap_rep_def list_all_iff)
  have rd: "ReadPage (fst loc) f = Ok (mk_page ?ts)" using ReadPage_rep [OF assms True] by simp
  show ?thesis
  proof (cases "unat (snd loc) < length ?ts")
    case i: True
    then show ?thesis
      using GetTuple_mk_page [OF ft i] rd True by (simp add: read_tuple_def tuple_at_def)
  next
    case False
    then have "snd loc \<ge> GetItemCount (mk_page ?ts)" using unat_count_mk_page [OF ft] by (simp only: word_le_nat_alt)
    then show ?thesis
      using GetTuple_out_of_range [of "mk_page ?ts" "snd loc"] rd True False by (simp add: read_tuple_def tuple_at_def)
  qed
next
  case False
  then show ?thesis using ReadPage_beyond [OF assms] by (simp add: read_tuple_def tuple_at_def)
qed

lemma tuple_at_heap_insert: "tuple_at pgs loc = Some t \<Longrightarrow> tuple_at (heap_insert d pgs) loc = Some t"
  by (cases pgs rule: rev_cases) (auto simp: tuple_at_def heap_insert_def nth_append split: if_splits)

lemma tuple_at_heap_update:
  assumes "tuple_at pgs (of_nat i, of_nat j) = Some t" and "unat (of_nat i :: u32) = i" and "unat (of_nat j :: u16) = j"
  shows "tuple_at (heap_update i j h pgs) loc =
    (if loc = (of_nat i, of_nat j) then Some (set_header h t) else tuple_at pgs loc)"
proof -
  have r: "i < length pgs" "j < length (pgs ! i)" "t = pgs ! i ! j"
    using assms by (auto simp: tuple_at_def split: if_splits)
  have e: "loc = (of_nat i, of_nat j) \<longleftrightarrow> unat (fst loc) = i \<and> unat (snd loc) = j"
    using assms(2,3) by (cases loc) (auto simp: word_unat_eq_iff)
  show ?thesis
    unfolding e using r by (auto simp: tuple_at_def heap_update_def nth_list_update)
qed

text \<open>
  The contract of a file of records: an inserted record is read back under the location that the
  insertion returned, and no later insertion moves it.
\<close>

fun insert_all :: "('d \<Rightarrow> 'h \<Rightarrow> 'l result \<times> 'h) \<Rightarrow> 'd list \<Rightarrow> 'h \<Rightarrow> 'l list result \<times> 'h" where
  "insert_all ins [] h = (Ok [], h)"
| "insert_all ins (d # ds) h =
     (case ins d h of
        (Ok l, h') \<Rightarrow> (case insert_all ins ds h' of (r, h'') \<Rightarrow> (bind r (\<lambda>ls. Ok (l # ls)), h''))
      | (Err e, h') \<Rightarrow> (Err e, h')
      | (Panic, h') \<Rightarrow> (Panic, h'))"

locale record_file =
  fixes ins :: "'d \<Rightarrow> 'h \<Rightarrow> 'l result \<times> 'h"
    and rd :: "'l \<Rightarrow> 'h \<Rightarrow> 'd result"
    and inv :: "nat \<Rightarrow> 'h \<Rightarrow> bool"
    and small :: "'d \<Rightarrow> bool"
    and limit :: nat
  assumes ins_ok: "inv n h \<Longrightarrow> small d \<Longrightarrow> Suc n < limit \<Longrightarrow>
      \<exists>l h'. ins d h = (Ok l, h') \<and> inv (Suc n) h' \<and> rd l h' = Ok d \<and> (\<forall>k e. rd k h = Ok e \<longrightarrow> rd k h' = Ok e)"
begin

lemma insert_all_ok:
  "inv n h \<Longrightarrow> list_all small ds \<Longrightarrow> n + length ds < limit \<Longrightarrow>
     \<exists>ls h'. insert_all ins ds h = (Ok ls, h') \<and> inv (n + length ds) h' \<and>
       list_all2 (\<lambda>l d. rd l h' = Ok d) ls ds \<and> (\<forall>k e. rd k h = Ok e \<longrightarrow> rd k h' = Ok e)"
proof (induction ds arbitrary: n h)
  case (Cons d ds)
  obtain l h1 where i: "ins d h = (Ok l, h1)" "inv (Suc n) h1" "rd l h1 = Ok d"
    and k: "\<And>k e. rd k h = Ok e \<Longrightarrow> rd k h1 = Ok e"
    using ins_ok [OF Cons.prems(1), of d] Cons.prems by auto
  obtain ls h2 where "insert_all ins ds h1 = (Ok ls, h2)" "inv (Suc n + length ds) h2"
    "list_all2 (\<lambda>l d. rd l h2 = Ok d) ls ds" "\<And>k e. rd k h1 = Ok e \<Longrightarrow> rd k h2 = Ok e"
    using Cons.IH [OF i(2)] Cons.prems by auto
  then show ?case using i k by (intro exI [of _ "l # ls"] exI [of _ h2]) simp
qed simp

end

definition heap_inv :: "nat \<Rightarrow> heap_bytes \<Rightarrow> bool" where
  "heap_inv n f \<longleftrightarrow> (\<exists>pgs. heap_rep f pgs \<and> length pgs \<le> n)"

lemma heap_inv_empty: "heap_inv 0 []"
  by (auto simp: heap_inv_def heap_rep_def)

interpretation hf: record_file InsertTuple read_tuple heap_inv "\<lambda>d. length d + 4 \<le> 8184" "2 ^ 32"
proof (unfold_locales, goal_cases)
  case (1 n f d)
  then obtain pgs where h: "heap_rep f pgs" and n: "length pgs \<le> n" by (auto simp: heap_inv_def)
  have r: "Suc (length pgs) < 2 ^ 32" using n 1(3) by simp
  obtain loc f' where i: "InsertTuple d f = (Ok loc, f')" "heap_rep f' (heap_insert d pgs)"
    "tuple_at (heap_insert d pgs) loc = Some d"
    using InsertTuple_rep [OF h 1(2) r] by blast
  have "length (heap_insert d pgs) \<le> Suc n" using n by (auto simp: heap_insert_def)
  then show ?case
    using i tuple_at_heap_insert [of pgs _ _ d] read_tuple_rep [OF h] read_tuple_rep [OF i(2)]
    by (auto simp: heap_inv_def)
qed

section \<open>Properties\<close>

text \<open>C9. Inserting tuples one after the other into an empty heap file succeeds for each that fits a page, and at the end every tuple is read back under the location its insertion returned: no insertion moves or damages an earlier tuple, across page boundaries too.\<close>

theorem heap_insert_all:
  assumes "list_all (\<lambda>d. length d + 4 \<le> 8184) ds" and "length ds < 2 ^ 32"
  shows "\<exists>locs f. insert_all InsertTuple ds [] = (Ok locs, f) \<and> list_all2 (\<lambda>loc d. read_tuple loc f = Ok d) locs ds"
  using hf.insert_all_ok [OF heap_inv_empty, of ds] assms by auto

theorem heap_insert_all_witness:
  "\<exists>locs f. insert_all InsertTuple [replicate 8000 1, replicate 400 2, []] [] = (Ok locs, f) \<and>
     list_all2 (\<lambda>loc d. read_tuple loc f = Ok d) locs [replicate 8000 1, replicate 400 2, []]"
  using heap_insert_all [of "[replicate 8000 1, replicate 400 2, []]"] by simp

text \<open>C16. Overwriting the header of a stored tuple replaces the first 16 bytes of that tuple and leaves every other tuple of the file as it was.\<close>

theorem heap_update_header:
  assumes "heap_rep f pgs" and "read_tuple (pageNum, itemIdx) f = Ok t" and "16 \<le> length t"
  shows "\<exists>f'. UpdateTupleHeader pageNum itemIdx h f = (Ok (), f') \<and>
    (\<forall>loc u. read_tuple loc f = Ok u \<longrightarrow>
       read_tuple loc f' = Ok (if loc = (pageNum, itemIdx) then set_header h u else u))"
proof -
  let ?i = "unat pageNum" and ?j = "unat itemIdx"
  have t: "tuple_at pgs (pageNum, itemIdx) = Some t" using assms(2) read_tuple_rep [OF assms(1)] by blast
  then have i: "?i < length pgs" "?j < length (pgs ! ?i)" "pgs ! ?i ! ?j = t"
    by (auto simp: tuple_at_def split: if_splits)
  then obtain f' where u: "UpdateTupleHeader pageNum itemIdx h f = (Ok (), f')" and r: "heap_rep f' (heap_update ?i ?j h pgs)"
    using UpdateTupleHeader_rep [OF assms(1) i(1,2), of h] assms(3) by auto
  show ?thesis
    using u t tuple_at_heap_update [of pgs ?i ?j t h] read_tuple_rep [OF assms(1)] read_tuple_rep [OF r]
    by (intro exI [of _ f']) auto
qed

theorem heap_update_header_witness:
  "\<exists>f f'. UpdateTupleHeader 0 0 \<lparr>Xmin = 1, Xmax = 2\<rparr> f = (Ok (), f') \<and>
     read_tuple (0, 0) f' = Ok (header_bytes \<lparr>Xmin = 1, Xmax = 2\<rparr> @ [7])"
proof -
  have r: "heap_rep (mk_page [replicate 17 7]) [[replicate 17 7]]" by (simp add: heap_rep_def fits_def used_def)
  then have "read_tuple (0, 0) (mk_page [replicate 17 7]) = Ok (replicate 17 7)"
    using read_tuple_rep [OF r] by (simp add: tuple_at_def)
  moreover have "set_header \<lparr>Xmin = 1, Xmax = 2\<rparr> (replicate 17 7) = header_bytes \<lparr>Xmin = 1, Xmax = 2\<rparr> @ [7]"
    by (simp add: set_header_def put_at_def header_bytes_def)
  ultimately have "\<exists>f'. UpdateTupleHeader 0 0 \<lparr>Xmin = 1, Xmax = 2\<rparr> (mk_page [replicate 17 7]) = (Ok (), f') \<and>
      read_tuple (0, 0) f' = Ok (header_bytes \<lparr>Xmin = 1, Xmax = 2\<rparr> @ [7])"
    using heap_update_header [OF r, of 0 0 "replicate 17 7" "\<lparr>Xmin = 1, Xmax = 2\<rparr>"] by fastforce
  then show ?thesis by blast
qed

text \<open>A tuple that cannot fit an empty page is refused before anything is written: the error reports its size and the file is unchanged.\<close>

lemma heap_too_large:
  assumes "PageSize - PageHeaderSize < length d + ItemPointerSize"
  shows "InsertTuple d f = (Err (ErrTupleTooLarge (length d)), f)"
  using assms by (simp add: InsertTuple_def)

end
