(* ===== verification/Txn.thy ===== *)
theory Txn
  imports Prelude "HOL-Library.AList"
begin

text \<open>
  The transaction manager of \<open>internal/txn/txn.go\<close>: the counter of transaction identifiers,
  the map of their final statuses, snapshots and the visibility rule. Each operation holds the
  manager's mutex or is one atomic instruction, so it is one function on the record. The map is
  an association list, because \<open>TakeSnapshot\<close> ranges over it; nothing depends on its order.
\<close>

section \<open>State and operations\<close>

datatype txn_state = TxnIdle | TxnInTransaction | TxnFailed

record conn_transaction =
  ct_State :: txn_state
  ct_XID :: u64

record snapshot =
  snap_Xmin :: u64
  snap_Xmax :: u64
  snap_Xip :: "u64 list"

datatype status = InProgress | Committed | Aborted

record txn_manager =
  nextXID :: u64
  statuses :: "(u64 \<times> status) list"

definition NewTxnManager :: txn_manager where
  "NewTxnManager = \<lparr>nextXID = 0, statuses = []\<rparr>"

definition NextXID :: "txn_manager \<Rightarrow> u64 \<times> txn_manager" where
  "NextXID m = (let x = nextXID m + 1 in (x, m\<lparr>nextXID := x\<rparr>))"

definition SetStatus :: "u64 \<Rightarrow> status \<Rightarrow> txn_manager \<Rightarrow> txn_manager" where
  "SetStatus xid st m = m\<lparr>statuses := AList.update xid st (statuses m)\<rparr>"

definition GetStatus :: "u64 \<Rightarrow> txn_manager \<Rightarrow> status" where
  "GetStatus xid m = (case map_of (statuses m) xid of None \<Rightarrow> InProgress | Some st \<Rightarrow> st)"

definition Commit :: "u64 \<Rightarrow> txn_manager \<Rightarrow> txn_manager" where
  "Commit xid m = SetStatus xid Committed m"

definition Abort :: "u64 \<Rightarrow> txn_manager \<Rightarrow> txn_manager" where
  "Abort xid m = SetStatus xid Aborted m"

definition isXIDCommitted :: "u64 \<Rightarrow> snapshot \<Rightarrow> txn_manager \<Rightarrow> bool" where
  "isXIDCommitted xid snap m =
     (if xid \<ge> snap_Xmax snap then False
      else if xid \<in> set (snap_Xip snap) then False
      else GetStatus xid m = Committed)"

definition IsVisible :: "u64 \<Rightarrow> u64 \<Rightarrow> snapshot \<Rightarrow> txn_manager \<Rightarrow> bool" where
  "IsVisible xmin xmax snap m =
     (if \<not> isXIDCommitted xmin snap m then False
      else if xmax = 0 then True
      else if isXIDCommitted xmax snap m then False
      else True)"

fun snapshot_loop :: "(u64 \<times> status) list \<Rightarrow> u64 \<Rightarrow> u64 list \<Rightarrow> u64 \<times> u64 list" where
  "snapshot_loop [] xmin xip = (xmin, xip)"
| "snapshot_loop ((key, st) # rest) xmin xip =
     (if st = InProgress
      then snapshot_loop rest (if key < xmin then key else xmin) (xip @ [key])
      else snapshot_loop rest xmin xip)"

definition TakeSnapshot :: "txn_manager \<Rightarrow> snapshot" where
  "TakeSnapshot m =
     (let xmax = nextXID m + 1;
          (xmin, xip) = snapshot_loop (statuses m) xmax []
      in \<lparr>snap_Xmin = xmin, snap_Xmax = xmax, snap_Xip = xip\<rparr>)"

section \<open>The status log\<close>

text \<open>The contract of the status map: a write is what its own transaction reads, and no other.\<close>

locale status_log =
  fixes get :: "u64 \<Rightarrow> 'm \<Rightarrow> status" and set :: "u64 \<Rightarrow> status \<Rightarrow> 'm \<Rightarrow> 'm"
  assumes get_set: "get x (set y st m) = (if x = y then st else get x m)"
begin

lemma set_commute: "y \<noteq> z \<Longrightarrow> get x (set y a (set z b m)) = get x (set z b (set y a m))"
  by (simp add: get_set)

lemma set_last: "get x (set y a (set y b m)) = get x (set y a m)"
  by (simp add: get_set)

end

interpretation clog: status_log GetStatus SetStatus
  by unfold_locales (simp add: GetStatus_def SetStatus_def update_conv')

lemma GetStatus_NextXID [simp]: "GetStatus x (snd (NextXID m)) = GetStatus x m"
  by (simp add: GetStatus_def NextXID_def Let_def)

lemma nextXID_SetStatus [simp]: "nextXID (SetStatus x st m) = nextXID m"
  by (simp add: SetStatus_def)

section \<open>Snapshots\<close>

lemma snapshot_loop_xip:
  "snd (snapshot_loop xs lo xip) = xip @ map fst (filter (\<lambda>(k, st). st = InProgress) xs)"
  by (induction xs lo xip rule: snapshot_loop.induct) auto

lemma Min_insert_if:
  "finite A \<Longrightarrow> Min (insert (if k < l then k else l) A) = Min (insert l (insert (k :: 'a::linorder) A))"
  by (cases "A = {}") (auto simp: min_def)

lemma snapshot_loop_xmin:
  "fst (snapshot_loop xs lo xip) = Min (insert lo (fst ` {p \<in> set xs. snd p = InProgress}))"
proof (induction xs lo xip rule: snapshot_loop.induct)
  case (2 key st rest lo xip)
  let ?A = "fst ` {p \<in> set rest. snd p = InProgress}"
  have fin: "finite ?A" by simp
  show ?case
  proof (cases "st = InProgress")
    case True
    have "{p \<in> set ((key, st) # rest). snd p = InProgress} = insert (key, st) {p \<in> set rest. snd p = InProgress}"
      using True by auto
    moreover have "Min (insert (if key < lo then key else lo) ?A) = Min (insert lo (insert key ?A))"
      using fin by (rule Min_insert_if)
    ultimately show ?thesis using 2 True by simp
  next
    case False
    then have "{p \<in> set ((key, st) # rest). snd p = InProgress} = {p \<in> set rest. snd p = InProgress}"
      by auto
    with 2 False show ?thesis by simp
  qed
qed simp

lemma set_snap_Xip: "set (snap_Xip (TakeSnapshot m)) = {x. (x, InProgress) \<in> set (statuses m)}"
  using snapshot_loop_xip [of "statuses m" "nextXID m + 1" "[]"]
  by (force simp: TakeSnapshot_def Let_def split: prod.splits)

lemma snap_Xmax [simp]: "snap_Xmax (TakeSnapshot m) = nextXID m + 1"
  by (simp add: TakeSnapshot_def Let_def split: prod.splits)

lemma snap_Xmin:
  "snap_Xmin (TakeSnapshot m) = Min (insert (snap_Xmax (TakeSnapshot m)) (set (snap_Xip (TakeSnapshot m))))"
proof -
  have "fst ` {p \<in> set (statuses m). snd p = InProgress} = {x. (x, InProgress) \<in> set (statuses m)}"
    by force
  then show ?thesis
    using snapshot_loop_xmin [of "statuses m" "nextXID m + 1" "[]"] set_snap_Xip [of m]
    by (simp add: TakeSnapshot_def Let_def split: prod.splits)
qed

section \<open>Visibility\<close>

lemma IsVisible_iff:
  "IsVisible xmin xmax snap m \<longleftrightarrow>
     isXIDCommitted xmin snap m \<and> (xmax = 0 \<or> \<not> isXIDCommitted xmax snap m)"
  by (simp add: IsVisible_def)

lemma isXIDCommitted_SetStatus:
  assumes "x \<ge> snap_Xmax snap \<or> x \<in> set (snap_Xip snap)"
  shows "isXIDCommitted y snap (SetStatus x st m) = isXIDCommitted y snap m"
  using assms by (auto simp: isXIDCommitted_def clog.get_set)

section \<open>Properties\<close>

text \<open>C31. What a snapshot holds: \<open>Xip\<close> lists exactly the transactions whose status is recorded as in progress, \<open>Xmax\<close> is one more than the last identifier given, and \<open>Xmin\<close> is the least of \<open>Xmax\<close> and the identifiers in \<open>Xip\<close>.\<close>

theorem snapshot_contents:
  "set (snap_Xip (TakeSnapshot m)) = {x. (x, InProgress) \<in> set (statuses m)} \<and>
   snap_Xmax (TakeSnapshot m) = nextXID m + 1 \<and>
   snap_Xmin (TakeSnapshot m) = Min (insert (snap_Xmax (TakeSnapshot m)) (set (snap_Xip (TakeSnapshot m))))"
  using set_snap_Xip snap_Xmin by simp

text \<open>C19. A snapshot's view is stable: when a transaction that began after the snapshot, or that the snapshot lists as running, commits or aborts, no row version changes its visibility under the snapshot.\<close>

theorem visibility_stable:
  assumes "x \<ge> snap_Xmax snap \<or> x \<in> set (snap_Xip snap)"
  shows "IsVisible xmin xmax snap (Commit x m) = IsVisible xmin xmax snap m \<and>
    IsVisible xmin xmax snap (Abort x m) = IsVisible xmin xmax snap m"
  using isXIDCommitted_SetStatus [OF assms] by (simp add: IsVisible_iff Commit_def Abort_def)

theorem visibility_stable_witness:
  "IsVisible 1 5 (TakeSnapshot (Commit 1 (snd (NextXID NewTxnManager)))) (Commit 5 (Commit 1 (snd (NextXID NewTxnManager))))"
proof -
  let ?m = "Commit 1 (snd (NextXID NewTxnManager))"
  have "(5 :: u64) \<ge> snap_Xmax (TakeSnapshot ?m)"
    by (simp add: Commit_def NextXID_def NewTxnManager_def Let_def)
  moreover have "IsVisible 1 5 (TakeSnapshot ?m) ?m" by code_simp
  ultimately show ?thesis using visibility_stable [of "TakeSnapshot ?m" 5 1 5 ?m] by simp
qed

end
