(* ===== verification/Executor.thy ===== *)
theory Executor
  imports Eval HeapFile Txn
begin

text \<open>
  The statements of \<open>internal/executor/executor.go\<close>. The executor works on the catalog, the
  transaction manager and the heap files; the three are the record \<open>db\<close>, and every statement
  returns its outcome together with the record it leaves, whatever the outcome, because an error
  or a panic does not undo the writes made before it. The scans are recursions over the page
  numbers and the item indexes in the order of the \<open>for\<close> loops, and each loop returns early
  where the code does.
\<close>

section \<open>State and results\<close>

record db =
  db_catalog :: catalog
  db_txn :: txn_manager
  db_files :: "u32 \<rightharpoonup> heap_bytes"

record executor =
  ex_txnXID :: u64
  ex_snapShot :: snapshot

record exec_result =
  res_Tag :: string
  res_Columns :: "column_def list"
  res_Rows :: "any list list"

text \<open>A slice of rows is \<open>nil\<close> exactly when no row was appended, so \<open>[]\<close> is \<open>nil\<close>.\<close>

definition tag_only :: "string \<Rightarrow> exec_result" where
  "tag_only tag = \<lparr>res_Tag = tag, res_Columns = [], res_Rows = []\<rparr>"

definition getAutoCommitWithXID :: "executor \<Rightarrow> txn_manager \<Rightarrow> u64 \<times> bool \<times> txn_manager" where
  "getAutoCommitWithXID e tm =
     (let xid = ex_txnXID e; autoCommit = (xid = 0)
      in if autoCommit then (case NextXID tm of (x, tm') \<Rightarrow> (x, True, tm')) else (xid, False, tm))"

text \<open>\<open>storage.NewHeapFile\<close> opens the table's file and creates it when it is missing.\<close>

definition NewHeapFile :: "u32 \<Rightarrow> db \<Rightarrow> heap_bytes \<times> db" where
  "NewHeapFile oid d =
     (case db_files d oid of
        Some f \<Rightarrow> (f, d)
      | None \<Rightarrow> ([], d\<lparr>db_files := (db_files d)(oid \<mapsto> [])\<rparr>))"

definition set_file :: "u32 \<Rightarrow> heap_bytes \<Rightarrow> db \<Rightarrow> db" where
  "set_file oid f d = d\<lparr>db_files := (db_files d)(oid \<mapsto> f)\<rparr>"

section \<open>CREATE TABLE and DROP TABLE\<close>

fun create_columns :: "column_spec list \<Rightarrow> column_def list result" where
  "create_columns [] = Ok []"
| "create_columns (col # cols) =
     (case OIDByName (spec_TypeName col) of
        None \<Rightarrow> Err (ErrTypeMissing (spec_TypeName col))
      | Some oid \<Rightarrow>
          bind (create_columns cols) (\<lambda>cs.
            Ok (\<lparr>col_Name = spec_Name col, col_TypeOID = oid, col_TypeMod = - 1,
                 col_NotNull = spec_NotNull col, col_HasDefault = False, col_Default = []\<rparr> # cs)))"

definition executeCreateTable :: "string \<Rightarrow> column_spec list \<Rightarrow> db \<Rightarrow> exec_result result \<times> db" where
  "executeCreateTable name cols d =
     (if cols = [] then (Err ErrNoColumns, d)
      else case create_columns cols of
             Err e \<Rightarrow> (Err e, d)
           | Panic \<Rightarrow> (Panic, d)
           | Ok columns \<Rightarrow>
               (case CreateTable ''public'' name columns (db_catalog d) of
                  (r, c') \<Rightarrow> (bind r (\<lambda>_. Ok (tag_only ''CREATE TABLE'')), d\<lparr>db_catalog := c'\<rparr>)))"

definition executeDropTable :: "string \<Rightarrow> bool \<Rightarrow> db \<Rightarrow> exec_result result \<times> db" where
  "executeDropTable name ifExists d =
     (case DropTable ''public'' name ifExists (db_catalog d) of
        (r, c') \<Rightarrow> (bind r (\<lambda>_. Ok (tag_only ''DROP TABLE'')), d\<lparr>db_catalog := c'\<rparr>))"

section \<open>The scan\<close>

text \<open>
  The common body of the three scans: read an item, decode it, skip it (\<open>None\<close>) when it is not
  visible or the \<open>WHERE\<close> clause does not evaluate to \<open>true\<close>.
\<close>

definition scan_tuple ::
    "snapshot \<Rightarrow> txn_manager \<Rightarrow> column_def list \<Rightarrow> expression option \<Rightarrow> byte list
      \<Rightarrow> (tuple_header \<times> any list) option result" where
  "scan_tuple snap tm columns wh data =
     bind (DecodeTuple data columns) (\<lambda>(header, allValues).
       if \<not> IsVisible (Xmin header) (Xmax header) snap tm then Ok None
       else case wh of
              None \<Rightarrow> Ok (Some (header, allValues))
            | Some w \<Rightarrow>
                bind (evalExpr w allValues columns) (\<lambda>match.
                  if match \<noteq> Some (VBool True) then Ok None else Ok (Some (header, allValues))))"

definition scan_item ::
    "snapshot \<Rightarrow> txn_manager \<Rightarrow> column_def list \<Rightarrow> expression option \<Rightarrow> page \<Rightarrow> nat
      \<Rightarrow> (tuple_header \<times> any list) option result" where
  "scan_item snap tm columns wh page itemIdx =
     bind (GetTuple (of_nat itemIdx) page) (\<lambda>data. scan_tuple snap tm columns wh data)"

section \<open>SELECT\<close>

fun select_columns :: "string list \<Rightarrow> column_def list \<Rightarrow> (column_def list \<times> nat list) result" where
  "select_columns [] tcols = Ok ([], [])"
| "select_columns (name # names) tcols =
     (case find_column name tcols of
        None \<Rightarrow> Err (ErrColumnMissing name)
      | Some i \<Rightarrow>
          bind (select_columns names tcols) (\<lambda>(cs, is). Ok (tcols ! i # cs, i # is)))"

fun pick_row :: "nat list \<Rightarrow> any list \<Rightarrow> any list result" where
  "pick_row [] vals = Ok []"
| "pick_row (i # is) vals =
     bind (row_index vals i) (\<lambda>v. bind (pick_row is vals) (\<lambda>vs. Ok (v # vs)))"

fun select_items ::
    "snapshot \<Rightarrow> txn_manager \<Rightarrow> column_def list \<Rightarrow> expression option \<Rightarrow> nat list \<Rightarrow> page
      \<Rightarrow> nat list \<Rightarrow> any list list \<Rightarrow> any list list result" where
  "select_items snap tm columns wh idxs page [] rows = Ok rows"
| "select_items snap tm columns wh idxs page (itemIdx # items) rows =
     bind (scan_item snap tm columns wh page itemIdx) (\<lambda>m.
       case m of
         None \<Rightarrow> select_items snap tm columns wh idxs page items rows
       | Some (header, allValues) \<Rightarrow>
           bind (pick_row idxs allValues) (\<lambda>row.
             select_items snap tm columns wh idxs page items (rows @ [row])))"

fun select_pages ::
    "snapshot \<Rightarrow> txn_manager \<Rightarrow> column_def list \<Rightarrow> expression option \<Rightarrow> nat list \<Rightarrow> heap_bytes
      \<Rightarrow> nat list \<Rightarrow> any list list \<Rightarrow> any list list result" where
  "select_pages snap tm columns wh idxs f [] rows = Ok rows"
| "select_pages snap tm columns wh idxs f (pageNum # pages) rows =
     bind (ReadPage (of_nat pageNum) f) (\<lambda>page.
     bind (select_items snap tm columns wh idxs page [0..<unat (GetItemCount page)] rows) (\<lambda>rows'.
       select_pages snap tm columns wh idxs f pages rows'))"

definition executeSelect ::
    "executor \<Rightarrow> string list \<Rightarrow> string \<Rightarrow> expression option \<Rightarrow> db \<Rightarrow> exec_result result \<times> db" where
  "executeSelect e names tname wh d =
     (case GetTable ''public'' tname (db_catalog d) of
        Err err \<Rightarrow> (Err err, d)
      | Panic \<Rightarrow> (Panic, d)
      | Ok table \<Rightarrow>
          (case (if names = [''*''] then Ok (tbl_Columns table, [0..<length (tbl_Columns table)])
                 else select_columns names (tbl_Columns table)) of
             Err err \<Rightarrow> (Err err, d)
           | Panic \<Rightarrow> (Panic, d)
           | Ok (columns, columnIndexes) \<Rightarrow>
               (case NewHeapFile (tbl_OID table) d of
                  (f, d1) \<Rightarrow>
                    (bind (select_pages (ex_snapShot e) (db_txn d1) (tbl_Columns table) wh columnIndexes f
                             [0..<unat (PageCount f)] [])
                       (\<lambda>rows. Ok \<lparr>res_Tag = ''SELECT '' @ FormatInt (int (length rows)),
                                   res_Columns = columns, res_Rows = rows\<rparr>),
                     d1))))"

section \<open>DELETE\<close>

text \<open>
  The loops carry the file and the transaction manager. A failed header update aborts an
  implicit transaction; the other errors return at once and leave its status unset.
\<close>

fun delete_items ::
    "snapshot \<Rightarrow> column_def list \<Rightarrow> expression option \<Rightarrow> u64 \<Rightarrow> bool \<Rightarrow> nat \<Rightarrow> page
      \<Rightarrow> nat list \<Rightarrow> nat \<Rightarrow> heap_bytes \<Rightarrow> txn_manager \<Rightarrow> nat result \<times> heap_bytes \<times> txn_manager" where
  "delete_items snap columns wh xid auto pageNum page [] n f tm = (Ok n, f, tm)"
| "delete_items snap columns wh xid auto pageNum page (itemIdx # items) n f tm =
     (case scan_item snap tm columns wh page itemIdx of
        Err e \<Rightarrow> (Err e, f, tm)
      | Panic \<Rightarrow> (Panic, f, tm)
      | Ok None \<Rightarrow> delete_items snap columns wh xid auto pageNum page items n f tm
      | Ok (Some (header, allValues)) \<Rightarrow>
          (case UpdateTupleHeader (of_nat pageNum) (of_nat itemIdx) (header\<lparr>Xmax := xid\<rparr>) f of
             (Ok _, f') \<Rightarrow> delete_items snap columns wh xid auto pageNum page items (Suc n) f' tm
           | (Err e, f') \<Rightarrow> (Err e, f', if auto then Abort xid tm else tm)
           | (Panic, f') \<Rightarrow> (Panic, f', tm)))"

fun delete_pages ::
    "snapshot \<Rightarrow> column_def list \<Rightarrow> expression option \<Rightarrow> u64 \<Rightarrow> bool
      \<Rightarrow> nat list \<Rightarrow> nat \<Rightarrow> heap_bytes \<Rightarrow> txn_manager \<Rightarrow> nat result \<times> heap_bytes \<times> txn_manager" where
  "delete_pages snap columns wh xid auto [] n f tm = (Ok n, f, tm)"
| "delete_pages snap columns wh xid auto (pageNum # pages) n f tm =
     (case ReadPage (of_nat pageNum) f of
        Err e \<Rightarrow> (Err e, f, tm)
      | Panic \<Rightarrow> (Panic, f, tm)
      | Ok page \<Rightarrow>
          (case delete_items snap columns wh xid auto pageNum page [0..<unat (GetItemCount page)] n f tm of
             (Ok n', f', tm') \<Rightarrow> delete_pages snap columns wh xid auto pages n' f' tm'
           | (Err e, f', tm') \<Rightarrow> (Err e, f', tm')
           | (Panic, f', tm') \<Rightarrow> (Panic, f', tm')))"

text \<open>
  The end of a data-changing statement: the file and the manager the loops leave are put back,
  and an implicit transaction commits when they succeeded.
\<close>

definition finish_dml ::
    "string \<Rightarrow> u64 \<Rightarrow> bool \<Rightarrow> u32 \<Rightarrow> nat result \<times> heap_bytes \<times> txn_manager \<Rightarrow> db \<Rightarrow> exec_result result \<times> db" where
  "finish_dml tag xid auto oid out d =
     (case out of (r, f, tm) \<Rightarrow>
        let d' = set_file oid f (d\<lparr>db_txn := tm\<rparr>)
        in case r of
             Ok n \<Rightarrow> (Ok (tag_only (tag @ FormatInt (int n))),
                      if auto then d'\<lparr>db_txn := Commit xid tm\<rparr> else d')
           | Err e \<Rightarrow> (Err e, d')
           | Panic \<Rightarrow> (Panic, d'))"

definition executeDelete :: "executor \<Rightarrow> string \<Rightarrow> expression option \<Rightarrow> db \<Rightarrow> exec_result result \<times> db" where
  "executeDelete e tname wh d =
     (case GetTable ''public'' tname (db_catalog d) of
        Err err \<Rightarrow> (Err err, d)
      | Panic \<Rightarrow> (Panic, d)
      | Ok table \<Rightarrow>
          (case NewHeapFile (tbl_OID table) d of
             (f, d1) \<Rightarrow>
               (case getAutoCommitWithXID e (db_txn d1) of
                  (xid, autoCommit, tm) \<Rightarrow>
                    finish_dml ''DELETE '' xid autoCommit (tbl_OID table)
                      (delete_pages (ex_snapShot e) (tbl_Columns table) wh xid autoCommit
                         [0..<unat (PageCount f)] 0 f tm) d1)))"

section \<open>UPDATE\<close>

fun apply_set_clauses :: "string \<Rightarrow> set_clause list \<Rightarrow> column_def list \<Rightarrow> any list \<Rightarrow> any list result" where
  "apply_set_clauses tname [] tcols vals = Ok vals"
| "apply_set_clauses tname (clause # clauses) tcols vals =
     (case find_column (set_Column clause) tcols of
        None \<Rightarrow> Err (ErrColumnMissingIn (set_Column clause) tname)
      | Some i \<Rightarrow>
          bind (evalLiteral (set_Value clause) (tcols ! i)) (\<lambda>val.
            if i < length vals then apply_set_clauses tname clauses tcols (vals[i := val]) else Panic))"

text \<open>
  The part of \<open>executeUpdate\<close> after the old version is marked: every \<open>error\<close> in it aborts an
  implicit transaction, an error of the header update before it does not.
\<close>

definition new_version ::
    "string \<Rightarrow> set_clause list \<Rightarrow> column_def list \<Rightarrow> u64 \<Rightarrow> any list \<Rightarrow> heap_bytes \<Rightarrow> unit result \<times> heap_bytes" where
  "new_version tname sets columns xid allValues f =
     (case bind (apply_set_clauses tname sets columns allValues) (\<lambda>newValues.
             EncodeTuple \<lparr>Xmin = xid, Xmax = 0\<rparr> newValues columns) of
        Ok newData \<Rightarrow> (case InsertTuple newData f of (r, f') \<Rightarrow> (bind r (\<lambda>_. Ok ()), f'))
      | Err e \<Rightarrow> (Err e, f)
      | Panic \<Rightarrow> (Panic, f))"

fun update_items ::
    "snapshot \<Rightarrow> column_def list \<Rightarrow> string \<Rightarrow> set_clause list \<Rightarrow> expression option \<Rightarrow> u64 \<Rightarrow> bool \<Rightarrow> nat \<Rightarrow> page
      \<Rightarrow> nat list \<Rightarrow> nat \<Rightarrow> heap_bytes \<Rightarrow> txn_manager \<Rightarrow> nat result \<times> heap_bytes \<times> txn_manager" where
  "update_items snap columns tname sets wh xid auto pageNum page [] n f tm = (Ok n, f, tm)"
| "update_items snap columns tname sets wh xid auto pageNum page (itemIdx # items) n f tm =
     (case scan_item snap tm columns wh page itemIdx of
        Err e \<Rightarrow> (Err e, f, tm)
      | Panic \<Rightarrow> (Panic, f, tm)
      | Ok None \<Rightarrow> update_items snap columns tname sets wh xid auto pageNum page items n f tm
      | Ok (Some (header, allValues)) \<Rightarrow>
          (case UpdateTupleHeader (of_nat pageNum) (of_nat itemIdx) (header\<lparr>Xmax := xid\<rparr>) f of
             (Err e, f') \<Rightarrow> (Err e, f', tm)
           | (Panic, f') \<Rightarrow> (Panic, f', tm)
           | (Ok _, f') \<Rightarrow>
               (case new_version tname sets columns xid allValues f' of
                  (Ok _, f'') \<Rightarrow> update_items snap columns tname sets wh xid auto pageNum page items (Suc n) f'' tm
                | (Err e, f'') \<Rightarrow> (Err e, f'', if auto then Abort xid tm else tm)
                | (Panic, f'') \<Rightarrow> (Panic, f'', tm))))"

fun update_pages ::
    "snapshot \<Rightarrow> column_def list \<Rightarrow> string \<Rightarrow> set_clause list \<Rightarrow> expression option \<Rightarrow> u64 \<Rightarrow> bool
      \<Rightarrow> nat list \<Rightarrow> nat \<Rightarrow> heap_bytes \<Rightarrow> txn_manager \<Rightarrow> nat result \<times> heap_bytes \<times> txn_manager" where
  "update_pages snap columns tname sets wh xid auto [] n f tm = (Ok n, f, tm)"
| "update_pages snap columns tname sets wh xid auto (pageNum # pages) n f tm =
     (case ReadPage (of_nat pageNum) f of
        Err e \<Rightarrow> (Err e, f, tm)
      | Panic \<Rightarrow> (Panic, f, tm)
      | Ok page \<Rightarrow>
          (case update_items snap columns tname sets wh xid auto pageNum page [0..<unat (GetItemCount page)] n f tm of
             (Ok n', f', tm') \<Rightarrow> update_pages snap columns tname sets wh xid auto pages n' f' tm'
           | (Err e, f', tm') \<Rightarrow> (Err e, f', tm')
           | (Panic, f', tm') \<Rightarrow> (Panic, f', tm')))"

definition executeUpdate ::
    "executor \<Rightarrow> string \<Rightarrow> set_clause list \<Rightarrow> expression option \<Rightarrow> db \<Rightarrow> exec_result result \<times> db" where
  "executeUpdate e tname sets wh d =
     (case GetTable ''public'' tname (db_catalog d) of
        Err err \<Rightarrow> (Err err, d)
      | Panic \<Rightarrow> (Panic, d)
      | Ok table \<Rightarrow>
          (case NewHeapFile (tbl_OID table) d of
             (f, d1) \<Rightarrow>
               (case getAutoCommitWithXID e (db_txn d1) of
                  (xid, autoCommit, tm) \<Rightarrow>
                    finish_dml ''UPDATE '' xid autoCommit (tbl_OID table)
                      (update_pages (ex_snapShot e) (tbl_Columns table) tname sets wh xid autoCommit
                         [0..<unat (PageCount f)] 0 f tm) d1)))"

section \<open>INSERT\<close>

fun resolveColumns :: "table_def \<Rightarrow> string list \<Rightarrow> column_def list result" where
  "resolveColumns table [] = Ok []"
| "resolveColumns table (name # names) =
     (case find_column name (tbl_Columns table) of
        None \<Rightarrow> Err (ErrColumnMissingIn name (tbl_Name table))
      | Some i \<Rightarrow> bind (resolveColumns table names) (\<lambda>cs. Ok (tbl_Columns table ! i # cs)))"

fun eval_literals :: "expression list \<Rightarrow> column_def list \<Rightarrow> any list result" where
  "eval_literals [] cols = Ok []"
| "eval_literals (x # xs) [] = Panic"
| "eval_literals (x # xs) (c # cs) =
     bind (evalLiteral x c) (\<lambda>v. bind (eval_literals xs cs) (\<lambda>vs. Ok (v # vs)))"

fun check_not_null :: "column_def list \<Rightarrow> any list \<Rightarrow> unit result" where
  "check_not_null [] vs = Ok ()"
| "check_not_null (c # cs) [] = Panic"
| "check_not_null (c # cs) (v # vs) =
     (if col_NotNull c \<and> v = None then Err (ErrNotNull (col_Name c)) else check_not_null cs vs)"

text \<open>The checks before a transaction identifier is taken: the columns and the values to store.\<close>

definition insert_values ::
    "table_def \<Rightarrow> string list \<Rightarrow> expression list \<Rightarrow> (column_def list \<times> any list) result" where
  "insert_values table names exprs =
     bind (if names \<noteq> [] then resolveColumns table names else Ok (tbl_Columns table)) (\<lambda>columns.
       if length exprs \<noteq> length columns then Err (ErrValueCount (length columns) (length exprs))
       else bind (eval_literals exprs columns) (\<lambda>values.
            bind (check_not_null columns values) (\<lambda>_. Ok (columns, values))))"

definition executeInsert ::
    "executor \<Rightarrow> string \<Rightarrow> string list \<Rightarrow> expression list \<Rightarrow> db \<Rightarrow> exec_result result \<times> db" where
  "executeInsert e tname names exprs d =
     (case bind (GetTable ''public'' tname (db_catalog d)) (\<lambda>table.
             bind (insert_values table names exprs) (\<lambda>cv. Ok (table, cv))) of
        Err err \<Rightarrow> (Err err, d)
      | Panic \<Rightarrow> (Panic, d)
      | Ok (table, columns, values) \<Rightarrow>
          (case getAutoCommitWithXID e (db_txn d) of
             (xid, autoCommit, tm) \<Rightarrow>
               let d1 = d\<lparr>db_txn := tm\<rparr>
               in case EncodeTuple \<lparr>Xmin = xid, Xmax = 0\<rparr> values columns of
                    Err err \<Rightarrow> (Err err, d1)
                  | Panic \<Rightarrow> (Panic, d1)
                  | Ok data \<Rightarrow>
                      (case NewHeapFile (tbl_OID table) d1 of
                         (f, d2) \<Rightarrow>
                           (case InsertTuple data f of
                              (Ok _, f') \<Rightarrow>
                                (Ok (tag_only ''INSERT 0 1''),
                                 let d3 = set_file (tbl_OID table) f' d2
                                 in if autoCommit then d3\<lparr>db_txn := Commit xid tm\<rparr> else d3)
                            | (Err err, f') \<Rightarrow>
                                (Err err,
                                 let d3 = set_file (tbl_OID table) f' d2
                                 in if autoCommit then d3\<lparr>db_txn := Abort xid tm\<rparr> else d3)
                            | (Panic, f') \<Rightarrow> (Panic, set_file (tbl_OID table) f' d2)))))"

section \<open>Dispatch\<close>

fun Execute :: "executor \<Rightarrow> statement \<Rightarrow> db \<Rightarrow> exec_result result \<times> db" where
  "Execute e (CreateTableStatement name cols) d = executeCreateTable name cols d"
| "Execute e (DropTableStatement name ifExists) d = executeDropTable name ifExists d"
| "Execute e (InsertStatement tname names exprs) d = executeInsert e tname names exprs d"
| "Execute e (SelectStatement names tname wh) d = executeSelect e names tname wh d"
| "Execute e (UpdateStatement tname sets wh) d = executeUpdate e tname sets wh d"
| "Execute e (DeleteStatement tname wh) d = executeDelete e tname wh d"
| "Execute e BeginStatement d = (Err ErrUnsupportedStmt, d)"
| "Execute e CommitStatement d = (Err ErrUnsupportedStmt, d)"
| "Execute e RollbackStatement d = (Err ErrUnsupportedStmt, d)"

end
