(* ===== verification/TableSpec.thy ===== *)
theory TableSpec
  imports Executor
begin

text \<open>
  The abstract table: pages of decoded row versions, each a header and the column values.
  \<open>table_rep f cols hss\<close> says that the bytes of a heap file hold the versions \<open>hss\<close>. The
  primitive operations of the heap refine operations on \<open>hss\<close>, and the nested scans of the
  executor become recursions over the flat list of versions.
\<close>

section \<open>Row versions\<close>

type_synonym version = "tuple_header \<times> any list"

definition decodes :: "column_def list \<Rightarrow> byte list \<Rightarrow> version \<Rightarrow> bool" where
  "decodes cols t hv \<longleftrightarrow> DecodeTuple t cols = Ok hv"

definition table_rep :: "heap_bytes \<Rightarrow> column_def list \<Rightarrow> version list list \<Rightarrow> bool" where
  "table_rep f cols hss \<longleftrightarrow> (\<exists>pgs. heap_rep f pgs \<and> list_all2 (list_all2 (decodes cols)) pgs hss)"

text \<open>What a scan does with a version once it is decoded.\<close>

definition row_match ::
    "snapshot \<Rightarrow> txn_manager \<Rightarrow> column_def list \<Rightarrow> expression option \<Rightarrow> version \<Rightarrow> version option result" where
  "row_match snap tm cols wh hv =
     (if \<not> IsVisible (Xmin (fst hv)) (Xmax (fst hv)) snap tm then Ok None
      else case wh of
             None \<Rightarrow> Ok (Some hv)
           | Some w \<Rightarrow> bind (evalExpr w (snd hv) cols) (\<lambda>m. if m \<noteq> Some (VBool True) then Ok None else Ok (Some hv)))"

lemma scan_tuple_decodes: "decodes cols t hv \<Longrightarrow> scan_tuple snap tm cols wh t = row_match snap tm cols wh hv"
  by (cases hv) (auto simp: scan_tuple_def row_match_def decodes_def split: option.splits)

lemma row_match_cases: "row_match snap tm cols wh hv = Ok m \<Longrightarrow> m = None \<or> m = Some hv"
  by (auto simp: row_match_def result_iff split: if_splits option.splits)

section \<open>The primitives on versions\<close>

lemma table_rep_length: "table_rep f cols hss \<Longrightarrow> unat (PageCount f) = length hss"
  by (auto simp: table_rep_def unat_PageCount_rep dest: list_all2_lengthD)

lemma table_rep_empty: "table_rep [] cols []"
  by (auto simp: table_rep_def heap_rep_def)

lemma ReadPage_table_rep:
  assumes "table_rep f cols hss" and "i < length hss"
  shows "\<exists>page. ReadPage (of_nat i) f = Ok page \<and> unat (GetItemCount page) = length (hss ! i) \<and>
    (\<forall>j < length (hss ! i). \<forall>snap tm wh. scan_item snap tm cols wh page j = row_match snap tm cols wh (hss ! i ! j))"
proof -
  obtain pgs where h: "heap_rep f pgs" and r: "list_all2 (list_all2 (decodes cols)) pgs hss"
    using assms(1) by (auto simp: table_rep_def)
  have i: "i < length pgs" and l: "list_all2 (decodes cols) (pgs ! i) (hss ! i)"
    using r assms(2) by (auto simp: list_all2_conv_all_nth)
  have len: "length (pgs ! i) = length (hss ! i)" and fit: "fits (pgs ! i)"
    using l h i by (auto simp: heap_rep_def list_all_iff dest: list_all2_lengthD)
  have rep: "page_rep (mk_page (pgs ! i)) (pgs ! i)" using fit by (simp add: page_rep_def)
  have "scan_item snap tm cols wh (mk_page (pgs ! i)) j = row_match snap tm cols wh (hss ! i ! j)"
    if "j < length (hss ! i)" for j snap tm wh
    using sp.get_ok [OF rep, of j] that len l
    by (simp add: scan_item_def scan_tuple_decodes list_all2_conv_all_nth)
  then show ?thesis
    using ReadPage_rep [OF h i] unat_count_mk_page [OF fit] len by auto
qed

lemma UpdateTupleHeader_table_rep:
  assumes "table_rep f cols hss" and "i < length hss" and "j < length (hss ! i)"
  shows "\<exists>f'. UpdateTupleHeader (of_nat i) (of_nat j) h f = (Ok (), f') \<and>
    table_rep f' cols (hss[i := (hss ! i)[j := (h, snd (hss ! i ! j))]])"
proof -
  obtain pgs where hr: "heap_rep f pgs" and r: "list_all2 (list_all2 (decodes cols)) pgs hss"
    using assms(1) by (auto simp: table_rep_def)
  have i: "i < length pgs" and l: "list_all2 (decodes cols) (pgs ! i) (hss ! i)"
    using r assms(2) by (auto simp: list_all2_conv_all_nth)
  have j: "j < length (pgs ! i)" using l assms(3) by (simp add: list_all2_lengthD)
  obtain h0 vs where hv: "hss ! i ! j = (h0, vs)" by (cases "hss ! i ! j")
  have d: "DecodeTuple (pgs ! i ! j) cols = Ok (h0, vs)"
    using l j hv by (auto simp: list_all2_conv_all_nth decodes_def)
  obtain f' where u: "UpdateTupleHeader (of_nat i) (of_nat j) h f = (Ok (), f')" "heap_rep f' (heap_update i j h pgs)"
    using UpdateTupleHeader_rep [OF hr i j] DecodeTuple_ok(3) [OF d] by blast
  have "list_all2 (decodes cols) ((pgs ! i)[j := set_header h (pgs ! i ! j)]) ((hss ! i)[j := (h, vs)])"
    using l DecodeTuple_set_header [OF d] by (intro list_all2_update_cong) (auto simp: decodes_def)
  then have "list_all2 (list_all2 (decodes cols)) (heap_update i j h pgs) (hss[i := (hss ! i)[j := (h, vs)]])"
    unfolding heap_update_def by (rule list_all2_update_cong [OF r])
  with u show ?thesis by (auto simp: table_rep_def hv)
qed

text \<open>A version goes to the end of the last page, or to a page of its own.\<close>

definition version_added :: "version \<Rightarrow> version list list \<Rightarrow> version list list \<Rightarrow> bool" where
  "version_added hv hss hss' \<longleftrightarrow>
     (hss \<noteq> [] \<and> hss' = butlast hss @ [last hss @ [hv]]) \<or> hss' = hss @ [[hv]]"

lemma concat_version_added: "version_added hv hss hss' \<Longrightarrow> concat hss' = concat hss @ [hv]"
proof -
  assume "version_added hv hss hss'"
  moreover have "hss \<noteq> [] \<Longrightarrow> concat hss = concat (butlast hss) @ last hss"
    by (metis append_butlast_last_id append_Nil2 concat.simps concat_append)
  ultimately show ?thesis by (auto simp: version_added_def)
qed

lemma length_version_added: "version_added hv hss hss' \<Longrightarrow> length hss' \<le> Suc (length hss)"
  by (cases hss rule: rev_cases) (auto simp: version_added_def)

lemma InsertTuple_table_rep:
  assumes "table_rep f cols hss" and "decodes cols d hv" and "length d + 4 \<le> 8184" and "Suc (length hss) < 2 ^ 32"
  shows "\<exists>loc f' hss'. InsertTuple d f = (Ok loc, f') \<and> table_rep f' cols hss' \<and> version_added hv hss hss'"
proof -
  obtain pgs where h: "heap_rep f pgs" and r: "list_all2 (list_all2 (decodes cols)) pgs hss"
    using assms(1) by (auto simp: table_rep_def)
  have len: "length pgs = length hss" using r by (rule list_all2_lengthD)
  obtain loc f' where ins: "InsertTuple d f = (Ok loc, f')" "heap_rep f' (heap_insert d pgs)"
    using InsertTuple_rep [OF h assms(3)] assms(4) len by auto
  show ?thesis
  proof (cases "pgs \<noteq> [] \<and> fits (last pgs @ [d])")
    case True
    then have "list_all2 (list_all2 (decodes cols)) (butlast pgs @ [last pgs]) (butlast hss @ [last hss])"
      using r by (cases "hss = []") auto
    then have "list_all2 (list_all2 (decodes cols)) (butlast pgs @ [last pgs @ [d]]) (butlast hss @ [last hss @ [hv]])"
      using assms(2) len by (auto simp: list_all2_append intro!: list_all2_appendI)
    then show ?thesis
      using ins True len by (fastforce simp: table_rep_def heap_insert_def version_added_def)
  next
    case False
    then have "heap_insert d pgs = pgs @ [[d]]" by (auto simp: heap_insert_def)
    moreover have "list_all2 (list_all2 (decodes cols)) (pgs @ [[d]]) (hss @ [[hv]])"
      using r assms(2) by (intro list_all2_appendI) auto
    ultimately show ?thesis
      using ins by (fastforce simp: table_rep_def version_added_def)
  qed
qed

section \<open>SELECT over the flat list\<close>

text \<open>
  \<open>clean\<close>: evaluating the \<open>WHERE\<close> clause on this version raises no error (a version that is
  not visible is not evaluated). \<open>matches\<close>: the version is visible and the clause holds.
\<close>

definition clean :: "snapshot \<Rightarrow> txn_manager \<Rightarrow> column_def list \<Rightarrow> expression option \<Rightarrow> version \<Rightarrow> bool" where
  "clean snap tm cols wh hv \<longleftrightarrow> row_match snap tm cols wh hv = Ok None \<or> row_match snap tm cols wh hv = Ok (Some hv)"

definition matches :: "snapshot \<Rightarrow> txn_manager \<Rightarrow> column_def list \<Rightarrow> expression option \<Rightarrow> version \<Rightarrow> bool" where
  "matches snap tm cols wh hv \<longleftrightarrow> row_match snap tm cols wh hv = Ok (Some hv)"

lemma row_match_clean:
  "clean snap tm cols wh hv \<Longrightarrow>
     row_match snap tm cols wh hv = Ok (if matches snap tm cols wh hv then Some hv else None)"
  by (auto simp: clean_def matches_def)

fun select_list ::
    "snapshot \<Rightarrow> txn_manager \<Rightarrow> column_def list \<Rightarrow> expression option \<Rightarrow> nat list \<Rightarrow> version list
      \<Rightarrow> any list list \<Rightarrow> any list list result" where
  "select_list snap tm cols wh idxs [] rows = Ok rows"
| "select_list snap tm cols wh idxs (hv # hvs) rows =
     bind (row_match snap tm cols wh hv) (\<lambda>m.
       case m of
         None \<Rightarrow> select_list snap tm cols wh idxs hvs rows
       | Some (h, vals) \<Rightarrow> bind (pick_row idxs vals) (\<lambda>row. select_list snap tm cols wh idxs hvs (rows @ [row])))"

lemma select_list_append:
  "select_list snap tm cols wh idxs (xs @ ys) rows =
     bind (select_list snap tm cols wh idxs xs rows) (select_list snap tm cols wh idxs ys)"
proof (induction xs arbitrary: rows)
  case (Cons x xs)
  then show ?case by (auto simp: bind_assoc split: option.splits intro!: arg_cong2 [where f = bind])
qed simp

lemma select_items_list:
  "list_all2 (\<lambda>j hv. scan_item snap tm cols wh page j = row_match snap tm cols wh hv) js hvs \<Longrightarrow>
     select_items snap tm cols wh idxs page js rows = select_list snap tm cols wh idxs hvs rows"
  by (induction js hvs arbitrary: rows rule: list_all2_induct)
     (auto intro!: arg_cong2 [where f = bind] split: option.splits)

lemma select_pages_list:
  assumes "table_rep f cols hss" and "set is \<subseteq> {..<length hss}"
  shows "select_pages snap tm cols wh idxs f is rows =
    select_list snap tm cols wh idxs (concat (map (\<lambda>i. hss ! i) is)) rows"
  using assms(2)
proof (induction "is" arbitrary: rows)
  case (Cons i "is")
  obtain page where p: "ReadPage (of_nat i) f = Ok page" "unat (GetItemCount page) = length (hss ! i)"
    and sc: "\<And>j. j < length (hss ! i) \<Longrightarrow> scan_item snap tm cols wh page j = row_match snap tm cols wh (hss ! i ! j)"
    using ReadPage_table_rep [OF assms(1), of i] Cons.prems by auto
  have "select_items snap tm cols wh idxs page [0..<length (hss ! i)] rows
      = select_list snap tm cols wh idxs (hss ! i) rows" for rows
    using sc by (intro select_items_list) (simp add: list_all2_conv_all_nth)
  with Cons p show ?case by (simp add: select_list_append) (auto intro!: arg_cong2 [where f = bind])
qed simp

lemma select_pages_all:
  assumes "table_rep f cols hss"
  shows "select_pages snap tm cols wh idxs f [0..<unat (PageCount f)] rows =
    select_list snap tm cols wh idxs (concat hss) rows"
proof -
  have "set [0..<length hss] \<subseteq> {..<length hss}" by auto
  from select_pages_list [OF assms this] show ?thesis
    by (simp add: table_rep_length [OF assms] map_nth)
qed

lemma pick_row_ok: "\<forall>i \<in> set idxs. i < length vals \<Longrightarrow> pick_row idxs vals = Ok (map (\<lambda>i. vals ! i) idxs)"
  by (induction idxs) (auto simp: row_index_def)

lemma select_list_clean:
  assumes "\<forall>hv \<in> set hvs. clean snap tm cols wh hv"
    and "\<forall>hv \<in> set hvs. \<forall>i \<in> set idxs. i < length (snd hv)"
  shows "select_list snap tm cols wh idxs hvs rows =
    Ok (rows @ map (\<lambda>hv. map (\<lambda>i. snd hv ! i) idxs) (filter (matches snap tm cols wh) hvs))"
  using assms
proof (induction hvs arbitrary: rows)
  case (Cons hv hvs)
  then show ?case by (cases hv) (auto simp: row_match_clean pick_row_ok)
qed simp

lemma table_rep_decoded:
  assumes "table_rep f cols hss" and "hv \<in> set (concat hss)"
  shows "\<exists>t. decodes cols t hv"
proof -
  obtain pgs where r: "list_all2 (list_all2 (decodes cols)) pgs hss"
    using assms(1) by (auto simp: table_rep_def)
  obtain i j where "i < length hss" "j < length (hss ! i)" "hv = hss ! i ! j"
    using assms(2) by (fastforce simp: in_set_conv_nth)
  then have "decodes cols (pgs ! i ! j) hv"
    using r by (metis list_all2_lengthD list_all2_nthD2)
  then show ?thesis ..
qed

lemma table_rep_row_length:
  "table_rep f cols hss \<Longrightarrow> hv \<in> set (concat hss) \<Longrightarrow> length (snd hv) = length cols"
  using table_rep_decoded [of f cols hss hv] DecodeTuple_ok(1) [of _ cols "fst hv" "snd hv"]
  by (fastforce simp: decodes_def row_ok_def dest: list_all2_lengthD)

section \<open>DELETE marks the matching versions\<close>

definition mark :: "snapshot \<Rightarrow> txn_manager \<Rightarrow> column_def list \<Rightarrow> expression option \<Rightarrow> u64 \<Rightarrow> version \<Rightarrow> version" where
  "mark snap tm cols wh xid hv =
     (if matches snap tm cols wh hv then ((fst hv)\<lparr>Xmax := xid\<rparr>, snd hv) else hv)"

lemma delete_items_rep:
  assumes rep: "table_rep f cols (hss[i := map (mark snap tm cols wh xid) (take k hs) @ drop k hs])"
    and i: "i < length hss" and k: "k \<le> length hs"
    and sc: "\<And>j. j < length hs \<Longrightarrow> scan_item snap tm cols wh page j = row_match snap tm cols wh (hs ! j)"
    and cl: "\<And>hv. hv \<in> set hs \<Longrightarrow> clean snap tm cols wh hv"
  shows "\<exists>f'. delete_items snap cols wh xid auto i page [k..<length hs] c f tm
      = (Ok (c + length (filter (matches snap tm cols wh) (drop k hs))), f', tm) \<and>
    table_rep f' cols (hss[i := map (mark snap tm cols wh xid) hs])"
  using rep k
proof (induction "length hs - k" arbitrary: k c f)
  case 0
  then show ?case by simp
next
  case (Suc d)
  let ?m = "mark snap tm cols wh xid" and ?hv = "hs ! k"
  have kl: "k < length hs" using Suc.hyps(2) by simp
  have up: "[k..<length hs] = k # [Suc k..<length hs]" using kl by (simp add: upt_conv_Cons)
  have dr: "drop k hs = ?hv # drop (Suc k) hs" using kl by (simp add: Cons_nth_drop_Suc)
  have tk: "take (Suc k) hs = take k hs @ [?hv]" using kl by (simp add: take_Suc_conv_app_nth)
  have rm: "scan_item snap tm cols wh page k = Ok (if matches snap tm cols wh ?hv then Some ?hv else None)"
    using sc [OF kl] cl [of ?hv] kl by (simp add: row_match_clean)
  show ?case
  proof (cases "matches snap tm cols wh ?hv")
    case False
    have "hss[i := map ?m (take (Suc k) hs) @ drop (Suc k) hs] = hss[i := map ?m (take k hs) @ drop k hs]"
      using False by (simp add: tk dr mark_def)
    then show ?thesis
      using Suc.hyps(1) [of "Suc k" f c] Suc.hyps(2) Suc.prems kl False rm by (simp add: up dr)
  next
    case True
    obtain h vs where hv: "?hv = (h, vs)" by (cases ?hv)
    let ?cur = "hss[i := map ?m (take k hs) @ drop k hs]"
    have cur: "?cur ! i = map ?m (take k hs) @ drop k hs" using i by simp
    have at: "?cur ! i ! k = ?hv" using cur kl dr by (simp add: nth_append)
    have "length (?cur ! i) = length hs" using kl by (simp add: cur)
    then obtain f' where u: "UpdateTupleHeader (of_nat i) (of_nat k) (h\<lparr>Xmax := xid\<rparr>) f = (Ok (), f')"
      and r: "table_rep f' cols (?cur[i := (?cur ! i)[k := (h\<lparr>Xmax := xid\<rparr>, snd (?cur ! i ! k))]])"
      using UpdateTupleHeader_table_rep [OF Suc.prems(1), of i k] i kl by (metis length_list_update)
    have "(map ?m (take k hs) @ drop k hs)[k := (h\<lparr>Xmax := xid\<rparr>, vs)] = map ?m (take (Suc k) hs) @ drop (Suc k) hs"
      using kl True by (simp add: list_update_append dr tk mark_def hv)
    then have "table_rep f' cols (hss[i := map ?m (take (Suc k) hs) @ drop (Suc k) hs])"
      using r i at hv by (simp add: cur)
    then show ?thesis
      using Suc.hyps(1) [of "Suc k" f' "Suc c"] Suc.hyps(2) kl True rm u by (simp add: up dr hv)
  qed
qed

end
