(* ===== verification/Dml.thy ===== *)
theory Dml
  imports TableSpec
begin

text \<open>
  The loops of \<open>executeDelete\<close> and \<open>executeUpdate\<close> on the abstract table: the one marks the
  matching versions, the other marks them and appends their successors, which its own scan may
  meet and must not update again.
\<close>

section \<open>DELETE over the pages\<close>

lemma delete_pages_rep:
  assumes "table_rep f cols (map (map (mark snap tm cols wh xid)) (take k hss) @ drop k hss)"
    and "k \<le> length hss" and cl: "\<forall>hv \<in> set (concat hss). clean snap tm cols wh hv"
  shows "\<exists>f'. delete_pages snap cols wh xid auto [k..<length hss] c f tm
      = (Ok (c + length (filter (matches snap tm cols wh) (concat (drop k hss)))), f', tm) \<and>
    table_rep f' cols (map (map (mark snap tm cols wh xid)) hss)"
  using assms(1,2)
proof (induction "length hss - k" arbitrary: k c f)
  case (Suc d)
  let ?m = "map (mark snap tm cols wh xid)"
  let ?cur = "map ?m (take k hss) @ drop k hss" and ?hs = "hss ! k"
  have kl: "k < length hss" using Suc.hyps(2) by simp
  have cur: "?cur ! k = ?hs" "k < length ?cur" using kl by (simp_all add: nth_append)
  obtain page where p: "ReadPage (of_nat k) f = Ok page" "unat (GetItemCount page) = length ?hs"
    and sc: "\<And>j. j < length ?hs \<Longrightarrow> scan_item snap tm cols wh page j = row_match snap tm cols wh (?hs ! j)"
    using ReadPage_table_rep [OF Suc.prems(1) cur(2)] unfolding cur(1) by auto
  have cl': "\<And>hv. hv \<in> set ?hs \<Longrightarrow> clean snap tm cols wh hv" using cl kl by auto
  have "?cur[k := map (mark snap tm cols wh xid) (take 0 ?hs) @ drop 0 ?hs] = ?cur"
    using cur by (simp del: drop_eq_Nil) (metis list_update_id)
  then obtain f1 where i: "delete_items snap cols wh xid auto k page [0..<length ?hs] c f tm
      = (Ok (c + length (filter (matches snap tm cols wh) ?hs)), f1, tm)"
    and r: "table_rep f1 cols (?cur[k := ?m ?hs])"
    using delete_items_rep [of f cols ?cur k snap tm wh xid 0 ?hs page auto c] Suc.prems(1) kl cur(2) sc cl' by auto
  have d: "d = length hss - Suc k" using Suc.hyps(2) by simp
  have e: "?cur[k := ?m ?hs] = map ?m (take (Suc k) hss) @ drop (Suc k) hss"
    using kl by (simp add: list_update_append take_Suc_conv_app_nth Cons_nth_drop_Suc [symmetric])
  then show ?case
    using Suc.hyps(1) [OF d, of f1 "c + length (filter (matches snap tm cols wh) ?hs)"] kl r p i
    by (simp add: e upt_conv_Cons Cons_nth_drop_Suc [symmetric] add.assoc)
qed simp

lemma delete_pages_all:
  assumes "table_rep f cols hss" and "\<forall>hv \<in> set (concat hss). clean snap tm cols wh hv"
  shows "\<exists>f'. delete_pages snap cols wh xid auto [0..<unat (PageCount f)] 0 f tm
      = (Ok (length (filter (matches snap tm cols wh) (concat hss))), f', tm) \<and>
    table_rep f' cols (map (map (mark snap tm cols wh xid)) hss)"
  using delete_pages_rep [of f cols snap tm wh xid 0 hss auto 0] assms by (simp add: table_rep_length)

section \<open>UPDATE marks the old versions and appends the new ones\<close>

text \<open>
  While the scan runs, new versions go behind the old ones, in the last page the table had and
  in pages after it. \<open>extends base cur news\<close>: \<open>cur\<close> are the pages \<open>base\<close> with \<open>news\<close> behind them.
\<close>

definition extends :: "version list list \<Rightarrow> version list list \<Rightarrow> version list \<Rightarrow> bool" where
  "extends base cur news \<longleftrightarrow>
     base \<noteq> [] \<and> (\<exists>tl more. cur = butlast base @ [last base @ tl] @ more \<and> news = tl @ concat more)"

lemma extends_refl: "base \<noteq> [] \<Longrightarrow> extends base base []"
  unfolding extends_def by (intro conjI exI [of _ "[]"]) simp_all

lemma extends_concat: "extends base cur news \<Longrightarrow> concat cur = concat base @ news"
proof -
  assume "extends base cur news"
  then obtain tl more where e: "base \<noteq> []" "cur = butlast base @ [last base @ tl] @ more" "news = tl @ concat more"
    unfolding extends_def by blast
  have "concat base = concat (butlast base) @ last base"
    using e(1) by (metis append_butlast_last_id append_Nil2 concat.simps concat_append)
  with e show ?thesis by simp
qed

lemma extends_nth:
  assumes "extends base cur news" and "i < length base"
  shows "i < length cur" and "\<exists>t. cur ! i = base ! i @ t \<and> set t \<subseteq> set news"
proof -
  obtain tl more where e: "base \<noteq> []" "cur = butlast base @ [last base @ tl] @ more" "news = tl @ concat more"
    using assms(1) unfolding extends_def by blast
  show "i < length cur" using e assms(2) by simp
  show "\<exists>t. cur ! i = base ! i @ t \<and> set t \<subseteq> set news"
  proof (cases "i = length base - 1")
    case True
    then show ?thesis using e by (auto simp: nth_append last_conv_nth intro!: exI [of _ tl])
  next
    case False
    then have "i < length base - 1" using assms(2) by simp
    then have "cur ! i = base ! i" using e by (simp add: nth_append nth_butlast)
    then show ?thesis by (intro exI [of _ "[]"]) simp
  qed
qed

lemma extends_update:
  assumes "extends base cur news" and "i < length base" and "j < length (base ! i)"
  shows "extends (base[i := (base ! i)[j := v]]) (cur[i := (cur ! i)[j := v]]) news"
proof -
  obtain tl more where e: "base \<noteq> []" "cur = butlast base @ [last base @ tl] @ more" "news = tl @ concat more"
    using assms(1) unfolding extends_def by blast
  obtain b l where bl: "base = b @ [l]" using e(1) by (cases base rule: rev_cases) auto
  have "cur = b @ [l @ tl] @ more" using e bl by simp
  then have "base[i := (base ! i)[j := v]] \<noteq> [] \<and>
    cur[i := (cur ! i)[j := v]] = butlast (base[i := (base ! i)[j := v]]) @ [last (base[i := (base ! i)[j := v]]) @ tl] @ more"
    using assms(2,3) bl by (cases "i = length b") (auto simp: list_update_append nth_append)
  then show ?thesis using e(3) unfolding extends_def by blast
qed

lemma extends_added:
  assumes "extends base cur news" and "version_added hv cur cur'"
  shows "extends base cur' (news @ [hv])"
proof -
  obtain tl more where e: "base \<noteq> []" "cur = butlast base @ [last base @ tl] @ more" "news = tl @ concat more"
    using assms(1) unfolding extends_def by blast
  consider (new) "cur' = cur @ [[hv]]" | (last) "cur' = butlast cur @ [last cur @ [hv]]"
    using assms(2) unfolding version_added_def by blast
  then show ?thesis
  proof cases
    case new
    then show ?thesis unfolding extends_def using e by (intro conjI exI [of _ tl] exI [of _ "more @ [[hv]]"]) simp_all
  next
    case last
    show ?thesis
    proof (cases more rule: rev_cases)
      case Nil
      then show ?thesis
        unfolding extends_def using e last by (intro conjI exI [of _ "tl @ [hv]"] exI [of _ "[]"]) (simp_all add: butlast_append)
    next
      case (snoc m x)
      then show ?thesis
        unfolding extends_def using e last by (intro conjI exI [of _ tl] exI [of _ "m @ [x @ [hv]]"]) (simp_all add: butlast_append)
    qed
  qed
qed


definition updated :: "string \<Rightarrow> set_clause list \<Rightarrow> column_def list \<Rightarrow> u64 \<Rightarrow> version \<Rightarrow> version" where
  "updated tn sets cols xid hv =
     (\<lparr>Xmin = xid, Xmax = 0\<rparr>,
      stored_row (case apply_set_clauses tn sets cols (snd hv) of Ok vals \<Rightarrow> vals | _ \<Rightarrow> []))"

text \<open>The new version can be made: the clauses apply, the row fits the columns and fits a page.\<close>

definition update_ok :: "string \<Rightarrow> set_clause list \<Rightarrow> column_def list \<Rightarrow> version \<Rightarrow> bool" where
  "update_ok tn sets cols hv =
     (case apply_set_clauses tn sets cols (snd hv) of Ok vals \<Rightarrow> tuple_fits vals cols | _ \<Rightarrow> False)"

lemma new_version_rep:
  assumes "table_rep f cols cur" and "update_ok tn sets cols hv" and "Suc (length cur) < 2 ^ 32"
  shows "\<exists>f' cur'. new_version tn sets cols xid (snd hv) f = (Ok (), f') \<and> table_rep f' cols cur' \<and>
    version_added (updated tn sets cols xid hv) cur cur'"
proof -
  obtain vals where a: "apply_set_clauses tn sets cols (snd hv) = Ok vals" "tuple_fits vals cols"
    using assms(2) by (auto simp: update_ok_def split: result.splits)
  obtain d where d: "EncodeTuple \<lparr>Xmin = xid, Xmax = 0\<rparr> vals cols = Ok d" "length d + 4 \<le> 8184"
    "DecodeTuple d cols = Ok (\<lparr>Xmin = xid, Xmax = 0\<rparr>, stored_row vals)"
    using tuple_fits_ok(2) [OF a(2)] by blast
  then have "decodes cols d (updated tn sets cols xid hv)" by (simp add: decodes_def updated_def a)
  then obtain loc f' cur' where "InsertTuple d f = (Ok loc, f')" "table_rep f' cols cur'"
    "version_added (updated tn sets cols xid hv) cur cur'"
    using InsertTuple_table_rep [OF assms(1) _ d(2) assms(3)] by blast
  then show ?thesis by (intro exI [of _ f'] exI [of _ cur']) (simp add: new_version_def a d(1))
qed

lemma update_items_skip:
  "\<forall>j \<in> set js. scan_item snap tm cols wh page j = Ok None \<Longrightarrow>
     update_items snap cols tn sets wh xid auto i page js c f tm = (Ok c, f, tm)"
  by (induction js) auto

text \<open>One matching version: it is marked in place and its successor is added behind.\<close>

lemma update_step:
  assumes "table_rep f cols cur" and "extends base cur news" and "i < length base" and "j < length (base ! i)"
    and "base ! i ! j = (h, vs)" and "update_ok tn sets cols (h, vs)" and "Suc (length cur) < 2 ^ 32"
  shows "\<exists>f' f'' cur'. UpdateTupleHeader (of_nat i) (of_nat j) (h\<lparr>Xmax := xid\<rparr>) f = (Ok (), f') \<and>
    new_version tn sets cols xid vs f' = (Ok (), f'') \<and> table_rep f'' cols cur' \<and>
    extends (base[i := (base ! i)[j := (h\<lparr>Xmax := xid\<rparr>, vs)]]) cur' (news @ [updated tn sets cols xid (h, vs)]) \<and>
    length cur' \<le> Suc (length cur)"
proof -
  obtain t where t: "cur ! i = base ! i @ t" and i: "i < length cur" using extends_nth [OF assms(2,3)] by blast
  have at: "j < length (cur ! i)" "cur ! i ! j = (h, vs)" using t assms(4,5) by (simp_all add: nth_append)
  obtain f' where u: "UpdateTupleHeader (of_nat i) (of_nat j) (h\<lparr>Xmax := xid\<rparr>) f = (Ok (), f')"
    and r: "table_rep f' cols (cur[i := (cur ! i)[j := (h\<lparr>Xmax := xid\<rparr>, vs)]])"
    using UpdateTupleHeader_table_rep [OF assms(1) i at(1)] at(2) by fastforce
  obtain f'' cur' where n: "new_version tn sets cols xid vs f' = (Ok (), f'')" "table_rep f'' cols cur'"
    and v: "version_added (updated tn sets cols xid (h, vs)) (cur[i := (cur ! i)[j := (h\<lparr>Xmax := xid\<rparr>, vs)]]) cur'"
    using new_version_rep [OF r assms(6), of xid] assms(7) by auto
  show ?thesis
    using u n extends_added [OF extends_update [OF assms(2-4)] v] length_version_added [OF v] by auto
qed

lemma update_items_rep:
  assumes "table_rep f cols cur" and "k \<le> length hs"
    and "extends (hss[i := map (mark snap tm cols wh xid) (take k hs) @ drop k hs]) cur news"
    and i: "i < length hss"
    and sc: "\<And>j. j < length (hs @ t) \<Longrightarrow> scan_item snap tm cols wh page j = row_match snap tm cols wh ((hs @ t) ! j)"
    and cl: "\<And>hv. hv \<in> set hs \<Longrightarrow> clean snap tm cols wh hv"
    and ok: "\<And>hv. hv \<in> set hs \<Longrightarrow> matches snap tm cols wh hv \<Longrightarrow> update_ok tn sets cols hv"
    and t: "\<And>hv. hv \<in> set t \<Longrightarrow> row_match snap tm cols wh hv = Ok None"
    and "length cur + length (filter (matches snap tm cols wh) (drop k hs)) < 2 ^ 32"
  shows "\<exists>f' cur'. update_items snap cols tn sets wh xid auto i page [k..<length (hs @ t)] c f tm
      = (Ok (c + length (filter (matches snap tm cols wh) (drop k hs))), f', tm) \<and> table_rep f' cols cur' \<and>
    extends (hss[i := map (mark snap tm cols wh xid) hs]) cur'
      (news @ map (updated tn sets cols xid) (filter (matches snap tm cols wh) (drop k hs))) \<and>
    length cur' \<le> length cur + length (filter (matches snap tm cols wh) (drop k hs))"
  using assms(1-3,9)
proof (induction "length hs - k" arbitrary: k c f cur news)
  case 0
  have "\<forall>j \<in> set [k..<length (hs @ t)]. scan_item snap tm cols wh page j = Ok None"
    using sc t [OF nth_mem] 0 by (auto simp: nth_append)
  then have "update_items snap cols tn sets wh xid auto i page [k..<length (hs @ t)] c f tm = (Ok c, f, tm)"
    by (rule update_items_skip)
  then show ?case using 0 by auto
next
  case (Suc d)
  let ?m = "mark snap tm cols wh xid" and ?hv = "hs ! k"
  let ?base = "hss[i := map ?m (take k hs) @ drop k hs]"
  have kl: "k < length hs" and d: "d = length hs - Suc k" using Suc.hyps(2) by simp_all
  have up: "[k..<length hs + length t] = k # [Suc k..<length hs + length t]" using kl by (simp add: upt_conv_Cons)
  have dr: "drop k hs = ?hv # drop (Suc k) hs" using kl by (simp add: Cons_nth_drop_Suc)
  have tk: "take (Suc k) hs = take k hs @ [?hv]" using kl by (simp add: take_Suc_conv_app_nth)
  have rm: "scan_item snap tm cols wh page k = Ok (if matches snap tm cols wh ?hv then Some ?hv else None)"
    using sc [of k] cl [of ?hv] kl by (simp add: row_match_clean nth_append)
  show ?case
  proof (cases "matches snap tm cols wh ?hv")
    case False
    have "hss[i := map ?m (take (Suc k) hs) @ drop (Suc k) hs] = ?base"
      using False by (simp add: tk dr mark_def)
    then show ?thesis
      using Suc.hyps(1) [of "Suc k" f cur news c] Suc.hyps(2) Suc.prems kl False rm by (simp add: up dr)
  next
    case True
    obtain h vs where hv: "?hv = (h, vs)" by (cases ?hv)
    have bi: "?base ! i = map ?m (take k hs) @ drop k hs" "i < length ?base" using i by simp_all
    have at: "k < length (?base ! i)" "?base ! i ! k = (h, vs)" using bi kl dr hv by (simp_all add: nth_append)
    have uo: "update_ok tn sets cols (h, vs)" using ok [OF nth_mem [OF kl] True] hv by simp
    have room: "Suc (length cur) < 2 ^ 32" using Suc.prems(4) True by (simp add: dr)
    obtain f' f'' cur' where u: "UpdateTupleHeader (of_nat i) (of_nat k) (h\<lparr>Xmax := xid\<rparr>) f = (Ok (), f')"
      "new_version tn sets cols xid vs f' = (Ok (), f'')" "table_rep f'' cols cur'" "length cur' \<le> Suc (length cur)"
      and e: "extends (?base[i := (?base ! i)[k := (h\<lparr>Xmax := xid\<rparr>, vs)]]) cur' (news @ [updated tn sets cols xid (h, vs)])"
      using update_step [OF Suc.prems(1,3) bi(2) at uo room] by blast
    have "(map ?m (take k hs) @ drop k hs)[k := (h\<lparr>Xmax := xid\<rparr>, vs)] = map ?m (take (Suc k) hs) @ drop (Suc k) hs"
      using kl True by (simp add: list_update_append dr tk mark_def hv)
    then have e': "extends (hss[i := map ?m (take (Suc k) hs) @ drop (Suc k) hs]) cur' (news @ [updated tn sets cols xid (h, vs)])"
      using e i by simp
    have "length cur' + length (filter (matches snap tm cols wh) (drop (Suc k) hs)) < 2 ^ 32"
      using Suc.prems(4) True u(4) by (simp add: dr)
    then obtain f3 cur3 where "update_items snap cols tn sets wh xid auto i page [Suc k..<length (hs @ t)] (Suc c) f'' tm
      = (Ok (Suc c + length (filter (matches snap tm cols wh) (drop (Suc k) hs))), f3, tm)" "table_rep f3 cols cur3"
      "extends (hss[i := map ?m hs]) cur3 ((news @ [updated tn sets cols xid (h, vs)])
        @ map (updated tn sets cols xid) (filter (matches snap tm cols wh) (drop (Suc k) hs)))"
      "length cur3 \<le> length cur' + length (filter (matches snap tm cols wh) (drop (Suc k) hs))"
      using Suc.hyps(1) [OF d u(3) _ e', of "Suc c"] kl by auto
    then show ?thesis using True rm u hv by (intro exI [of _ f3] exI [of _ cur3]) (simp add: up dr)
  qed
qed

lemma row_match_invisible: "\<not> isXIDCommitted (Xmin (fst hv)) snap tm \<Longrightarrow> row_match snap tm cols wh hv = Ok None"
  by (simp add: row_match_def IsVisible_iff)

text \<open>
  The scan may meet the versions it has added itself, when they went to the last page before
  the scan reached it. It skips them, because their transaction is not committed.
\<close>

lemma update_pages_rep:
  assumes "table_rep f cols cur" and "k \<le> length hss"
    and "hss \<noteq> [] \<Longrightarrow> extends (map (map (mark snap tm cols wh xid)) (take k hss) @ drop k hss) cur news"
    and "hss = [] \<Longrightarrow> cur = [] \<and> news = []"
    and "\<forall>hv \<in> set news. Xmin (fst hv) = xid"
    and x: "\<not> isXIDCommitted xid snap tm"
    and cl: "\<And>hv. hv \<in> set (concat hss) \<Longrightarrow> clean snap tm cols wh hv"
    and ok: "\<And>hv. hv \<in> set (concat hss) \<Longrightarrow> matches snap tm cols wh hv \<Longrightarrow> update_ok tn sets cols hv"
    and "length cur + length (filter (matches snap tm cols wh) (concat (drop k hss))) < 2 ^ 32"
  shows "\<exists>f' cur'. update_pages snap cols tn sets wh xid auto [k..<length hss] c f tm
      = (Ok (c + length (filter (matches snap tm cols wh) (concat (drop k hss)))), f', tm) \<and> table_rep f' cols cur' \<and>
    concat cur' = map (mark snap tm cols wh xid) (concat hss) @ news
      @ map (updated tn sets cols xid) (filter (matches snap tm cols wh) (concat (drop k hss))) \<and>
    length cur' \<le> length cur + length (filter (matches snap tm cols wh) (concat (drop k hss)))"
  using assms(1-5,9)
proof (induction "length hss - k" arbitrary: k c f cur news)
  case 0
  then have "concat cur = map (mark snap tm cols wh xid) (concat hss) @ news"
    by (cases "hss = []") (auto dest: extends_concat simp: map_concat)
  with 0 show ?case by auto
next
  case (Suc d)
  let ?m = "mark snap tm cols wh xid" and ?hs = "hss ! k" and ?M = "filter (matches snap tm cols wh)"
  let ?base = "map (map ?m) (take k hss) @ drop k hss"
  have kl: "k < length hss" "hss \<noteq> []" and d: "d = length hss - Suc k" using Suc.hyps(2) by auto
  have dr: "drop k hss = ?hs # drop (Suc k) hss" using kl by (simp add: Cons_nth_drop_Suc)
  have bk: "?base ! k = ?hs" "k < length ?base" using kl by (simp_all add: nth_append)
  note ext = Suc.prems(3) [OF kl(2)]
  obtain t where t: "cur ! k = ?hs @ t" "set t \<subseteq> set news" and kc: "k < length cur"
    using extends_nth [OF ext bk(2)] unfolding bk(1) by blast
  obtain page where p: "ReadPage (of_nat k) f = Ok page" "unat (GetItemCount page) = length (?hs @ t)"
    and sc: "\<And>j. j < length (?hs @ t) \<Longrightarrow> scan_item snap tm cols wh page j = row_match snap tm cols wh ((?hs @ t) ! j)"
    using ReadPage_table_rep [OF Suc.prems(1) kc] unfolding t(1) by blast
  have own: "row_match snap tm cols wh hv = Ok None" if "hv \<in> set t" for hv
    using that t(2) Suc.prems(5) x by (intro row_match_invisible) auto
  have cl': "clean snap tm cols wh hv" and ok': "matches snap tm cols wh hv \<Longrightarrow> update_ok tn sets cols hv"
    if "hv \<in> set ?hs" for hv
    using that cl [of hv] ok [of hv] nth_mem [OF kl(1)] by auto
  have "extends (?base[k := map ?m (take 0 ?hs) @ drop 0 ?hs]) cur news"
    using ext bk by (simp del: drop_append) (metis list_update_id)
  then obtain f1 cur1 where i: "update_items snap cols tn sets wh xid auto k page [0..<length (?hs @ t)] c f tm
      = (Ok (c + length (?M ?hs)), f1, tm)" "table_rep f1 cols cur1"
    and e: "extends (?base[k := map ?m ?hs]) cur1 (news @ map (updated tn sets cols xid) (?M ?hs))"
    and l: "length cur1 \<le> length cur + length (?M ?hs)"
    using update_items_rep [of f cols cur 0 ?hs ?base k snap tm wh xid news t page tn sets auto c]
      Suc.prems(1,6) bk(2) sc cl' ok' own by (auto simp: dr)
  have nb: "?base[k := map ?m ?hs] = map (map ?m) (take (Suc k) hss) @ drop (Suc k) hss"
    using kl by (simp add: list_update_append take_Suc_conv_app_nth Cons_nth_drop_Suc [symmetric])
  have own': "\<forall>hv \<in> set (news @ map (updated tn sets cols xid) (?M ?hs)). Xmin (fst hv) = xid"
    using Suc.prems(5) by (auto simp: updated_def)
  obtain f2 cur2 where "update_pages snap cols tn sets wh xid auto [Suc k..<length hss] (c + length (?M ?hs)) f1 tm
      = (Ok (c + length (?M ?hs) + length (?M (concat (drop (Suc k) hss)))), f2, tm)" "table_rep f2 cols cur2"
    "concat cur2 = map ?m (concat hss) @ (news @ map (updated tn sets cols xid) (?M ?hs))
      @ map (updated tn sets cols xid) (?M (concat (drop (Suc k) hss)))"
    "length cur2 \<le> length cur1 + length (?M (concat (drop (Suc k) hss)))"
    using Suc.hyps(1) [OF d i(2) _ e [unfolded nb] _ own', of "c + length (?M ?hs)"] kl l Suc.prems(6)
    by (auto simp: dr)
  then show ?case
    using p i kl l by (intro exI [of _ f2] exI [of _ cur2]) (simp add: upt_conv_Cons dr add.assoc)
qed

lemma update_pages_all:
  assumes "table_rep f cols hss" and "\<not> isXIDCommitted xid snap tm"
    and "\<And>hv. hv \<in> set (concat hss) \<Longrightarrow> clean snap tm cols wh hv"
    and "\<And>hv. hv \<in> set (concat hss) \<Longrightarrow> matches snap tm cols wh hv \<Longrightarrow> update_ok tn sets cols hv"
    and "length hss + length (filter (matches snap tm cols wh) (concat hss)) < 2 ^ 32"
  shows "\<exists>f' hss'. update_pages snap cols tn sets wh xid auto [0..<unat (PageCount f)] 0 f tm
      = (Ok (length (filter (matches snap tm cols wh) (concat hss))), f', tm) \<and> table_rep f' cols hss' \<and>
    concat hss' = map (mark snap tm cols wh xid) (concat hss)
      @ map (updated tn sets cols xid) (filter (matches snap tm cols wh) (concat hss)) \<and>
    length hss' \<le> length hss + length (filter (matches snap tm cols wh) (concat hss))"
  using update_pages_rep [of f cols hss 0 hss snap tm wh xid "[]" tn sets auto 0] assms extends_refl [of hss]
  by (auto simp: table_rep_length)

end
