(* ===== verification/Statements.thy ===== *)
theory Statements
  imports Dml
begin

text \<open>
  What the statements of \<open>internal/executor/executor.go\<close> do to the rows a client sees. A row
  version is live when the transaction that made it committed and the one that deleted it, if
  any, did not; the rows of a table are the values of its live versions. A statement that
  commits by itself changes them at once, a statement of an open transaction leaves them as they
  are until its transaction commits, and one that aborts never changes them.
\<close>

section \<open>Committed transactions and live versions\<close>

definition committed :: "txn_manager \<Rightarrow> u64 \<Rightarrow> bool" where
  "committed tm x \<longleftrightarrow> GetStatus x tm = Committed"

definition txn_inv :: "txn_manager \<Rightarrow> bool" where
  "txn_inv tm \<longleftrightarrow>
     nextXID tm \<noteq> - 1 \<and>
     (\<forall>(x, st) \<in> set (statuses tm). st \<noteq> InProgress \<and> 0 < x \<and> x \<le> nextXID tm)"

definition xid_room :: "txn_manager \<Rightarrow> bool" where
  "xid_room tm \<longleftrightarrow> unat (nextXID tm) + 2 < 2 ^ 64"

definition live :: "txn_manager \<Rightarrow> version \<Rightarrow> bool" where
  "live tm hv \<longleftrightarrow> committed tm (Xmin (fst hv)) \<and> \<not> committed tm (Xmax (fst hv))"

definition rows_of :: "txn_manager \<Rightarrow> version list \<Rightarrow> any list list" where
  "rows_of tm hvs = map snd (filter (live tm) hvs)"

lemma txn_inv_committed: "txn_inv tm \<Longrightarrow> committed tm x \<Longrightarrow> 0 < x \<and> x \<le> nextXID tm"
  by (auto simp: committed_def GetStatus_def txn_inv_def dest!: map_of_SomeD split: option.splits)

lemma txn_inv_Xip: "txn_inv tm \<Longrightarrow> set (snap_Xip (TakeSnapshot tm)) = {}"
  by (auto simp: set_snap_Xip txn_inv_def)

lemma unat_Suc_nextXID: "txn_inv tm \<Longrightarrow> unat (nextXID tm + 1) = Suc (unat (nextXID tm))"
  by (rule unat_Suc_no_wrap) (auto simp: txn_inv_def)

text \<open>A snapshot taken now sees exactly the committed transactions.\<close>

lemma isXIDCommitted_now:
  assumes "txn_inv tm"
  shows "isXIDCommitted x (TakeSnapshot tm) tm \<longleftrightarrow> committed tm x"
proof -
  have "committed tm x \<Longrightarrow> x < nextXID tm + 1"
    using txn_inv_committed [OF assms, of x] unat_Suc_nextXID [OF assms] by (simp add: word_less_nat_alt word_le_nat_alt)
  then show ?thesis
    using txn_inv_Xip [OF assms] by (auto simp: isXIDCommitted_def committed_def)
qed

lemma IsVisible_now:
  "txn_inv tm \<Longrightarrow> IsVisible (Xmin (fst hv)) (Xmax (fst hv)) (TakeSnapshot tm) tm \<longleftrightarrow> live tm hv"
  using txn_inv_committed [of tm 0] by (auto simp: IsVisible_iff isXIDCommitted_now live_def)

lemma set_alist_update: "p \<in> set (AList.update k v xs) \<Longrightarrow> p = (k, v) \<or> p \<in> set xs"
  by (induction xs) (auto split: if_splits)

lemma committed_SetStatus: "committed (SetStatus y st tm) x \<longleftrightarrow> (if x = y then st = Committed else committed tm x)"
  by (simp add: committed_def clog.get_set)

lemma committed_NextXID: "committed (snd (NextXID tm)) x \<longleftrightarrow> committed tm x"
  by (simp add: committed_def)

lemma txn_inv_SetStatus:
  "txn_inv tm \<Longrightarrow> st \<noteq> InProgress \<Longrightarrow> 0 < y \<Longrightarrow> y \<le> nextXID tm \<Longrightarrow> txn_inv (SetStatus y st tm)"
  by (auto simp: txn_inv_def SetStatus_def dest!: set_alist_update)

section \<open>The \<open>WHERE\<close> clause\<close>

definition where_true :: "column_def list \<Rightarrow> expression option \<Rightarrow> any list \<Rightarrow> bool" where
  "where_true cols wh vals =
     (case wh of None \<Rightarrow> True | Some w \<Rightarrow> evalExpr w vals cols = Ok (Some (VBool True)))"

definition where_ok :: "column_def list \<Rightarrow> expression option \<Rightarrow> any list \<Rightarrow> bool" where
  "where_ok cols wh vals =
     (case wh of None \<Rightarrow> True | Some w \<Rightarrow> (case evalExpr w vals cols of Ok _ \<Rightarrow> True | _ \<Rightarrow> False))"

lemma matches_iff:
  "matches snap tm cols wh hv \<longleftrightarrow>
     IsVisible (Xmin (fst hv)) (Xmax (fst hv)) snap tm \<and> where_true cols wh (snd hv)"
  by (auto simp: matches_def row_match_def where_true_def result_iff split: option.splits)

lemma clean_iff:
  "clean snap tm cols wh hv \<longleftrightarrow>
     (IsVisible (Xmin (fst hv)) (Xmax (fst hv)) snap tm \<longrightarrow> where_ok cols wh (snd hv))"
  by (auto simp: clean_def row_match_def where_ok_def split: option.splits result.splits)

section \<open>Marked and new versions\<close>

lemma live_mark:
  "\<not> committed tm xid \<Longrightarrow> (\<And>hv. matches snap tm' cols wh hv \<Longrightarrow> live tm hv) \<Longrightarrow>
     live tm (mark snap tm' cols wh xid hv) = live tm hv"
  by (auto simp: mark_def live_def)

lemma snd_mark [simp]: "snd (mark snap tm cols wh xid hv) = snd hv"
  by (simp add: mark_def)

text \<open>Marks of a transaction that has not committed change nothing.\<close>

lemma rows_of_mark:
  assumes "\<not> committed tm xid" and "\<And>hv. matches snap tm' cols wh hv \<Longrightarrow> live tm hv"
  shows "rows_of tm (map (mark snap tm' cols wh xid) hvs) = rows_of tm hvs"
  using live_mark [OF assms] by (simp add: rows_of_def filter_map o_def)

lemma rows_of_append [simp]: "rows_of tm (xs @ ys) = rows_of tm xs @ rows_of tm ys"
  by (simp add: rows_of_def)

lemma rows_of_new: "\<forall>hv \<in> set hvs. \<not> committed tm (Xmin (fst hv)) \<Longrightarrow> rows_of tm hvs = []"
  by (auto simp: rows_of_def live_def filter_empty_conv)

text \<open>\<open>below tm hvs\<close>: no version names a transaction that has not begun.\<close>

definition below :: "txn_manager \<Rightarrow> version list \<Rightarrow> bool" where
  "below tm hvs \<longleftrightarrow> (\<forall>hv \<in> set hvs. Xmin (fst hv) \<le> nextXID tm \<and> Xmax (fst hv) \<le> nextXID tm)"

lemma rows_of_commit_frame:
  assumes "\<And>x. committed tm' x \<longleftrightarrow> x = xid \<or> committed tm x"
    and "\<forall>hv \<in> set hvs. Xmin (fst hv) \<noteq> xid \<and> Xmax (fst hv) \<noteq> xid"
  shows "rows_of tm' hvs = rows_of tm hvs"
proof -
  have "filter (live tm') hvs = filter (live tm) hvs"
    using assms by (intro filter_cong) (auto simp: live_def)
  then show ?thesis by (simp add: rows_of_def)
qed

text \<open>Once the transaction commits, the marked versions are gone and the others are as before.\<close>

lemma rows_of_mark_commit:
  assumes "\<And>x. committed tm' x \<longleftrightarrow> x = xid \<or> committed tm x"
    and "\<forall>hv \<in> set hvs. Xmin (fst hv) \<noteq> xid \<and> Xmax (fst hv) \<noteq> xid"
    and "\<And>hv. matches snap tms cols wh hv \<longleftrightarrow> live tm hv \<and> where_true cols wh (snd hv)"
  shows "rows_of tm' (map (mark snap tms cols wh xid) hvs) = filter (\<lambda>r. \<not> where_true cols wh r) (rows_of tm hvs)"
  using assms(2)
proof (induction hvs)
  case (Cons hv hvs)
  have "live tm' (mark snap tms cols wh xid hv) \<longleftrightarrow> live tm hv \<and> \<not> where_true cols wh (snd hv)"
    using Cons.prems assms(1,3) by (auto simp: mark_def live_def)
  then show ?case using Cons by (simp add: rows_of_def)
qed (simp add: rows_of_def)

lemma rows_of_updated_commit:
  assumes "committed tm' xid" and "\<not> committed tm' 0"
  shows "rows_of tm' (map (updated tn sets cols xid) hvs) = map (\<lambda>hv. snd (updated tn sets cols xid hv)) hvs"
  using assms by (simp add: rows_of_def live_def updated_def filter_map o_def)

lemma txn_inv_NextXID: "txn_inv tm \<Longrightarrow> xid_room tm \<Longrightarrow> txn_inv (snd (NextXID tm))"
proof -
  assume i: "txn_inv tm" and r: "xid_room tm"
  have n: "unat (nextXID tm + 1) = Suc (unat (nextXID tm))" using i by (rule unat_Suc_nextXID)
  have "nextXID tm + 1 \<noteq> - 1"
  proof
    assume "nextXID tm + 1 = - 1"
    with n have "Suc (unat (nextXID tm)) = unat (- 1 :: u64)" by simp
    with r show False by (simp add: xid_room_def unsigned_minus_1_eq_mask mask_eq_exp_minus_1)
  qed
  moreover have "x \<le> nextXID tm \<Longrightarrow> x \<le> nextXID tm + 1" for x
    using n by (simp add: word_le_nat_alt)
  ultimately show ?thesis using i by (auto simp: txn_inv_def NextXID_def Let_def)
qed

text \<open>The identifier a statement takes for itself is new.\<close>

lemma NextXID_fresh:
  assumes "txn_inv tm" and "NextXID tm = (xid, tm')"
  shows "0 < xid" and "nextXID tm' = xid" and "\<not> x \<le> nextXID tm \<or> x \<noteq> xid" and "\<not> committed tm xid"
proof -
  have n: "unat (nextXID tm + 1) = Suc (unat (nextXID tm))" using assms(1) by (rule unat_Suc_nextXID)
  have x: "xid = nextXID tm + 1" "nextXID tm' = xid" using assms(2) by (auto simp: NextXID_def Let_def)
  show "0 < xid" using n x by (simp add: word_less_nat_alt)
  show "nextXID tm' = xid" using x by simp
  show f: "\<not> x \<le> nextXID tm \<or> x \<noteq> xid" for x using n x by (auto simp: word_le_nat_alt)
  show "\<not> committed tm xid" using f [of xid] txn_inv_committed [OF assms(1), of xid] by auto
qed

section \<open>Tables of a database\<close>

definition file_of :: "db \<Rightarrow> u32 \<Rightarrow> heap_bytes" where
  "file_of d oid = (case db_files d oid of None \<Rightarrow> [] | Some f \<Rightarrow> f)"

definition db_table :: "db \<Rightarrow> string \<Rightarrow> table_def \<Rightarrow> version list \<Rightarrow> bool" where
  "db_table d tname table hvs \<longleftrightarrow>
     GetTable ''public'' tname (db_catalog d) = Ok table \<and>
     (\<exists>hss. table_rep (file_of d (tbl_OID table)) (tbl_Columns table) hss \<and> concat hss = hvs)"

lemma NewHeapFile_file_of:
  "NewHeapFile oid d = (f, d1) \<Longrightarrow>
     f = file_of d oid \<and> file_of d1 = file_of d \<and> db_catalog d1 = db_catalog d \<and> db_txn d1 = db_txn d"
  by (auto simp: NewHeapFile_def file_of_def split: option.splits)

lemma file_of_set_file [simp]: "file_of (set_file oid f d) = (file_of d)(oid := f)"
  by (auto simp: file_of_def set_file_def)

lemma set_file_simps [simp]:
  "db_catalog (set_file oid f d) = db_catalog d" "db_txn (set_file oid f d) = db_txn d"
  by (simp_all add: set_file_def)

lemma file_of_txn [simp]: "file_of (d\<lparr>db_txn := t\<rparr>) = file_of d"
  by (rule ext) (simp add: file_of_def)

text \<open>The executor that the server makes for a statement outside a transaction block.\<close>

definition session :: "u64 \<Rightarrow> db \<Rightarrow> executor" where
  "session xid d = \<lparr>ex_txnXID = xid, ex_snapShot = TakeSnapshot (db_txn d)\<rparr>"

section \<open>SELECT\<close>

definition pick :: "nat list \<Rightarrow> any list \<Rightarrow> any list" where
  "pick idxs row = map (\<lambda>i. row ! i) idxs"

definition projection :: "string list \<Rightarrow> column_def list \<Rightarrow> (column_def list \<times> nat list) result" where
  "projection names tcols =
     (if names = [''*''] then Ok (tcols, [0..<length tcols]) else select_columns names tcols)"

lemma select_columns_ok:
  "select_columns names tcols = Ok (cs, is) \<Longrightarrow>
     (\<forall>i \<in> set is. i < length tcols) \<and> cs = map (\<lambda>i. tcols ! i) is \<and> map col_Name cs = names"
  by (induction names arbitrary: cs "is") (auto simp: result_iff dest: find_column_Some split: option.splits)

lemma projection_ok:
  "projection names tcols = Ok (cs, is) \<Longrightarrow> (\<forall>i \<in> set is. i < length tcols) \<and> cs = map (\<lambda>i. tcols ! i) is"
  by (auto simp: projection_def map_nth dest: select_columns_ok split: if_splits)

lemma executeSelect_rows:
  assumes "db_table d tname table hvs" and "txn_inv (db_txn d)"
    and "projection names (tbl_Columns table) = Ok (cs, is)"
    and "\<forall>r \<in> set (rows_of (db_txn d) hvs). where_ok (tbl_Columns table) wh r"
  shows "fst (executeSelect (session xid d) names tname wh d) =
    (let rows = map (pick is) (filter (where_true (tbl_Columns table) wh) (rows_of (db_txn d) hvs))
     in Ok \<lparr>res_Tag = ''SELECT '' @ FormatInt (int (length rows)), res_Columns = cs, res_Rows = rows\<rparr>)"
proof -
  let ?cols = "tbl_Columns table" and ?tm = "db_txn d" and ?snap = "TakeSnapshot (db_txn d)"
  obtain hss where t: "GetTable ''public'' tname (db_catalog d) = Ok table"
    and r: "table_rep (file_of d (tbl_OID table)) ?cols hss" and h: "concat hss = hvs"
    using assms(1) by (auto simp: db_table_def)
  obtain f d1 where n: "NewHeapFile (tbl_OID table) d = (f, d1)" by (cases "NewHeapFile (tbl_OID table) d")
  have f: "f = file_of d (tbl_OID table)" "db_txn d1 = ?tm" using NewHeapFile_file_of [OF n] by simp_all
  have vis: "IsVisible (Xmin (fst hv)) (Xmax (fst hv)) ?snap ?tm \<longleftrightarrow> live ?tm hv" for hv
    using assms(2) by (rule IsVisible_now)
  have cl: "\<forall>hv \<in> set hvs. clean ?snap ?tm ?cols wh hv"
    using assms(4) by (auto simp: clean_iff vis rows_of_def)
  have ix: "\<forall>hv \<in> set hvs. \<forall>i \<in> set is. i < length (snd hv)"
    using projection_ok [OF assms(3)] table_rep_row_length [OF r] h by auto
  have "select_pages ?snap ?tm ?cols wh is f [0..<unat (PageCount f)] [] =
      Ok (map (\<lambda>hv. map (\<lambda>i. snd hv ! i) is) (filter (matches ?snap ?tm ?cols wh) hvs))"
    using select_pages_all [OF r] select_list_clean [OF cl ix] h by (simp add: f)
  moreover have "map (\<lambda>hv. map (\<lambda>i. snd hv ! i) is) (filter (matches ?snap ?tm ?cols wh) hvs) =
      map (pick is) (filter (where_true ?cols wh) (rows_of ?tm hvs))"
    by (induction hvs) (auto simp: rows_of_def matches_iff vis pick_def)
  ultimately show ?thesis
    using t n f assms(3) by (simp add: executeSelect_def session_def projection_def Let_def)
qed

section \<open>DELETE and UPDATE\<close>

text \<open>
  What every data-changing statement leaves: new versions in its own table, a new state of the
  transaction manager, and nothing else touched.
\<close>

definition dml_post :: "nat \<Rightarrow> db \<Rightarrow> string \<Rightarrow> table_def \<Rightarrow> txn_manager \<Rightarrow> version list \<Rightarrow> db \<Rightarrow> bool" where
  "dml_post k d tname table tm' hvs' d' \<longleftrightarrow>
     unat (PageCount (file_of d' (tbl_OID table))) \<le> unat (PageCount (file_of d (tbl_OID table))) + k \<and>
     db_table d' tname table hvs' \<and> db_txn d' = tm' \<and> db_catalog d' = db_catalog d \<and>
     (\<forall>oid. oid \<noteq> tbl_OID table \<longrightarrow> file_of d' oid = file_of d oid)"

definition after_txn :: "u64 \<Rightarrow> bool \<Rightarrow> txn_manager \<Rightarrow> txn_manager" where
  "after_txn xid auto tm = (if auto then Commit xid tm else tm)"

lemma dml_post_mono: "k \<le> m \<Longrightarrow> dml_post k d tname table tm' hvs' d' \<Longrightarrow> dml_post m d tname table tm' hvs' d'"
  by (auto simp: dml_post_def)

lemma finish_dml_post:
  assumes "NewHeapFile (tbl_OID table) d = (f, d1)" and "GetTable ''public'' tname (db_catalog d) = Ok table"
    and "table_rep f' (tbl_Columns table) hss'" and "unat (PageCount f') \<le> unat (PageCount f) + k"
  shows "\<exists>d'. finish_dml tag xid auto (tbl_OID table) (Ok n, f', tm1) d1 = (Ok (tag_only (tag @ FormatInt (int n))), d') \<and>
    dml_post k d tname table (after_txn xid auto tm1) (concat hss') d'"
  using NewHeapFile_file_of [OF assms(1)] assms(2-4)
  by (auto simp: finish_dml_def Let_def dml_post_def db_table_def after_txn_def)

lemma GetStatus_auto:
  "getAutoCommitWithXID e tm = (xid, auto, tm1) \<Longrightarrow> GetStatus x tm1 = GetStatus x tm \<and> committed tm1 x = committed tm x"
  by (auto simp: getAutoCommitWithXID_def Let_def NextXID_def GetStatus_def committed_def split: if_splits)

lemma scan_now:
  assumes "txn_inv tm" and "getAutoCommitWithXID e tm = (xid, auto, tm1)"
  shows "matches (TakeSnapshot tm) tm1 cols wh hv \<longleftrightarrow> live tm hv \<and> where_true cols wh (snd hv)"
    and "clean (TakeSnapshot tm) tm1 cols wh hv \<longleftrightarrow> (live tm hv \<longrightarrow> where_ok cols wh (snd hv))"
proof -
  have "isXIDCommitted x (TakeSnapshot tm) tm1 = isXIDCommitted x (TakeSnapshot tm) tm" for x
    using GetStatus_auto [OF assms(2)] by (simp add: isXIDCommitted_def)
  then have "IsVisible a b (TakeSnapshot tm) tm1 = IsVisible a b (TakeSnapshot tm) tm" for a b
    by (simp add: IsVisible_iff)
  then show "matches (TakeSnapshot tm) tm1 cols wh hv \<longleftrightarrow> live tm hv \<and> where_true cols wh (snd hv)"
    and "clean (TakeSnapshot tm) tm1 cols wh hv \<longleftrightarrow> (live tm hv \<longrightarrow> where_ok cols wh (snd hv))"
    using IsVisible_now [OF assms(1), of hv] by (simp_all add: matches_iff clean_iff)
qed

lemma length_matches:
  "(\<And>hv. matches snap tm1 cols wh hv \<longleftrightarrow> live tm hv \<and> where_true cols wh (snd hv)) \<Longrightarrow>
     length (filter (matches snap tm1 cols wh) hvs) = length (filter (where_true cols wh) (rows_of tm hvs))"
  by (induction hvs) (auto simp: rows_of_def)

lemma executeDelete_rep:
  assumes "db_table d tname table hvs" and "txn_inv (db_txn d)"
    and "\<forall>r \<in> set (rows_of (db_txn d) hvs). where_ok (tbl_Columns table) wh r"
    and "getAutoCommitWithXID (session x d) (db_txn d) = (xid, auto, tm1)"
  shows "\<exists>d'. executeDelete (session x d) tname wh d =
      (Ok (tag_only (''DELETE '' @ FormatInt (int (length (filter (where_true (tbl_Columns table) wh) (rows_of (db_txn d) hvs)))))), d') \<and>
    dml_post 0 d tname table (after_txn xid auto tm1)
      (map (mark (TakeSnapshot (db_txn d)) tm1 (tbl_Columns table) wh xid) hvs) d'"
proof -
  let ?cols = "tbl_Columns table" and ?snap = "TakeSnapshot (db_txn d)"
  obtain hss where t: "GetTable ''public'' tname (db_catalog d) = Ok table"
    and r: "table_rep (file_of d (tbl_OID table)) ?cols hss" and h: "concat hss = hvs"
    using assms(1) by (auto simp: db_table_def)
  obtain f d1 where n: "NewHeapFile (tbl_OID table) d = (f, d1)" by (cases "NewHeapFile (tbl_OID table) d")
  have f: "f = file_of d (tbl_OID table)" "db_txn d1 = db_txn d" using NewHeapFile_file_of [OF n] by simp_all
  have "\<forall>hv \<in> set (concat hss). clean ?snap tm1 ?cols wh hv"
    using assms(3) h by (auto simp: scan_now [OF assms(2,4)] rows_of_def)
  then obtain f' where del: "delete_pages ?snap ?cols wh xid auto [0..<unat (PageCount f)] 0 f tm1
      = (Ok (length (filter (matches ?snap tm1 ?cols wh) hvs)), f', tm1)"
    and r': "table_rep f' ?cols (map (map (mark ?snap tm1 ?cols wh xid)) hss)"
    using delete_pages_all [OF r [folded f(1)]] h by blast
  have c: "concat (map (map (mark ?snap tm1 ?cols wh xid)) hss) = map (mark ?snap tm1 ?cols wh xid) hvs"
    by (simp add: h [symmetric] map_concat)
  have pc: "unat (PageCount f') \<le> unat (PageCount f) + 0"
    using table_rep_length [OF r'] table_rep_length [OF r [folded f(1)]] by simp
  have "executeDelete (session x d) tname wh d =
      finish_dml ''DELETE '' xid auto (tbl_OID table) (Ok (length (filter (matches ?snap tm1 ?cols wh) hvs)), f', tm1) d1"
    using t n f(2) assms(4) del by (simp add: executeDelete_def session_def)
  then show ?thesis
    using finish_dml_post [OF n t r' pc, of "''DELETE ''" xid auto _ tm1] length_matches [OF scan_now(1) [OF assms(2,4)], of ?cols wh hvs]
    unfolding c by metis
qed

lemma executeUpdate_rep:
  assumes "db_table d tname table hvs" and "txn_inv (db_txn d)"
    and "\<forall>r \<in> set (rows_of (db_txn d) hvs). where_ok (tbl_Columns table) wh r"
    and "\<forall>hv \<in> set hvs. live (db_txn d) hv \<and> where_true (tbl_Columns table) wh (snd hv) \<longrightarrow>
           update_ok tname sets (tbl_Columns table) hv"
    and "unat (PageCount (file_of d (tbl_OID table))) + length (rows_of (db_txn d) hvs) < 2 ^ 32"
    and "getAutoCommitWithXID (session x d) (db_txn d) = (xid, auto, tm1)" and "\<not> committed (db_txn d) xid"
  shows "\<exists>d'. executeUpdate (session x d) tname sets wh d =
      (Ok (tag_only (''UPDATE '' @ FormatInt (int (length (filter (where_true (tbl_Columns table) wh) (rows_of (db_txn d) hvs)))))), d') \<and>
    dml_post (length (rows_of (db_txn d) hvs)) d tname table (after_txn xid auto tm1)
      (map (mark (TakeSnapshot (db_txn d)) tm1 (tbl_Columns table) wh xid) hvs @
       map (updated tname sets (tbl_Columns table) xid)
         (filter (\<lambda>hv. live (db_txn d) hv \<and> where_true (tbl_Columns table) wh (snd hv)) hvs)) d'"
proof -
  let ?cols = "tbl_Columns table" and ?snap = "TakeSnapshot (db_txn d)" and ?tm = "db_txn d"
  let ?M = "matches ?snap tm1 ?cols wh"
  obtain hss where t: "GetTable ''public'' tname (db_catalog d) = Ok table"
    and r: "table_rep (file_of d (tbl_OID table)) ?cols hss" and h: "concat hss = hvs"
    using assms(1) by (auto simp: db_table_def)
  obtain f d1 where n: "NewHeapFile (tbl_OID table) d = (f, d1)" by (cases "NewHeapFile (tbl_OID table) d")
  have f: "f = file_of d (tbl_OID table)" "db_txn d1 = db_txn d" using NewHeapFile_file_of [OF n] by simp_all
  note m = scan_now [OF assms(2,6), where cols = ?cols and wh = wh]
  have cl: "clean ?snap tm1 ?cols wh hv" and ok: "?M hv \<Longrightarrow> update_ok tname sets ?cols hv" if "hv \<in> set (concat hss)" for hv
    using assms(3,4) that h by (cases hv, auto simp: m rows_of_def)
  have nc: "\<not> isXIDCommitted xid ?snap tm1"
    using assms(7) GetStatus_auto [OF assms(6), of xid] by (auto simp: isXIDCommitted_def committed_def)
  have le: "length (filter ?M hvs) \<le> length (rows_of ?tm hvs)"
    using length_matches [OF m(1), of hvs] length_filter_le [of "where_true ?cols wh" "rows_of ?tm hvs"] by simp
  then have room: "length hss + length (filter ?M (concat hss)) < 2 ^ 32"
    using assms(5) table_rep_length [OF r] h by simp
  obtain f' hss' where up: "update_pages ?snap ?cols tname sets wh xid auto [0..<unat (PageCount f)] 0 f tm1
      = (Ok (length (filter ?M hvs)), f', tm1)" and r': "table_rep f' ?cols hss'"
    and c: "concat hss' = map (mark ?snap tm1 ?cols wh xid) hvs @ map (updated tname sets ?cols xid) (filter ?M hvs)"
    and l: "length hss' \<le> length hss + length (filter ?M hvs)"
    using update_pages_all [OF r [folded f(1)] nc cl ok room] h by blast
  have pc: "unat (PageCount f') \<le> unat (PageCount f) + length (rows_of ?tm hvs)"
    using table_rep_length [OF r'] table_rep_length [OF r [folded f(1)]] l le by simp
  have fm: "filter ?M hvs = filter (\<lambda>hv. live ?tm hv \<and> where_true ?cols wh (snd hv)) hvs"
    by (rule filter_cong) (simp_all add: m)
  have "executeUpdate (session x d) tname sets wh d =
      finish_dml ''UPDATE '' xid auto (tbl_OID table) (Ok (length (filter ?M hvs)), f', tm1) d1"
    using t n f(2) assms(6) up by (simp add: executeUpdate_def session_def)
  then show ?thesis
    using finish_dml_post [OF n t r' pc, of "''UPDATE ''" xid auto "length (filter ?M hvs)" tm1]
    unfolding c length_matches [OF m(1), of hvs] by (simp add: fm)
qed

section \<open>INSERT\<close>

lemma executeInsert_rep:
  assumes "db_table d tname table hvs" and "insert_values table names exprs = Ok (tbl_Columns table, vals)"
    and "tuple_fits vals (tbl_Columns table)"
    and "unat (PageCount (file_of d (tbl_OID table))) + 1 < 2 ^ 32"
    and "getAutoCommitWithXID (session x d) (db_txn d) = (xid, auto, tm1)"
  shows "\<exists>d'. executeInsert (session x d) tname names exprs d = (Ok (tag_only ''INSERT 0 1''), d') \<and>
    dml_post 1 d tname table (after_txn xid auto tm1) (hvs @ [(\<lparr>Xmin = xid, Xmax = 0\<rparr>, stored_row vals)]) d'"
proof -
  let ?cols = "tbl_Columns table" and ?h = "\<lparr>Xmin = xid, Xmax = 0\<rparr>"
  obtain hss where t: "GetTable ''public'' tname (db_catalog d) = Ok table"
    and r: "table_rep (file_of d (tbl_OID table)) ?cols hss" and h: "concat hss = hvs"
    using assms(1) by (auto simp: db_table_def)
  obtain f d2 where n: "NewHeapFile (tbl_OID table) (d\<lparr>db_txn := tm1\<rparr>) = (f, d2)"
    by (cases "NewHeapFile (tbl_OID table) (d\<lparr>db_txn := tm1\<rparr>)")
  have f: "f = file_of d (tbl_OID table)" "file_of d2 = file_of d" "db_catalog d2 = db_catalog d" "db_txn d2 = tm1"
    using NewHeapFile_file_of [OF n] by simp_all
  obtain data where e: "EncodeTuple ?h vals ?cols = Ok data" "DecodeTuple data ?cols = Ok (?h, stored_row vals)"
    "length data + 4 \<le> 8184"
    using tuple_fits_ok(2) [OF assms(3)] by blast
  obtain loc f' hss' where i: "InsertTuple data f = (Ok loc, f')" "table_rep f' ?cols hss'"
    and v: "version_added (?h, stored_row vals) hss hss'"
    using InsertTuple_table_rep [OF r [folded f(1)] _ e(3), of "(?h, stored_row vals)"] assms(4) e(2) table_rep_length [OF r]
    by (auto simp: decodes_def)
  have "concat hss' = hvs @ [(?h, stored_row vals)]" using concat_version_added [OF v] h by simp
  moreover have "unat (PageCount f') \<le> Suc (unat (PageCount f))"
    using table_rep_length [OF i(2)] table_rep_length [OF r [folded f(1)]] length_version_added [OF v] by simp
  ultimately show ?thesis
    using assms(2,5) t n e(1) i f
    by (auto simp: executeInsert_def Let_def session_def dml_post_def db_table_def after_txn_def)
qed

section \<open>The invariant of the database\<close>

text \<open>
  Every table's file holds decodable rows whose transactions have begun. Nothing is said of
  the files that no table owns: \<open>NewServer\<close> begins with an empty catalog and leaves the data directory
  as it is, so they may hold anything. The invariant holds at the start, whatever the
  directory holds, and every data-changing statement keeps it.
\<close>

definition db_inv :: "db \<Rightarrow> bool" where
  "db_inv d \<longleftrightarrow>
     catalog_inv (db_catalog d) \<and> txn_inv (db_txn d) \<and>
     (\<forall>n t. GetTable ''public'' n (db_catalog d) = Ok t \<longrightarrow> (\<exists>hvs. db_table d n t hvs \<and> below (db_txn d) hvs))"

text \<open>The state of a new server on a data directory with the given files; \<open>db_init\<close> is the first start, on an empty one.\<close>

definition start_db :: "(u32 \<rightharpoonup> heap_bytes) \<Rightarrow> db" where
  "start_db files = \<lparr>db_catalog = NewCatalog, db_txn = NewTxnManager, db_files = files\<rparr>"

definition db_init :: db where
  "db_init = start_db Map.empty"

lemma start_db_simps [simp]:
  "db_catalog (start_db files) = NewCatalog" "db_txn (start_db files) = NewTxnManager" "db_files (start_db files) = files"
  by (simp_all add: start_db_def)

lemma db_inv_start: "db_inv (start_db files)"
  by (simp add: db_inv_def catalog_inv_NewCatalog txn_inv_def NewTxnManager_def
      GetTable_def NewCatalog_def del: fun_upd_apply) (simp add: catalog_inv_NewCatalog [unfolded NewCatalog_def])

text \<open>What a client reads of a table.\<close>

definition select_all :: "db \<Rightarrow> string \<Rightarrow> any list list option" where
  "select_all d tname =
     (case fst (executeSelect (session 0 d) [''*''] tname None d) of Ok r \<Rightarrow> Some (res_Rows r) | _ \<Rightarrow> None)"

lemma db_table_lengths: "db_table d tname table hvs \<Longrightarrow> hv \<in> set hvs \<Longrightarrow> length (snd hv) = length (tbl_Columns table)"
  using table_rep_row_length [of "file_of d (tbl_OID table)" "tbl_Columns table" _ hv] by (fastforce simp: db_table_def)

lemma rows_of_lengths:
  "(\<And>hv. hv \<in> set hvs \<Longrightarrow> length (snd hv) = n) \<Longrightarrow> r \<in> set (rows_of tm hvs) \<Longrightarrow> length r = n"
  by (auto simp: rows_of_def)

lemma select_all_rows:
  assumes "db_table d tname table hvs" and "txn_inv (db_txn d)"
  shows "select_all d tname = Some (rows_of (db_txn d) hvs)"
proof -
  let ?n = "length (tbl_Columns table)"
  have "map (pick [0..<?n]) (rows_of (db_txn d) hvs) = rows_of (db_txn d) hvs"
    using db_table_lengths [OF assms(1)] by (intro map_idI) (metis (no_types, lifting) map_nth pick_def rows_of_lengths)
  then show ?thesis
    using executeSelect_rows [OF assms, of "[''*'']" "tbl_Columns table" "[0..<?n]" None 0]
    by (simp add: select_all_def projection_def Let_def where_ok_def where_true_def)
qed

lemma select_all_missing: "GetTable ''public'' tname (db_catalog d) = Err e \<Longrightarrow> select_all d tname = None"
  by (simp add: select_all_def executeSelect_def)

text \<open>The transaction manager after a statement.\<close>

lemma auto_cases:
  assumes "txn_inv tm" and "xid_room tm" and "x \<le> nextXID tm" and "\<not> committed tm x"
    and "getAutoCommitWithXID e tm = (xid, auto, tm1)" and "ex_txnXID e = x"
  shows "txn_inv (after_txn xid auto tm1)" and "nextXID tm \<le> nextXID tm1" and "nextXID (after_txn xid auto tm1) = nextXID tm1"
    and "xid \<le> nextXID tm1" and "\<not> committed tm xid" and "0 < xid"
    and "auto = (x = 0)" and "x \<noteq> 0 \<Longrightarrow> xid = x"
    and "committed (after_txn xid auto tm1) y \<longleftrightarrow> (auto \<and> y = xid) \<or> committed tm y"
    and "auto \<Longrightarrow> \<not> xid \<le> nextXID tm"
proof -
  have "txn_inv (after_txn xid auto tm1) \<and> nextXID tm \<le> nextXID tm1 \<and> nextXID (after_txn xid auto tm1) = nextXID tm1 \<and>
    xid \<le> nextXID tm1 \<and> \<not> committed tm xid \<and> 0 < xid \<and> auto = (x = 0) \<and> (x \<noteq> 0 \<longrightarrow> xid = x) \<and>
    (\<forall>y. committed (after_txn xid auto tm1) y \<longleftrightarrow> (auto \<and> y = xid) \<or> committed tm y) \<and> (auto \<longrightarrow> \<not> xid \<le> nextXID tm)"
  proof (cases "x = 0")
    case True
    obtain t where n: "NextXID tm = (xid, t)" and e: "auto" "tm1 = t"
      using assms(5,6) True by (auto simp: getAutoCommitWithXID_def Let_def split: prod.splits)
    have i: "txn_inv t" using txn_inv_NextXID [OF assms(1,2)] n by simp
    note f = NextXID_fresh [OF assms(1) n]
    have le: "nextXID tm \<le> xid"
      using unat_Suc_nextXID [OF assms(1)] n by (auto simp: NextXID_def Let_def word_le_nat_alt)
    have c: "committed t y = committed tm y" for y using committed_NextXID [of tm y] n by simp
    show ?thesis
      using True e i f(1,2,4) f(3) [of xid] le c txn_inv_SetStatus [OF i, of Committed xid]
      by (auto simp: after_txn_def Commit_def committed_SetStatus)
  next
    case False
    then have "xid = x" "\<not> auto" "tm1 = tm" using assms(5,6) by (auto simp: getAutoCommitWithXID_def Let_def)
    then show ?thesis using False assms by (auto simp: after_txn_def word_neq_0_conv)
  qed
  then show "txn_inv (after_txn xid auto tm1)" and "nextXID tm \<le> nextXID tm1" and "nextXID (after_txn xid auto tm1) = nextXID tm1"
    and "xid \<le> nextXID tm1" and "\<not> committed tm xid" and "0 < xid"
    and "auto = (x = 0)" and "x \<noteq> 0 \<Longrightarrow> xid = x"
    and "committed (after_txn xid auto tm1) y \<longleftrightarrow> (auto \<and> y = xid) \<or> committed tm y"
    and "auto \<Longrightarrow> \<not> xid \<le> nextXID tm" by blast+
qed

lemma below_mono: "below tm hvs \<Longrightarrow> nextXID tm \<le> nextXID tm' \<Longrightarrow> below tm' hvs"
  by (auto simp: below_def intro: order_trans)

lemma below_append [simp]: "below tm (xs @ ys) \<longleftrightarrow> below tm xs \<and> below tm ys"
  by (auto simp: below_def)

lemma below_mark: "below tm hvs \<Longrightarrow> xid \<le> nextXID tm \<Longrightarrow> below tm (map (mark snap tms cols wh xid) hvs)"
  by (auto simp: below_def mark_def)

lemma below_new: "xid \<le> nextXID tm \<Longrightarrow> \<forall>hv \<in> set hvs. fst hv = \<lparr>Xmin = xid, Xmax = 0\<rparr> \<Longrightarrow> below tm hvs"
  by (auto simp: below_def)

text \<open>A transaction identifier that a statement may run under: none, or one begun and not committed.\<close>

definition runs_under :: "u64 \<Rightarrow> db \<Rightarrow> bool" where
  "runs_under x d \<longleftrightarrow> x \<le> nextXID (db_txn d) \<and> \<not> committed (db_txn d) x"

lemma runs_under_0: "txn_inv (db_txn d) \<Longrightarrow> runs_under 0 d"
  using txn_inv_committed [of "db_txn d" 0] by (auto simp: runs_under_def)

lemma GetTable_oid:
  assumes "catalog_inv c" and "GetTable s n c = Ok t"
  shows "unat (tbl_OID t) < unat (cat_nextOID c)"
proof -
  have "cat_tables c (table_key s n) = Some t" using assms(2) by (simp add: GetTable_def split: option.splits)
  then show ?thesis using assms(1) unfolding catalog_inv_def by blast
qed

text \<open>The other tables: their files are untouched and the new transaction has no versions in them.\<close>

lemma dml_post_other:
  assumes "catalog_inv (db_catalog d)" and "dml_post k d n t tm hvs' d'" and "m \<noteq> n" and "db_table d m u gvs"
  shows "db_table d' m u gvs"
proof -
  have "GetTable ''public'' n (db_catalog d) = Ok t" using assms(2) by (auto simp: dml_post_def db_table_def)
  then have "tbl_OID u \<noteq> tbl_OID t" using pub.inv_oid [OF assms(1), of m u n t] assms(3,4) by (auto simp: db_table_def)
  then show ?thesis using assms(2,4) by (simp add: dml_post_def db_table_def)
qed

lemma rows_of_cong: "(\<And>y. committed tm y = committed tm' y) \<Longrightarrow> rows_of tm hvs = rows_of tm' hvs"
  by (simp add: rows_of_def live_def [abs_def])

lemma rows_of_after_txn:
  assumes "txn_inv (db_txn d)" and "xid_room (db_txn d)" and "runs_under x d"
    and "getAutoCommitWithXID (session x d) (db_txn d) = (xid, auto, tm1)" and "below (db_txn d) hvs"
  shows "rows_of (after_txn xid auto tm1) hvs = rows_of (db_txn d) hvs" and "below (after_txn xid auto tm1) hvs"
proof -
  have x: "x \<le> nextXID (db_txn d)" "\<not> committed (db_txn d) x" "ex_txnXID (session x d) = x"
    using assms(3) by (auto simp: runs_under_def session_def)
  note a = auto_cases [OF assms(1,2) x(1,2) assms(4) x(3)]
  show "below (after_txn xid auto tm1) hvs" using below_mono [OF assms(5)] a(2,3) by simp
  show "rows_of (after_txn xid auto tm1) hvs = rows_of (db_txn d) hvs"
  proof (cases auto)
    case True
    have "\<forall>hv \<in> set hvs. Xmin (fst hv) \<noteq> xid \<and> Xmax (fst hv) \<noteq> xid"
      using assms(5) a(10) [OF True] by (fastforce simp: below_def)
    then show ?thesis using rows_of_commit_frame [of "after_txn xid auto tm1" xid "db_txn d" hvs] a(9) True by simp
  next
    case False
    then show ?thesis using a(9) by (intro rows_of_cong) simp
  qed
qed

lemma GetTable_cases: "(\<And>t. GetTable s n c = Ok t \<Longrightarrow> P) \<Longrightarrow> (\<And>e. GetTable s n c = Err e \<Longrightarrow> P) \<Longrightarrow> P"
  by (cases "GetTable s n c") (auto simp: GetTable_def split: option.splits)

lemma dml_keeps:
  assumes "db_inv d" and "runs_under x d" and "xid_room (db_txn d)"
    and "getAutoCommitWithXID (session x d) (db_txn d) = (xid, auto, tm1)"
    and "dml_post k d tname table (after_txn xid auto tm1) hvs' d'" and "below tm1 hvs'"
  shows "db_inv d'" and "select_all d' tname = Some (rows_of (after_txn xid auto tm1) hvs')"
    and "n \<noteq> tname \<Longrightarrow> select_all d' n = select_all d n"
proof -
  let ?tm = "db_txn d" and ?tm' = "after_txn xid auto tm1"
  have inv: "catalog_inv (db_catalog d)" "txn_inv ?tm"
    and tabs: "GetTable ''public'' n (db_catalog d) = Ok t \<Longrightarrow> \<exists>hvs. db_table d n t hvs \<and> below ?tm hvs" for n t
    using assms(1) by (auto simp: db_inv_def)
  have post: "db_table d' tname table hvs'" "db_txn d' = ?tm'" "db_catalog d' = db_catalog d"
    using assms(5) by (auto simp: dml_post_def)
  have x: "x \<le> nextXID ?tm" "\<not> committed ?tm x" "ex_txnXID (session x d) = x"
    using assms(2) by (auto simp: runs_under_def session_def)
  note a = auto_cases [OF inv(2) assms(3) x(1,2) assms(4) x(3)]
  note other = dml_post_other [OF inv(1) assms(5)] and kept = rows_of_after_txn [OF inv(2) assms(3,2,4)]
  have tab: "GetTable ''public'' tname (db_catalog d) = Ok table" using post by (simp add: db_table_def)
  have "\<exists>hvs. db_table d' n t hvs \<and> below ?tm' hvs" if g: "GetTable ''public'' n (db_catalog d') = Ok t" for n t
  proof (cases "n = tname")
    case True
    then show ?thesis using g tab post assms(6) a(3) by (auto simp: below_def)
  next
    case False
    then show ?thesis using g post(3) tabs [of n t] other [OF False] kept(2) by auto
  qed
  then show "db_inv d'" unfolding db_inv_def post(2,3) using inv(1) a(1) by blast
  show "select_all d' tname = Some (rows_of ?tm' hvs')"
    using select_all_rows [OF post(1)] a(1) post(2) by simp
  show "select_all d' n = select_all d n" if n: "n \<noteq> tname"
  proof (rule GetTable_cases [of "''public''" n "db_catalog d"])
    fix t assume "GetTable ''public'' n (db_catalog d) = Ok t"
    then obtain hvs where h: "db_table d n t hvs" "below ?tm hvs" using tabs by blast
    then show ?thesis
      using select_all_rows [OF other [OF n h(1)]] select_all_rows [OF h(1) inv(2)] kept(1) [OF h(2)] a(1) post(2) by simp
  qed (use post in \<open>simp add: select_all_missing\<close>)
qed

section \<open>The statements as operations on rows\<close>

text \<open>
  The specification of a data-changing statement: the table it names, whether it applies to the
  rows a client sees, the rows after it, and its command tag.
\<close>

fun target :: "statement \<Rightarrow> string option" where
  "target (InsertStatement tname names exprs) = Some tname"
| "target (UpdateStatement tname sets wh) = Some tname"
| "target (DeleteStatement tname wh) = Some tname"
| "target st = None"

definition set_row :: "string \<Rightarrow> set_clause list \<Rightarrow> column_def list \<Rightarrow> any list \<Rightarrow> any list" where
  "set_row tn sets cols r = stored_row (case apply_set_clauses tn sets cols r of Ok vals \<Rightarrow> vals | _ \<Rightarrow> [])"

definition set_ok :: "string \<Rightarrow> set_clause list \<Rightarrow> column_def list \<Rightarrow> any list \<Rightarrow> bool" where
  "set_ok tn sets cols r = (case apply_set_clauses tn sets cols r of Ok vals \<Rightarrow> tuple_fits vals cols | _ \<Rightarrow> False)"

fun spec_ok :: "table_def \<Rightarrow> statement \<Rightarrow> any list list \<Rightarrow> bool" where
  "spec_ok table (InsertStatement tname names exprs) rows =
     (case insert_values table names exprs of
        Ok (cols, vals) \<Rightarrow> cols = tbl_Columns table \<and> tuple_fits vals cols
      | _ \<Rightarrow> False)"
| "spec_ok table (UpdateStatement tname sets wh) rows =
     list_all (\<lambda>r. where_ok (tbl_Columns table) wh r \<and>
       (where_true (tbl_Columns table) wh r \<longrightarrow> set_ok tname sets (tbl_Columns table) r)) rows"
| "spec_ok table (DeleteStatement tname wh) rows = list_all (where_ok (tbl_Columns table) wh) rows"
| "spec_ok table st rows = False"

fun spec_rows :: "table_def \<Rightarrow> statement \<Rightarrow> any list list \<Rightarrow> any list list" where
  "spec_rows table (InsertStatement tname names exprs) rows =
     (case insert_values table names exprs of Ok (cols, vals) \<Rightarrow> rows @ [stored_row vals] | _ \<Rightarrow> rows)"
| "spec_rows table (UpdateStatement tname sets wh) rows =
     filter (\<lambda>r. \<not> where_true (tbl_Columns table) wh r) rows @
     map (set_row tname sets (tbl_Columns table)) (filter (where_true (tbl_Columns table) wh) rows)"
| "spec_rows table (DeleteStatement tname wh) rows = filter (\<lambda>r. \<not> where_true (tbl_Columns table) wh r) rows"
| "spec_rows table st rows = rows"

fun spec_tag :: "table_def \<Rightarrow> statement \<Rightarrow> any list list \<Rightarrow> string" where
  "spec_tag table (UpdateStatement tname sets wh) rows =
     ''UPDATE '' @ FormatInt (int (length (filter (where_true (tbl_Columns table) wh) rows)))"
| "spec_tag table (DeleteStatement tname wh) rows =
     ''DELETE '' @ FormatInt (int (length (filter (where_true (tbl_Columns table) wh) rows)))"
| "spec_tag table st rows = ''INSERT 0 1''"

text \<open>The pages the statement may add leave the page number inside its 32 bits.\<close>

definition file_room :: "db \<Rightarrow> table_def \<Rightarrow> any list list \<Rightarrow> bool" where
  "file_room d table rows \<longleftrightarrow> unat (PageCount (file_of d (tbl_OID table))) + length rows + 1 < 2 ^ 32"

text \<open>\<open>becomes\<close>: the versions after a statement show the old rows until \<open>xid\<close> commits, and the new ones then.\<close>

definition becomes :: "txn_manager \<Rightarrow> u64 \<Rightarrow> version list \<Rightarrow> version list \<Rightarrow> any list list \<Rightarrow> bool" where
  "becomes tm xid hvs hvs' rows' \<longleftrightarrow>
     rows_of tm hvs' = rows_of tm hvs \<and>
     ((\<forall>hv \<in> set hvs. Xmin (fst hv) \<noteq> xid \<and> Xmax (fst hv) \<noteq> xid) \<longrightarrow>
       (\<forall>tm'. (\<forall>y. committed tm' y \<longleftrightarrow> y = xid \<or> committed tm y) \<longrightarrow> rows_of tm' hvs' = rows'))"

lemma map_snd_updated:
  "map snd (map (updated tname sets cols x) (filter (\<lambda>hv. live tm hv \<and> where_true cols wh (snd hv)) hvs)) =
     map (set_row tname sets cols) (filter (where_true cols wh) (rows_of tm hvs))"
  by (induction hvs) (auto simp: rows_of_def updated_def set_row_def)

lemma becomes_delete:
  assumes "txn_inv tm" and "getAutoCommitWithXID e tm = (xid, auto, tm1)" and "\<not> committed tm xid"
  shows "becomes tm xid hvs (map (mark (TakeSnapshot tm) tm1 cols wh xid) hvs)
    (filter (\<lambda>r. \<not> where_true cols wh r) (rows_of tm hvs))"
  using rows_of_mark [OF assms(3), of "TakeSnapshot tm" tm1 cols wh] scan_now(1) [OF assms(1,2)]
  by (auto simp: becomes_def intro: rows_of_mark_commit)

lemma becomes_add:
  assumes "becomes tm xid hvs hvs1 rows1" and "\<forall>hv \<in> set hvs2. fst hv = \<lparr>Xmin = xid, Xmax = 0\<rparr>"
    and "\<not> committed tm xid" and "0 < xid" and "\<not> committed tm 0"
  shows "becomes tm xid hvs (hvs1 @ hvs2) (rows1 @ map snd hvs2)"
proof -
  have "rows_of tm hvs2 = []" using assms(2,3) by (intro rows_of_new) simp
  moreover have "rows_of tm' hvs2 = map snd hvs2" if "\<And>y. committed tm' y \<longleftrightarrow> y = xid \<or> committed tm y" for tm'
  proof -
    have "filter (live tm') hvs2 = hvs2" using assms(2,4,5) that by (auto simp: live_def filter_id_conv)
    then show ?thesis by (simp add: rows_of_def)
  qed
  ultimately show ?thesis using assms(1) by (simp add: becomes_def)
qed

lemma becomes_refl: "becomes tm xid hvs hvs (rows_of tm hvs)"
  unfolding becomes_def by (intro conjI refl impI allI) (rule rows_of_commit_frame; blast)

text \<open>What a statement does to a table, in a transaction \<open>xid\<close> or in one of its own.\<close>

definition dml_effect ::
    "u64 \<Rightarrow> db \<Rightarrow> string \<Rightarrow> table_def \<Rightarrow> version list \<Rightarrow> u64 \<Rightarrow> bool \<Rightarrow> txn_manager \<Rightarrow> statement \<Rightarrow> bool" where
  "dml_effect x d tname table hvs xid auto tm1 st \<longleftrightarrow>
     (\<exists>d' hvs'. Execute (session x d) st d = (Ok (tag_only (spec_tag table st (rows_of (db_txn d) hvs))), d') \<and>
        dml_post (Suc (length (rows_of (db_txn d) hvs))) d tname table (after_txn xid auto tm1) hvs' d' \<and> below tm1 hvs' \<and>
        becomes (db_txn d) xid hvs hvs' (spec_rows table st (rows_of (db_txn d) hvs)))"

lemma dml_effectI:
  assumes "Execute (session x d) st d = (Ok (tag_only (spec_tag table st (rows_of (db_txn d) hvs))), d')"
    and "dml_post k d tname table (after_txn xid auto tm1) hvs' d'" and "k \<le> Suc (length (rows_of (db_txn d) hvs))"
    and "below tm1 hvs'" and "becomes (db_txn d) xid hvs hvs' (spec_rows table st (rows_of (db_txn d) hvs))"
  shows "dml_effect x d tname table hvs xid auto tm1 st"
  using assms dml_post_mono unfolding dml_effect_def by blast

lemma insert_effect:
  assumes "db_table d tname table hvs" and "st = InsertStatement tname names exprs" and "spec_ok table st (rows_of (db_txn d) hvs)"
    and "file_room d table (rows_of (db_txn d) hvs)" and "getAutoCommitWithXID (session x d) (db_txn d) = (xid, auto, tm1)"
    and "below tm1 hvs" and "xid \<le> nextXID tm1" and "\<not> committed (db_txn d) xid" and "0 < xid" and "\<not> committed (db_txn d) 0"
  shows "dml_effect x d tname table hvs xid auto tm1 st"
proof -
  obtain vals where v: "insert_values table names exprs = Ok (tbl_Columns table, vals)" "tuple_fits vals (tbl_Columns table)"
    using assms(2,3) by (auto split: result.splits)
  have p: "unat (PageCount (file_of d (tbl_OID table))) + 1 < 2 ^ 32" using assms(4) by (simp add: file_room_def)
  let ?new = "[(\<lparr>Xmin = xid, Xmax = 0\<rparr>, stored_row vals)]"
  have h: "\<forall>hv \<in> set ?new. fst hv = \<lparr>Xmin = xid, Xmax = 0\<rparr>" by simp
  obtain d' where "executeInsert (session x d) tname names exprs d = (Ok (tag_only ''INSERT 0 1''), d')"
    "dml_post 1 d tname table (after_txn xid auto tm1) (hvs @ ?new) d'"
    using executeInsert_rep [OF assms(1) v p assms(5)] by blast
  then show ?thesis
    using assms(2,6) v(1) becomes_add [OF becomes_refl h assms(8-10)] below_new [OF assms(7) h]
    by (intro dml_effectI [where hvs' = "hvs @ ?new" and k = 1]) simp_all
qed

lemma update_effect:
  assumes "db_table d tname table hvs" and "st = UpdateStatement tname sets wh" and "spec_ok table st (rows_of (db_txn d) hvs)"
    and "file_room d table (rows_of (db_txn d) hvs)" and "getAutoCommitWithXID (session x d) (db_txn d) = (xid, auto, tm1)"
    and "below tm1 hvs" and "xid \<le> nextXID tm1" and "\<not> committed (db_txn d) xid" and "0 < xid" and "\<not> committed (db_txn d) 0"
    and "txn_inv (db_txn d)"
  shows "dml_effect x d tname table hvs xid auto tm1 st"
proof -
  let ?tm = "db_txn d" and ?cols = "tbl_Columns table"
  let ?old = "map (mark (TakeSnapshot ?tm) tm1 ?cols wh xid) hvs"
  let ?new = "map (updated tname sets ?cols xid) (filter (\<lambda>hv. live ?tm hv \<and> where_true ?cols wh (snd hv)) hvs)"
  have w: "\<forall>r \<in> set (rows_of ?tm hvs). where_ok ?cols wh r"
    and u: "\<forall>hv \<in> set hvs. live ?tm hv \<and> where_true ?cols wh (snd hv) \<longrightarrow> update_ok tname sets ?cols hv"
    using assms(2,3) by (auto simp: rows_of_def update_ok_def set_ok_def list_all_iff)
  have p: "unat (PageCount (file_of d (tbl_OID table))) + length (rows_of ?tm hvs) < 2 ^ 32"
    using assms(4) by (simp add: file_room_def)
  have m: "map snd ?new = map (set_row tname sets ?cols) (filter (where_true ?cols wh) (rows_of ?tm hvs))"
    by (rule map_snd_updated)
  have h: "\<forall>hv \<in> set ?new. fst hv = \<lparr>Xmin = xid, Xmax = 0\<rparr>" by (auto simp: updated_def)
  have bn: "below tm1 (?old @ ?new)" using below_mark [OF assms(6,7)] below_new [OF assms(7) h] by simp
  obtain d' where e: "executeUpdate (session x d) tname sets wh d = (Ok (tag_only (spec_tag table st (rows_of ?tm hvs))), d')"
    and post: "dml_post (length (rows_of ?tm hvs)) d tname table (after_txn xid auto tm1) (?old @ ?new) d'"
    using executeUpdate_rep [OF assms(1,11) w u p assms(5,8)] assms(2) by auto
  show ?thesis
    using becomes_add [OF becomes_delete [OF assms(11,5,8)] h assms(8-10), unfolded m] e assms(2)
    by (intro dml_effectI [OF _ post _ bn]) simp_all
qed

lemma delete_effect:
  assumes "db_table d tname table hvs" and "st = DeleteStatement tname wh" and "spec_ok table st (rows_of (db_txn d) hvs)"
    and "getAutoCommitWithXID (session x d) (db_txn d) = (xid, auto, tm1)"
    and "below tm1 hvs" and "xid \<le> nextXID tm1" and "\<not> committed (db_txn d) xid" and "txn_inv (db_txn d)"
  shows "dml_effect x d tname table hvs xid auto tm1 st"
proof -
  have w: "\<forall>r \<in> set (rows_of (db_txn d) hvs). where_ok (tbl_Columns table) wh r"
    using assms(2,3) by (auto simp: list_all_iff)
  obtain d' where e: "executeDelete (session x d) tname wh d = (Ok (tag_only (spec_tag table st (rows_of (db_txn d) hvs))), d')"
    and post: "dml_post 0 d tname table (after_txn xid auto tm1)
        (map (mark (TakeSnapshot (db_txn d)) tm1 (tbl_Columns table) wh xid) hvs) d'"
    using executeDelete_rep [OF assms(1,8) w assms(4)] assms(2) by auto
  show ?thesis
    using becomes_delete [OF assms(8,4,7)] e assms(2)
    by (intro dml_effectI [OF _ post _ below_mark [OF assms(5,6)]]) simp_all
qed

lemma Execute_dml:
  assumes "db_table d tname table hvs" and "below (db_txn d) hvs" and "txn_inv (db_txn d)" and "xid_room (db_txn d)"
    and "runs_under x d" and "target st = Some tname"
    and "spec_ok table st (rows_of (db_txn d) hvs)" and "file_room d table (rows_of (db_txn d) hvs)"
    and "getAutoCommitWithXID (session x d) (db_txn d) = (xid, auto, tm1)"
  shows "dml_effect x d tname table hvs xid auto tm1 st"
proof -
  have x: "x \<le> nextXID (db_txn d)" "\<not> committed (db_txn d) x" "ex_txnXID (session x d) = x"
    using assms(5) by (auto simp: runs_under_def session_def)
  note a = auto_cases [OF assms(3,4) x(1,2) assms(9) x(3)]
  have z: "\<not> committed (db_txn d) 0" using txn_inv_committed [OF assms(3), of 0] by auto
  note b = below_mono [OF assms(2) a(2)]
  show ?thesis
    using assms(6) insert_effect [OF assms(1) _ assms(7-9) b a(4,5,6) z] update_effect [OF assms(1) _ assms(7-9) b a(4,5,6) z assms(3)]
      delete_effect [OF assms(1) _ assms(7,9) b a(4,5) assms(3)] by (cases st) simp_all
qed

end
