(* ===== verification/Database.thy ===== *)
theory Database
  imports Statements
begin

text \<open>
  The database as its clients see it: what \<open>SELECT *\<close> returns before and after a statement.
  A statement outside a transaction refines its specification on rows at once; inside a
  transaction nothing changes until the commit, and a rollback changes nothing; \<open>CREATE TABLE\<close>
  gives a table over the file of its OID and \<open>DROP TABLE\<close> removes one.
\<close>

section \<open>Changes of the transaction manager alone\<close>

lemma db_table_txn [simp]: "db_table (d\<lparr>db_txn := tm\<rparr>) n t hvs = db_table d n t hvs"
  by (simp add: db_table_def)

lemma db_inv_txn:
  assumes "db_inv d" and "txn_inv tm" and "nextXID (db_txn d) \<le> nextXID tm"
  shows "db_inv (d\<lparr>db_txn := tm\<rparr>)"
proof -
  have "\<exists>hvs. db_table d n t hvs \<and> below tm hvs" if "GetTable ''public'' n (db_catalog d) = Ok t" for n t
    using assms(1,3) that below_mono by (fastforce simp: db_inv_def)
  then show ?thesis using assms by (simp add: db_inv_def)
qed

lemma select_all_txn:
  assumes "db_table d n t hvs" and "txn_inv tm"
  shows "select_all (d\<lparr>db_txn := tm\<rparr>) n = Some (rows_of tm hvs)"
  using select_all_rows [of "d\<lparr>db_txn := tm\<rparr>" n t hvs] assms by simp

lemma db_inv_exists:
  "db_inv d \<Longrightarrow> GetTable ''public'' n (db_catalog d) = Ok t \<Longrightarrow> \<exists>hvs. db_table d n t hvs \<and> below (db_txn d) hvs"
  by (simp add: db_inv_def)

lemma db_inv_table:
  assumes "db_inv d" and "GetTable ''public'' n (db_catalog d) = Ok t" and "select_all d n = Some rows"
  obtains hvs where "db_table d n t hvs" and "below (db_txn d) hvs" and "rows_of (db_txn d) hvs = rows"
proof -
  obtain hvs where h: "db_table d n t hvs" "below (db_txn d) hvs" using db_inv_exists [OF assms(1,2)] by blast
  moreover have "rows_of (db_txn d) hvs = rows"
    using select_all_rows [OF h(1)] assms(1,3) by (simp add: db_inv_def)
  ultimately show thesis using that by blast
qed

lemma db_inv_parts: "db_inv d \<Longrightarrow> catalog_inv (db_catalog d)" "db_inv d \<Longrightarrow> txn_inv (db_txn d)"
  by (simp_all add: db_inv_def)

section \<open>Room\<close>

text \<open>
  A statement takes at most one transaction identifier and adds at most one page per row it
  reads, and one for a new row: enough room at the start is enough room for a script.
\<close>

definition grows_by :: "nat \<Rightarrow> nat \<Rightarrow> db \<Rightarrow> db \<Rightarrow> bool" where
  "grows_by k m d d' \<longleftrightarrow> unat (nextXID (db_txn d')) \<le> unat (nextXID (db_txn d)) + k \<and>
     (\<forall>oid. unat (PageCount (file_of d' oid)) \<le> unat (PageCount (file_of d oid)) + m)"

lemma grows_by_post:
  assumes "dml_post m d tname table tm' hvs' d'" and "unat (nextXID (db_txn d')) \<le> unat (nextXID (db_txn d)) + k"
  shows "grows_by k m d d'"
  unfolding grows_by_def
proof (intro conjI allI)
  show "unat (PageCount (file_of d' oid)) \<le> unat (PageCount (file_of d oid)) + m" for oid
    using assms(1) by (cases "oid = tbl_OID table") (auto simp: dml_post_def)
qed (rule assms(2))

section \<open>A statement outside a transaction\<close>

lemma autocommit_rows:
  assumes "db_inv d" and "xid_room (db_txn d)" and "GetTable ''public'' tname (db_catalog d) = Ok table"
    and "target st = Some tname" and "select_all d tname = Some rows"
    and "spec_ok table st rows" and "file_room d table rows"
  shows "\<exists>d'. Execute (session 0 d) st d = (Ok (tag_only (spec_tag table st rows)), d') \<and> db_inv d' \<and>
    select_all d' tname = Some (spec_rows table st rows) \<and> (\<forall>n. n \<noteq> tname \<longrightarrow> select_all d' n = select_all d n) \<and>
    db_catalog d' = db_catalog d \<and> grows_by 1 (Suc (length rows)) d d'"
proof -
  obtain hvs where h: "db_table d tname table hvs" "below (db_txn d) hvs" and r: "rows_of (db_txn d) hvs = rows"
    using db_inv_table [OF assms(1,3,5)] by blast
  note i = db_inv_parts(2) [OF assms(1)]
  note u = runs_under_0 [OF i]
  obtain xid auto tm1 where g: "getAutoCommitWithXID (session 0 d) (db_txn d) = (xid, auto, tm1)"
    by (cases "getAutoCommitWithXID (session 0 d) (db_txn d)") auto
  have x: "0 \<le> nextXID (db_txn d)" "\<not> committed (db_txn d) 0" "ex_txnXID (session 0 d) = 0"
    using u by (auto simp: runs_under_def session_def)
  note a = auto_cases [OF i assms(2) x(1,2) g x(3)]
  obtain d' hvs' where e: "Execute (session 0 d) st d = (Ok (tag_only (spec_tag table st rows)), d')"
    and p: "dml_post (Suc (length rows)) d tname table (after_txn xid auto tm1) hvs' d'" and b: "below tm1 hvs'"
    and c: "becomes (db_txn d) xid hvs hvs' (spec_rows table st rows)"
    using Execute_dml [OF h i assms(2) u assms(4) _ _ g] assms(6,7) r unfolding dml_effect_def by blast
  have "unat (nextXID (db_txn d')) = Suc (unat (nextXID (db_txn d)))"
    using g p a(3,7) unat_Suc_nextXID [OF i] by (auto simp: getAutoCommitWithXID_def session_def NextXID_def Let_def dml_post_def)
  then have gr: "grows_by 1 (Suc (length rows)) d d'" using grows_by_post [OF p] by simp
  have new: "\<forall>hv \<in> set hvs. Xmin (fst hv) \<noteq> xid \<and> Xmax (fst hv) \<noteq> xid"
    using h(2) a(7,10) by (fastforce simp: below_def)
  have "\<forall>y. committed (after_txn xid auto tm1) y \<longleftrightarrow> y = xid \<or> committed (db_txn d) y"
    using a(7,9) by simp
  then have "rows_of (after_txn xid auto tm1) hvs' = spec_rows table st rows"
    using c new unfolding becomes_def by blast
  then show ?thesis using e gr p dml_keeps [OF assms(1) u assms(2) g p b] by (auto simp: dml_post_def)
qed

section \<open>A statement inside a transaction\<close>

definition begin_txn :: "db \<Rightarrow> u64 \<times> db" where
  "begin_txn d = (case NextXID (db_txn d) of (x, tm) \<Rightarrow> (x, d\<lparr>db_txn := tm\<rparr>))"

lemma begin_txn:
  assumes "db_inv d" and "xid_room (db_txn d)" and "begin_txn d = (x, d1)"
  shows "db_inv d1" and "runs_under x d1" and "x \<noteq> 0" and "select_all d1 n = select_all d n" and "db_catalog d1 = db_catalog d"
    and "below (db_txn d) hvs \<Longrightarrow> \<forall>hv \<in> set hvs. Xmin (fst hv) \<noteq> x \<and> Xmax (fst hv) \<noteq> x"
proof -
  obtain tm where t: "NextXID (db_txn d) = (x, tm)" and d1: "d1 = d\<lparr>db_txn := tm\<rparr>"
    using assms(3) by (auto simp: begin_txn_def split: prod.splits)
  note i = db_inv_parts(2) [OF assms(1)]
  note f = NextXID_fresh [OF i t]
  have ti: "txn_inv tm" using txn_inv_NextXID [OF i assms(2)] t by simp
  have c: "committed tm y = committed (db_txn d) y" for y using committed_NextXID [of "db_txn d" y] t by simp
  have le: "nextXID (db_txn d) \<le> nextXID tm"
    using unat_Suc_nextXID [OF i] t by (auto simp: NextXID_def Let_def word_le_nat_alt)
  show "db_inv d1" unfolding d1 using assms(1) ti le by (rule db_inv_txn)
  show "runs_under x d1" using f(2,4) c by (simp add: runs_under_def d1)
  show "x \<noteq> 0" using f(1) by auto
  show "db_catalog d1 = db_catalog d" by (simp add: d1)
  show "below (db_txn d) hvs \<Longrightarrow> \<forall>hv \<in> set hvs. Xmin (fst hv) \<noteq> x \<and> Xmax (fst hv) \<noteq> x"
    using f(3) by (fastforce simp: below_def)
  show "select_all d1 n = select_all d n"
  proof (cases "GetTable ''public'' n (db_catalog d)")
    case (Ok t)
    then obtain hvs where h: "db_table d n t hvs" using db_inv_exists [OF assms(1)] by blast
    have "rows_of tm hvs = rows_of (db_txn d) hvs" by (simp add: rows_of_def live_def [abs_def] c)
    then show ?thesis using select_all_txn [OF h ti] select_all_rows [OF h i] d1 by simp
  next
    case (Err e)
    then show ?thesis by (simp add: select_all_missing d1)
  qed (simp add: GetTable_def split: option.splits)
qed

text \<open>A statement of an open transaction: nothing shows before the commit.\<close>

lemma open_step:
  assumes "db_inv d" and "xid_room (db_txn d)" and "runs_under x d" and "x \<noteq> 0"
    and "db_table d tname table hvs" and "below (db_txn d) hvs" and "rows = rows_of (db_txn d) hvs"
    and "target st = Some tname" and "spec_ok table st rows" and "file_room d table rows"
  obtains d' hvs' where "Execute (session x d) st d = (Ok (tag_only (spec_tag table st rows)), d')"
    and "db_inv d'" and "db_txn d' = db_txn d" and "db_catalog d' = db_catalog d" and "\<And>n. select_all d' n = select_all d n"
    and "\<And>n t gvs. n \<noteq> tname \<Longrightarrow> db_table d n t gvs \<Longrightarrow> db_table d' n t gvs"
    and "db_table d' tname table hvs'" and "becomes (db_txn d) x hvs hvs' (spec_rows table st rows)"
    and "grows_by 0 (Suc (length rows)) d d'"
proof -
  note i = db_inv_parts [OF assms(1)]
  have g: "getAutoCommitWithXID (session x d) (db_txn d) = (x, False, db_txn d)"
    using assms(4) by (simp add: getAutoCommitWithXID_def session_def)
  obtain d' hvs' where e: "Execute (session x d) st d = (Ok (tag_only (spec_tag table st rows)), d')"
    and p: "dml_post (Suc (length rows)) d tname table (db_txn d) hvs' d'" and b: "below (db_txn d) hvs'"
    and c: "becomes (db_txn d) x hvs hvs' (spec_rows table st rows)"
    using Execute_dml [OF assms(5,6) i(2) assms(2,3,8) _ _ g] assms(7,9,10) by (auto simp: dml_effect_def after_txn_def)
  note k = dml_keeps [OF assms(1,3,2) g, unfolded after_txn_def if_False, OF p b]
  have "select_all d' n = select_all d n" for n
    using k(2) k(3) [of n] select_all_rows [OF assms(5) i(2)] c by (cases "n = tname") (auto simp: becomes_def)
  then show thesis using that [OF e k(1) _ _ _ dml_post_other [OF i(1) p] _ c] p grows_by_post [OF p, of 0] by (simp add: dml_post_def)
qed

lemma abort_select:
  assumes "db_inv d" and "runs_under x d" and "x \<noteq> 0"
  shows "select_all (d\<lparr>db_txn := Abort x (db_txn d)\<rparr>) n = select_all d n"
    and "db_inv (d\<lparr>db_txn := Abort x (db_txn d)\<rparr>)"
proof -
  note i = db_inv_parts(2) [OF assms(1)]
  have x: "0 < x" "x \<le> nextXID (db_txn d)" "\<not> committed (db_txn d) x"
    using assms(2,3) by (auto simp: runs_under_def word_gt_0)
  have ti: "txn_inv (Abort x (db_txn d))" using txn_inv_SetStatus [OF i _ x(1,2)] by (simp add: Abort_def)
  show "db_inv (d\<lparr>db_txn := Abort x (db_txn d)\<rparr>)" using assms(1) ti by (rule db_inv_txn) (simp add: Abort_def)
  have "rows_of (Abort x (db_txn d)) hvs = rows_of (db_txn d) hvs" for hvs
    using x(3) by (intro rows_of_cong) (auto simp: Abort_def committed_SetStatus)
  then show "select_all (d\<lparr>db_txn := Abort x (db_txn d)\<rparr>) n = select_all d n"
    using select_all_txn [OF _ ti] select_all_rows [OF _ i] db_inv_exists [OF assms(1)] select_all_missing
    by (rule_tac GetTable_cases [of "''public''" n "db_catalog d"]) (fastforce simp: select_all_missing)+
qed


lemma commit_select:
  assumes "db_inv d" and "runs_under x d" and "x \<noteq> 0"
  shows "db_inv (d\<lparr>db_txn := Commit x (db_txn d)\<rparr>)"
    and "db_table d n t hvs \<Longrightarrow> select_all (d\<lparr>db_txn := Commit x (db_txn d)\<rparr>) n = Some (rows_of (Commit x (db_txn d)) hvs)"
    and "committed (Commit x (db_txn d)) y \<longleftrightarrow> y = x \<or> committed (db_txn d) y"
proof -
  have x: "0 < x" "x \<le> nextXID (db_txn d)" using assms(2,3) by (auto simp: runs_under_def word_gt_0)
  have ti: "txn_inv (Commit x (db_txn d))"
    using txn_inv_SetStatus [OF db_inv_parts(2) [OF assms(1)] _ x] by (simp add: Commit_def)
  show "db_inv (d\<lparr>db_txn := Commit x (db_txn d)\<rparr>)" using assms(1) ti by (rule db_inv_txn) (simp add: Commit_def)
  show "db_table d n t hvs \<Longrightarrow> select_all (d\<lparr>db_txn := Commit x (db_txn d)\<rparr>) n = Some (rows_of (Commit x (db_txn d)) hvs)"
    using ti by (intro select_all_txn)
  show "committed (Commit x (db_txn d)) y \<longleftrightarrow> y = x \<or> committed (db_txn d) y"
    by (simp add: Commit_def committed_SetStatus)
qed

text \<open>A commit changes no table in which the transaction has no versions.\<close>

lemma commit_frame:
  assumes "db_inv d" and "runs_under x d" and "x \<noteq> 0"
    and "\<And>t. GetTable ''public'' n (db_catalog d) = Ok t \<Longrightarrow>
      \<exists>hvs. db_table d n t hvs \<and> (\<forall>hv \<in> set hvs. Xmin (fst hv) \<noteq> x \<and> Xmax (fst hv) \<noteq> x)"
  shows "select_all (d\<lparr>db_txn := Commit x (db_txn d)\<rparr>) n = select_all d n"
proof (rule GetTable_cases [of "''public''" n "db_catalog d"])
  note cs = commit_select [OF assms(1-3)]
  fix t assume "GetTable ''public'' n (db_catalog d) = Ok t"
  then obtain hvs where h: "db_table d n t hvs" "\<forall>hv \<in> set hvs. Xmin (fst hv) \<noteq> x \<and> Xmax (fst hv) \<noteq> x"
    using assms(4) by blast
  have "rows_of (Commit x (db_txn d)) hvs = rows_of (db_txn d) hvs" using cs(3) h(2) by (rule rows_of_commit_frame)
  then show ?thesis using cs(2) [OF h(1)] select_all_rows [OF h(1)] assms(1) by (simp add: db_inv_def)
qed (simp add: select_all_missing)

lemma begin_below:
  assumes "db_inv d" and "begin_txn d = (x, d1)" and "below (db_txn d) hvs"
  shows "below (db_txn d1) hvs"
  using assms(2) unat_Suc_nextXID [OF db_inv_parts(2) [OF assms(1)]]
  by (intro below_mono [OF assms(3)]) (auto simp: begin_txn_def NextXID_def Let_def word_le_nat_alt)

lemma in_transaction_rows:
  assumes "db_inv d" and "xid_room (db_txn d)" and "begin_txn d = (x, d1)" and "xid_room (db_txn d1)"
    and "GetTable ''public'' tname (db_catalog d) = Ok table" and "target st = Some tname"
    and "select_all d tname = Some rows" and "spec_ok table st rows" and "file_room d table rows"
  shows "\<exists>d2. Execute (session x d1) st d1 = (Ok (tag_only (spec_tag table st rows)), d2) \<and> db_inv d2 \<and>
    (\<forall>n. select_all d2 n = select_all d n) \<and>
    select_all (d2\<lparr>db_txn := Commit x (db_txn d2)\<rparr>) tname = Some (spec_rows table st rows) \<and>
    (\<forall>n. n \<noteq> tname \<longrightarrow> select_all (d2\<lparr>db_txn := Commit x (db_txn d2)\<rparr>) n = select_all d n) \<and>
    (\<forall>n. select_all (d2\<lparr>db_txn := Abort x (db_txn d2)\<rparr>) n = select_all d n)"
proof -
  note b = begin_txn [OF assms(1-3)]
  obtain tm where d1: "d1 = d\<lparr>db_txn := tm\<rparr>" using assms(3) by (auto simp: begin_txn_def split: prod.splits)
  obtain hvs where h: "db_table d tname table hvs" "below (db_txn d) hvs" using db_inv_exists [OF assms(1,5)] by blast
  have h1: "db_table d1 tname table hvs" "below (db_txn d1) hvs"
    using h begin_below [OF assms(1,3)] by (simp_all add: d1)
  have r: "rows = rows_of (db_txn d1) hvs" using select_all_rows [OF h1(1)] b(1,4) assms(7) by (simp add: db_inv_def)
  have f: "file_room d1 table rows" using assms(9) by (simp add: d1 file_room_def)
  obtain d2 hvs' where e: "Execute (session x d1) st d1 = (Ok (tag_only (spec_tag table st rows)), d2)"
    and i: "db_inv d2" and t: "db_txn d2 = db_txn d1" and cat: "db_catalog d2 = db_catalog d1" and v: "\<And>n. select_all d2 n = select_all d1 n"
    and o: "\<And>n t gvs. n \<noteq> tname \<Longrightarrow> db_table d1 n t gvs \<Longrightarrow> db_table d2 n t gvs"
    and h2: "db_table d2 tname table hvs'" and c: "becomes (db_txn d1) x hvs hvs' (spec_rows table st rows)"
    using open_step [OF b(1) assms(4) b(2,3) h1 r assms(6,8) f] by metis
  have u: "runs_under x d2" using b(2) t by (simp add: runs_under_def)
  note cs = commit_select [OF i u b(3)]
  have "rows_of (Commit x (db_txn d2)) hvs' = spec_rows table st rows"
    using c b(6) [OF h(2)] cs(3) t unfolding becomes_def by metis
  moreover have "select_all (d2\<lparr>db_txn := Commit x (db_txn d2)\<rparr>) n = select_all d2 n" if n: "n \<noteq> tname" for n
    using db_inv_exists [OF assms(1), of n] o [OF n] b(5,6) cat by (intro commit_frame [OF i u b(3)]) (fastforce simp: d1)
  ultimately show ?thesis
    using e i v b(4) cs(2) [OF h2] abort_select(1) [OF i u b(3)] by (intro exI [of _ d2]) simp
qed

section \<open>CREATE TABLE and DROP TABLE\<close>

lemma select_all_cong:
  assumes "GetTable ''public'' n (db_catalog d') = GetTable ''public'' n (db_catalog d)"
    and "db_txn d' = db_txn d" and "file_of d' = file_of d" and "db_inv d"
  shows "select_all d' n = select_all d n"
proof (cases "GetTable ''public'' n (db_catalog d)")
  case (Ok t)
  then obtain hvs where h: "db_table d n t hvs" using db_inv_exists [OF assms(4)] by blast
  then have "db_table d' n t hvs" using assms by (simp add: db_table_def)
  then show ?thesis using select_all_rows [of d' n t hvs] select_all_rows [OF h] db_inv_parts(2) [OF assms(4)] assms(2) by simp
next
  case (Err e)
  then show ?thesis using assms(1) by (simp add: select_all_missing)
qed (simp add: GetTable_def split: option.splits)

text \<open>
  \<open>CREATE TABLE\<close> writes no file: the new table reads whatever the file of its OID already holds,
  under every later state of the transaction manager.
\<close>

lemma create_table_rows:
  assumes "db_inv d" and "catalog_room (db_catalog d)" and "cols \<noteq> []" and "create_columns cols = Ok columns"
    and "GetTable ''public'' tname (db_catalog d) = Err err"
  obtains d' t where "executeCreateTable tname cols d = (Ok (tag_only ''CREATE TABLE''), d')"
    and "db_files d' = db_files d" and "db_txn d' = db_txn d"
    and "GetTable ''public'' tname (db_catalog d') = Ok t" and "tbl_Columns t = columns" and "tbl_OID t = cat_nextOID (db_catalog d)"
    and "\<And>n. n \<noteq> tname \<Longrightarrow> select_all d' n = select_all d n"
    and "\<And>hss tm. table_rep (file_of d (cat_nextOID (db_catalog d))) columns hss \<Longrightarrow> txn_inv tm \<Longrightarrow>
      select_all (d'\<lparr>db_txn := tm\<rparr>) tname = Some (rows_of tm (concat hss))"
    and "\<And>hss. table_rep (file_of d (cat_nextOID (db_catalog d))) columns hss \<Longrightarrow> below (db_txn d) (concat hss) \<Longrightarrow> db_inv d'"
proof -
  let ?c = "db_catalog d"
  define t where "t = \<lparr>tbl_OID = cat_nextOID ?c, tbl_Name = tname, tbl_Schema = ''public'', tbl_Columns = columns\<rparr>"
  define c' where "c' = ?c\<lparr>cat_tables := (cat_tables ?c)(table_key ''public'' tname \<mapsto> t), cat_nextOID := cat_nextOID ?c + 1\<rparr>"
  let ?d = "d\<lparr>db_catalog := c'\<rparr>"
  have cr: "CreateTable ''public'' tname columns ?c = (Ok (), c')"
    using assms(5) by (simp add: CreateTable_def GetTable_def Let_def t_def c'_def split: option.splits)
  have gt: "GetTable ''public'' tname c' = Ok t" by (simp add: GetTable_def c'_def)
  have go: "n \<noteq> tname \<Longrightarrow> GetTable ''public'' n c' = GetTable ''public'' n ?c" for n
    by (simp add: GetTable_def c'_def)
  have files: "file_of ?d = file_of d" by (rule ext) (simp add: file_of_def)
  have ci: "catalog_inv c'"
    using catalog_inv_CreateTable [of ?c "''public''" tname columns] db_inv_parts(1) [OF assms(1)] assms(2) cr
    by (simp add: catalog_room_def)
  have new: "db_table ?d tname t (concat hss)" if "table_rep (file_of d (cat_nextOID ?c)) columns hss" for hss
    using gt that files by (auto simp: db_table_def t_def)
  have old: "\<exists>hvs. db_table ?d n u hvs \<and> below (db_txn d) hvs" if "GetTable ''public'' n c' = Ok u" "n \<noteq> tname" for n u
    using db_inv_exists [OF assms(1), of n u] that go files by (auto simp: db_table_def)
  show thesis
  proof (rule that)
    show "executeCreateTable tname cols d = (Ok (tag_only ''CREATE TABLE''), ?d)"
      using assms(3,4) cr by (simp add: executeCreateTable_def)
    show "select_all ?d n = select_all d n" if "n \<noteq> tname" for n
      using go [OF that] files assms(1) by (intro select_all_cong) simp_all
    show "select_all (?d\<lparr>db_txn := tm\<rparr>) tname = Some (rows_of tm (concat hss))"
      if "table_rep (file_of d (cat_nextOID ?c)) columns hss" "txn_inv tm" for hss tm
      using select_all_txn [OF new [OF that(1)] that(2)] .
    show "db_inv ?d" if "table_rep (file_of d (cat_nextOID ?c)) columns hss" "below (db_txn d) (concat hss)" for hss
    proof -
      have "\<exists>hvs. db_table ?d n u hvs \<and> below (db_txn d) hvs" if "GetTable ''public'' n c' = Ok u" for n u
        using old [OF that] new [OF \<open>table_rep _ _ hss\<close>] \<open>below _ (concat hss)\<close> gt that by (cases "n = tname") auto
      then show ?thesis using ci db_inv_parts(2) [OF assms(1)] by (simp add: db_inv_def)
    qed
    show "GetTable ''public'' tname (db_catalog ?d) = Ok t" using gt by simp
    show "tbl_Columns t = columns" "tbl_OID t = cat_nextOID ?c" by (simp_all add: t_def)
  qed simp_all
qed

lemma create_table_fresh:
  assumes "db_inv d" and "catalog_room (db_catalog d)" and "cols \<noteq> []" and "create_columns cols = Ok columns"
    and "GetTable ''public'' tname (db_catalog d) = Err err" and "file_of d (cat_nextOID (db_catalog d)) = []"
  shows "db_inv (snd (executeCreateTable tname cols d))" and "select_all (snd (executeCreateTable tname cols d)) tname = Some []"
proof -
  have e: "table_rep (file_of d (cat_nextOID (db_catalog d))) columns []" using assms(6) table_rep_empty by simp
  obtain d' t where d': "executeCreateTable tname cols d = (Ok (tag_only ''CREATE TABLE''), d')"
    "db_files d' = db_files d" "db_txn d' = db_txn d"
    "GetTable ''public'' tname (db_catalog d') = Ok t" "tbl_Columns t = columns" "tbl_OID t = cat_nextOID (db_catalog d)"
    "\<And>n. n \<noteq> tname \<Longrightarrow> select_all d' n = select_all d n"
    "\<And>hss tm. table_rep (file_of d (cat_nextOID (db_catalog d))) columns hss \<Longrightarrow> txn_inv tm \<Longrightarrow>
      select_all (d'\<lparr>db_txn := tm\<rparr>) tname = Some (rows_of tm (concat hss))"
    "\<And>hss. table_rep (file_of d (cat_nextOID (db_catalog d))) columns hss \<Longrightarrow> below (db_txn d) (concat hss) \<Longrightarrow> db_inv d'"
    using create_table_rows [OF assms(1-5)] by blast
  have "select_all (d'\<lparr>db_txn := db_txn d\<rparr>) tname = Some []"
    using d'(8) [OF e db_inv_parts(2) [OF assms(1)]] by (simp add: rows_of_def)
  then have "select_all d' tname = Some []" by (simp add: d'(3) [symmetric])
  then show "db_inv (snd (executeCreateTable tname cols d))" "select_all (snd (executeCreateTable tname cols d)) tname = Some []"
    using d'(1) d'(9) [OF e] by (simp_all add: below_def)
qed

lemma drop_table_rows:
  assumes "db_inv d" and "GetTable ''public'' tname (db_catalog d) = Ok table"
  shows "\<exists>d'. executeDropTable tname ifExists d = (Ok (tag_only ''DROP TABLE''), d') \<and> db_inv d' \<and>
    select_all d' tname = None \<and> (\<forall>n. n \<noteq> tname \<longrightarrow> select_all d' n = select_all d n)"
proof -
  obtain c' where c: "DropTable ''public'' tname ifExists (db_catalog d) = (Ok (), c')"
    and e: "GetTable ''public'' tname c' = Err (ErrRelationMissing tname)"
    and o: "\<And>m. m \<noteq> tname \<Longrightarrow> GetTable ''public'' m c' = GetTable ''public'' m (db_catalog d)"
    using pub.drop_present [OF assms(2)] by blast
  let ?d = "d\<lparr>db_catalog := c'\<rparr>"
  have files: "file_of ?d = file_of d" by (rule ext) (simp add: file_of_def)
  have "catalog_inv c'" using pub.inv_drop [OF db_inv_parts(1) [OF assms(1)], of tname ifExists] c by simp
  moreover have "\<exists>hvs. db_table ?d n u hvs \<and> below (db_txn d) hvs" if g: "GetTable ''public'' n c' = Ok u" for n u
  proof -
    have n: "n \<noteq> tname" using g e by auto
    then obtain hvs where "db_table d n u hvs" "below (db_txn d) hvs"
      using db_inv_exists [OF assms(1), of n u] g o by auto
    then show ?thesis using o [OF n] files by (auto simp: db_table_def)
  qed
  ultimately have "db_inv ?d"
    using db_inv_parts(2) [OF assms(1)] by (simp add: db_inv_def)
  moreover have "select_all ?d tname = None" using e by (simp add: select_all_missing)
  moreover have "n \<noteq> tname \<Longrightarrow> select_all ?d n = select_all d n" for n
    using o files assms(1) by (intro select_all_cong) simp_all
  ultimately show ?thesis using c by (auto simp: executeDropTable_def)
qed

section \<open>A checked predicate never fails\<close>

lemma decoded_row_kinds:
  assumes "row_ok vs cols" and "stored_row vs = vs"
  shows "row_kinds vs cols"
proof -
  have "has_kind (vs ! i) k" if i: "i < length cols" "col_kind (col_TypeOID (cols ! i)) = Some k" for i k
  proof (cases "vs ! i")
    case (Some x)
    have "i < length vs" using i(1) assms(1) by (simp add: row_ok_def list_all2_lengthD)
    then have "stored_value x = x" using assms(2) Some by (metis nth_map option.inject option.simps(9) stored_row_def)
    moreover have "value_ok (col_TypeOID (cols ! i)) x"
      using assms(1) i(1) Some by (auto simp: row_ok_def list_all2_conv_all_nth)
    ultimately show ?thesis
      using i(2) Some
      by (cases x) (auto simp: value_ok_def variable_oid_def value_has_type_def col_kind_def has_kind_def value_kind_def
          oid_defs split: if_splits)
  qed (simp add: has_kind_def)
  then show ?thesis using assms(1) by (simp add: row_kinds_def row_ok_def list_all2_lengthD)
qed

lemma db_table_row_kinds:
  assumes "db_table d n t hvs" and "r \<in> set (rows_of tm hvs)"
  shows "row_kinds r (tbl_Columns t)"
proof -
  obtain hv where h: "hv \<in> set hvs" "r = snd hv" using assms(2) by (auto simp: rows_of_def)
  obtain hss where "table_rep (file_of d (tbl_OID t)) (tbl_Columns t) hss" "concat hss = hvs"
    using assms(1) by (auto simp: db_table_def)
  then obtain u where "DecodeTuple u (tbl_Columns t) = Ok (fst hv, snd hv)"
    using table_rep_decoded [of _ _ hss hv] h by (auto simp: decodes_def)
  then show ?thesis using DecodeTuple_ok decoded_row_kinds h(2) by blast
qed

section \<open>A small database\<close>

definition demo_specs :: "column_spec list" where
  "demo_specs =
     [\<lparr>spec_Name = ''id'', spec_TypeName = ''int'', spec_NotNull = True, spec_PrimaryKey = False\<rparr>,
      \<lparr>spec_Name = ''name'', spec_TypeName = ''TEXT'', spec_NotNull = False, spec_PrimaryKey = False\<rparr>]"

definition demo_columns :: "column_def list" where
  "demo_columns =
     [\<lparr>col_Name = ''id'', col_TypeOID = 23, col_TypeMod = - 1, col_NotNull = True, col_HasDefault = False, col_Default = []\<rparr>,
      \<lparr>col_Name = ''name'', col_TypeOID = 25, col_TypeMod = - 1, col_NotNull = False, col_HasDefault = False, col_Default = []\<rparr>]"

definition demo_db :: db where
  "demo_db = snd (executeCreateTable ''t'' demo_specs db_init)"

definition demo_table :: table_def where
  "demo_table = \<lparr>tbl_OID = 16384, tbl_Name = ''t'', tbl_Schema = ''public'', tbl_Columns = demo_columns\<rparr>"

definition demo_insert :: statement where
  "demo_insert = InsertStatement ''t'' [] [IntegerLiteral 7, StringLiteral ''ab'']"

lemma create_columns_demo: "create_columns demo_specs = Ok demo_columns"
  by code_simp

lemma demo_db_eq: "demo_db = db_init\<lparr>db_catalog := \<lparr>cat_tables = [''public.t'' \<mapsto> demo_table], cat_nextOID = 16385\<rparr>\<rparr>"
  using create_columns_demo
  by (simp add: demo_db_def executeCreateTable_def demo_specs_def CreateTable_def db_init_def start_db_def NewCatalog_def table_key_def
      demo_table_def)

lemma demo_db:
  "db_inv demo_db" "GetTable ''public'' ''t'' (db_catalog demo_db) = Ok demo_table" "select_all demo_db ''t'' = Some []"
proof -
  have g: "GetTable ''public'' ''t'' (db_catalog db_init) = Err (ErrRelationMissing ''t'')"
    by (simp add: db_init_def start_db_def NewCatalog_def GetTable_def)
  have r: "catalog_room (db_catalog db_init)" by (simp add: catalog_room_def db_init_def start_db_def NewCatalog_def)
  have n: "demo_specs \<noteq> []" by (simp add: demo_specs_def)
  show "db_inv demo_db" "select_all demo_db ''t'' = Some []"
    using create_table_fresh [OF db_inv_start, of Map.empty, folded db_init_def, OF r n create_columns_demo g]
    by (auto simp: demo_db_def file_of_def db_init_def)
  show "GetTable ''public'' ''t'' (db_catalog demo_db) = Ok demo_table"
    by (simp add: demo_db_eq GetTable_def table_key_def)
qed

lemma demo_rooms: "xid_room (db_txn demo_db)" "file_room demo_db demo_table []"
  by (simp_all add: demo_db_eq xid_room_def file_room_def db_init_def start_db_def NewTxnManager_def file_of_def PageCount_def)

lemma demo_insert:
  "target demo_insert = Some ''t''" "spec_ok demo_table demo_insert rows"
  "spec_rows demo_table demo_insert rows = rows @ [[Some (VInt32 7), Some (VString ''ab'')]]"
  "spec_tag demo_table demo_insert rows = ''INSERT 0 1''"
proof -
  have v: "insert_values demo_table [] [IntegerLiteral 7, StringLiteral ''ab''] = Ok (demo_columns, [Some (VInt32 7), Some (VString ''ab'')])"
    by code_simp
  have f: "tuple_fits [Some (VInt32 7), Some (VString ''ab'')] demo_columns" by code_simp
  show "target demo_insert = Some ''t''" "spec_tag demo_table demo_insert rows = ''INSERT 0 1''"
    by (simp_all add: demo_insert_def)
  show "spec_ok demo_table demo_insert rows"
    using f by (simp add: demo_insert_def v) (simp add: demo_table_def)
  show "spec_rows demo_table demo_insert rows = rows @ [[Some (VInt32 7), Some (VString ''ab'')]]"
    by (simp add: demo_insert_def v stored_row_def)
qed

definition demo_db1 :: db where
  "demo_db1 = snd (Execute (session 0 demo_db) demo_insert demo_db)"

lemma demo_db1:
  "db_inv demo_db1" "GetTable ''public'' ''t'' (db_catalog demo_db1) = Ok demo_table"
  "select_all demo_db1 ''t'' = Some [[Some (VInt32 7), Some (VString ''ab'')]]"
proof -
  have "db_inv demo_db1 \<and> select_all demo_db1 ''t'' = Some [[Some (VInt32 7), Some (VString ''ab'')]]"
    using autocommit_rows [OF demo_db(1) demo_rooms(1) demo_db(2) demo_insert(1) demo_db(3) demo_insert(2) demo_rooms(2)]
    by (auto simp: demo_insert demo_db1_def)
  then show "db_inv demo_db1" "select_all demo_db1 ''t'' = Some [[Some (VInt32 7), Some (VString ''ab'')]]" by simp_all
  have "db_catalog (snd (executeInsert e tn names exprs d)) = db_catalog d" for e tn names exprs d
    by (auto simp: executeInsert_def NewHeapFile_def Let_def split: result.splits option.splits prod.splits)
  then show "GetTable ''public'' ''t'' (db_catalog demo_db1) = Ok demo_table"
    using demo_db(2) by (simp add: demo_db1_def demo_insert_def)
qed

section \<open>Properties\<close>

text \<open>C4. A statement outside a transaction refines its specification on rows. For \<open>INSERT\<close>, \<open>UPDATE\<close> and \<open>DELETE\<close> on a table of a well-formed database, \<open>Execute\<close> succeeds with the right command tag, what \<open>SELECT *\<close> returns for the table afterwards is what the specification makes of what it returned before, every other table reads as before, and the database stays well-formed.\<close>

theorem statement_autocommit:
  assumes "db_inv d" and "xid_room (db_txn d)" and "GetTable ''public'' tname (db_catalog d) = Ok table"
    and "target st = Some tname" and "select_all d tname = Some rows"
    and "spec_ok table st rows" and "file_room d table rows"
  shows "\<exists>d'. Execute (session 0 d) st d = (Ok (tag_only (spec_tag table st rows)), d') \<and> db_inv d' \<and>
    select_all d' tname = Some (spec_rows table st rows) \<and> (\<forall>n. n \<noteq> tname \<longrightarrow> select_all d' n = select_all d n)"
  using autocommit_rows [OF assms] by blast

theorem statement_autocommit_witness:
  "\<exists>d'. Execute (session 0 demo_db) demo_insert demo_db = (Ok (tag_only ''INSERT 0 1''), d') \<and> db_inv d' \<and>
     select_all d' ''t'' = Some [[Some (VInt32 7), Some (VString ''ab'')]]"
  using statement_autocommit [OF demo_db(1) demo_rooms(1) demo_db(2) demo_insert(1) demo_db(3) demo_insert(2) demo_rooms(2)]
  by (auto simp: demo_insert)

text \<open>C5. A statement inside a transaction block is isolated and atomic: after it, every table still reads as before the transaction began; once the transaction commits, its table reads as the specification says, all at once, and every other table as before; and if it aborts instead, every table reads as before.\<close>

theorem statement_in_transaction:
  assumes "db_inv d" and "xid_room (db_txn d)" and "begin_txn d = (x, d1)" and "xid_room (db_txn d1)"
    and "GetTable ''public'' tname (db_catalog d) = Ok table" and "target st = Some tname"
    and "select_all d tname = Some rows" and "spec_ok table st rows" and "file_room d table rows"
  shows "\<exists>d2. Execute (session x d1) st d1 = (Ok (tag_only (spec_tag table st rows)), d2) \<and> db_inv d2 \<and>
    (\<forall>n. select_all d2 n = select_all d n) \<and>
    select_all (d2\<lparr>db_txn := Commit x (db_txn d2)\<rparr>) tname = Some (spec_rows table st rows) \<and>
    (\<forall>n. n \<noteq> tname \<longrightarrow> select_all (d2\<lparr>db_txn := Commit x (db_txn d2)\<rparr>) n = select_all d n) \<and>
    (\<forall>n. select_all (d2\<lparr>db_txn := Abort x (db_txn d2)\<rparr>) n = select_all d n)"
  using assms by (rule in_transaction_rows)

theorem statement_in_transaction_witness:
  "\<exists>x d1 d2. begin_txn demo_db = (x, d1) \<and>
     Execute (session x d1) demo_insert d1 = (Ok (tag_only ''INSERT 0 1''), d2) \<and> select_all d2 ''t'' = Some [] \<and>
     select_all (d2\<lparr>db_txn := Commit x (db_txn d2)\<rparr>) ''t'' = Some [[Some (VInt32 7), Some (VString ''ab'')]] \<and>
     select_all (d2\<lparr>db_txn := Abort x (db_txn d2)\<rparr>) ''t'' = Some []"
proof -
  obtain x d1 where b: "begin_txn demo_db = (x, d1)" by (cases "begin_txn demo_db")
  then have r: "xid_room (db_txn d1)"
    by (auto simp: begin_txn_def NextXID_def demo_db_eq db_init_def start_db_def NewTxnManager_def xid_room_def)
  show ?thesis
    using statement_in_transaction [OF demo_db(1) demo_rooms(1) b r demo_db(2) demo_insert(1) demo_db(3) demo_insert(2) demo_rooms(2)]
      b demo_db(3) by (auto simp: demo_insert)
qed

text \<open>C12. \<open>SELECT\<close> returns exactly the requested columns of the visible rows that satisfy the \<open>WHERE\<close> clause, in the order they are stored, and counts them in its tag.\<close>

theorem select_returns_matching_rows:
  assumes "db_inv d" and "GetTable ''public'' tname (db_catalog d) = Ok table" and "select_all d tname = Some rows"
    and "projection names (tbl_Columns table) = Ok (cs, is)" and "list_all (where_ok (tbl_Columns table) wh) rows"
  shows "fst (executeSelect (session x d) names tname wh d) =
    (let out = map (pick is) (filter (where_true (tbl_Columns table) wh) rows)
     in Ok \<lparr>res_Tag = ''SELECT '' @ FormatInt (int (length out)), res_Columns = cs, res_Rows = out\<rparr>)"
proof -
  obtain hvs where h: "db_table d tname table hvs" and r: "rows_of (db_txn d) hvs = rows"
    using db_inv_table [OF assms(1-3)] by blast
  show ?thesis
    using executeSelect_rows [OF h db_inv_parts(2) [OF assms(1)] assms(4)] assms(5) r by (auto simp: list_all_iff)
qed

theorem select_returns_matching_rows_witness:
  "fst (executeSelect (session 0 demo_db1) [''name''] ''t'' (Some (BinaryExpr (ColumnRef ''id'') ''>'' (IntegerLiteral 5))) demo_db1) =
     Ok \<lparr>res_Tag = ''SELECT 1'', res_Columns = [demo_columns ! 1], res_Rows = [[Some (VString ''ab'')]]\<rparr>"
proof -
  let ?w = "Some (BinaryExpr (ColumnRef ''id'') ''>'' (IntegerLiteral 5))" and ?r = "[Some (VInt32 7), Some (VString ''ab'')]"
  have p: "projection [''name''] (tbl_Columns demo_table) = Ok ([demo_columns ! 1], [1])" by code_simp
  have w: "where_true (tbl_Columns demo_table) ?w ?r"
    using compareValues_int [of "VInt32 7" 7 "VInt64 5" 5 "''>''"]
    by (simp add: where_true_def demo_table_def demo_columns_def row_index_def int_value_def is_comparison_def op_holds_def)
  then have o: "list_all (where_ok (tbl_Columns demo_table) ?w) [?r]" by (simp add: where_true_def where_ok_def)
  have "FormatInt 1 = ''1''" by code_simp
  with select_returns_matching_rows [OF demo_db1 p o] w show ?thesis by (simp add: Let_def pick_def)
qed

text \<open>C32. \<open>CREATE TABLE\<close> under a free name registers the resolved columns under the next OID, leaves every other table as it reads and the files as they are. So the new table is not empty by itself: it reads what the file of its OID already holds. If that file is missing or empty, the table is empty and the database stays well-formed; if it holds rows of these columns, left by an earlier run of the server, a \<open>SELECT\<close> returns those of them that are visible, now and under every later state of the transactions.\<close>

theorem create_table_reads_file:
  assumes "db_inv d" and "catalog_room (db_catalog d)" and "cols \<noteq> []" and "create_columns cols = Ok columns"
    and "GetTable ''public'' tname (db_catalog d) = Err err"
  shows "\<exists>d' t. executeCreateTable tname cols d = (Ok (tag_only ''CREATE TABLE''), d') \<and>
    db_files d' = db_files d \<and> db_txn d' = db_txn d \<and>
    GetTable ''public'' tname (db_catalog d') = Ok t \<and> tbl_Columns t = columns \<and> tbl_OID t = cat_nextOID (db_catalog d) \<and>
    (\<forall>n. n \<noteq> tname \<longrightarrow> select_all d' n = select_all d n) \<and>
    (file_of d (tbl_OID t) = [] \<longrightarrow> select_all d' tname = Some [] \<and> db_inv d') \<and>
    (\<forall>hss tm. table_rep (file_of d (tbl_OID t)) columns hss \<and> txn_inv tm \<longrightarrow>
      select_all (d'\<lparr>db_txn := tm\<rparr>) tname = Some (rows_of tm (concat hss)))"
proof -
  obtain d' t where d': "executeCreateTable tname cols d = (Ok (tag_only ''CREATE TABLE''), d')"
    "db_files d' = db_files d" "db_txn d' = db_txn d"
    "GetTable ''public'' tname (db_catalog d') = Ok t" "tbl_Columns t = columns" "tbl_OID t = cat_nextOID (db_catalog d)"
    "\<And>n. n \<noteq> tname \<Longrightarrow> select_all d' n = select_all d n"
    "\<And>hss tm. table_rep (file_of d (cat_nextOID (db_catalog d))) columns hss \<Longrightarrow> txn_inv tm \<Longrightarrow>
      select_all (d'\<lparr>db_txn := tm\<rparr>) tname = Some (rows_of tm (concat hss))"
    "\<And>hss. table_rep (file_of d (cat_nextOID (db_catalog d))) columns hss \<Longrightarrow> below (db_txn d) (concat hss) \<Longrightarrow> db_inv d'"
    using create_table_rows [OF assms] by blast
  then show ?thesis using create_table_fresh [OF assms] by (intro exI [of _ d'] exI [of _ t]) simp
qed

text \<open>
  A server that starts again on a file of an earlier run, whose rows were written by the
  transactions 1, 2 and so on of that run: the table created anew reads as empty at first, and when
  the first transaction of the new run commits, the rows of the old transaction 1 appear in it.
\<close>

lemma stale_rows_reappear:
  assumes "cols \<noteq> []" and "create_columns cols = Ok columns" and "files 16384 = Some f" and "table_rep f columns hss"
  shows "\<exists>d'. executeCreateTable tname cols (start_db files) = (Ok (tag_only ''CREATE TABLE''), d') \<and>
    select_all d' tname = Some [] \<and>
    select_all (d'\<lparr>db_txn := Commit 1 (snd (NextXID (db_txn d')))\<rparr>) tname =
      Some (map snd (filter (\<lambda>hv. Xmin (fst hv) = 1 \<and> Xmax (fst hv) \<noteq> 1) (concat hss)))"
proof -
  let ?d = "start_db files"
  have r: "catalog_room (db_catalog ?d)" by (simp add: catalog_room_def NewCatalog_def)
  have g: "GetTable ''public'' tname (db_catalog ?d) = Err (ErrRelationMissing tname)" by (simp add: NewCatalog_def GetTable_def)
  have t: "table_rep (file_of ?d (cat_nextOID (db_catalog ?d))) columns hss" using assms(3,4) by (simp add: file_of_def NewCatalog_def)
  obtain d' where d': "executeCreateTable tname cols ?d = (Ok (tag_only ''CREATE TABLE''), d')" "db_txn d' = NewTxnManager"
    "\<And>tm. txn_inv tm \<Longrightarrow> select_all (d'\<lparr>db_txn := tm\<rparr>) tname = Some (rows_of tm (concat hss))"
    by (rule create_table_rows [OF db_inv_start r assms(1,2) g]) (use t in \<open>simp add: NewCatalog_def\<close>)
  let ?tm = "Commit 1 (snd (NextXID NewTxnManager))"
  have "txn_inv NewTxnManager" "txn_inv ?tm"
    by (simp_all add: txn_inv_def NewTxnManager_def NextXID_def Commit_def SetStatus_def Let_def)
  moreover have "\<not> committed NewTxnManager x" "committed ?tm x \<longleftrightarrow> x = 1" for x
    by (simp_all add: committed_def GetStatus_def NewTxnManager_def NextXID_def Commit_def SetStatus_def Let_def)
  ultimately have "select_all (d'\<lparr>db_txn := NewTxnManager\<rparr>) tname = Some []"
    "select_all (d'\<lparr>db_txn := ?tm\<rparr>) tname = Some (map snd (filter (\<lambda>hv. Xmin (fst hv) = 1 \<and> Xmax (fst hv) \<noteq> 1) (concat hss)))"
    using d'(3) by (simp_all add: rows_of_def live_def [abs_def])
  then show ?thesis using d'(1) by (simp add: d'(2) [symmetric])
qed

theorem create_table_reads_file_witness:
  "\<exists>d'. executeCreateTable ''u'' demo_specs demo_db = (Ok (tag_only ''CREATE TABLE''), d') \<and>
     select_all d' ''u'' = Some [] \<and> select_all d' ''t'' = Some []"
proof -
  have g: "GetTable ''public'' ''u'' (db_catalog demo_db) = Err (ErrRelationMissing ''u'')"
    by (simp add: demo_db_eq GetTable_def table_key_def)
  have r: "catalog_room (db_catalog demo_db)" "demo_specs \<noteq> []" by (simp_all add: catalog_room_def demo_db_eq demo_specs_def)
  have f: "file_of demo_db oid = []" for oid by (simp add: demo_db_eq file_of_def db_init_def)
  show ?thesis
    using create_table_reads_file [OF demo_db(1) r create_columns_demo g]
    by (elim exE conjE, intro exI conjI) (assumption, simp add: f, simp add: demo_db(3))
qed

text \<open>C33. \<open>DROP TABLE\<close> of an existing table succeeds; afterwards the table cannot be read, every other table reads as before, and the database stays well-formed.\<close>

theorem drop_table_removes:
  assumes "db_inv d" and "GetTable ''public'' tname (db_catalog d) = Ok table"
  shows "\<exists>d'. executeDropTable tname ifExists d = (Ok (tag_only ''DROP TABLE''), d') \<and> db_inv d' \<and>
    select_all d' tname = None \<and> (\<forall>n. n \<noteq> tname \<longrightarrow> select_all d' n = select_all d n)"
  using assms by (rule drop_table_rows)

theorem drop_table_removes_witness:
  "\<exists>d'. executeDropTable ''t'' False demo_db = (Ok (tag_only ''DROP TABLE''), d') \<and> select_all d' ''t'' = None"
  using drop_table_removes [OF demo_db(1,2), of False] by auto

text \<open>A \<open>WHERE\<close> clause that passes the static check against a table's columns evaluates without error on every row a client can read, so \<open>SELECT\<close>, \<open>UPDATE\<close> and \<open>DELETE\<close> with it never fail while scanning.\<close>

lemma checked_where_never_fails:
  assumes "db_inv d" and "GetTable ''public'' tname (db_catalog d) = Ok table" and "select_all d tname = Some rows"
    and "infer (tbl_Columns table) w = Some k"
  shows "list_all (where_ok (tbl_Columns table) (Some w)) rows"
proof -
  obtain hvs where h: "db_table d tname table hvs" and r: "rows_of (db_txn d) hvs = rows"
    using db_inv_table [OF assms(1-3)] by blast
  have "where_ok (tbl_Columns table) (Some w) row" if "row \<in> set rows" for row
    using evalExpr_kind [OF db_table_row_kinds [OF h, of row "db_txn d"] assms(4)] that r by (auto simp: where_ok_def)
  then show ?thesis by (simp add: list_all_iff)
qed

end
