(* ===== verification/Safety.thy ===== *)
theory Safety
  imports Statements
begin

text \<open>
  No statement of \<open>internal/executor/executor.go\<close> panics, and whatever its outcome it leaves
  well-formed heap files: sequences of pages of tuples. The invariant says nothing of the bytes of a
  tuple, so it also covers rows that do not decode and files of an earlier run; it needs only that
  the files stay below 16 GiB, because an \<open>UPDATE\<close> can add a page for each of the at most 2046
  items of a page and page numbers have 32 bits.
\<close>

section \<open>Panics of the pieces\<close>

lemma compareValues_no_panic: "compareValues l r op \<noteq> Panic"
  by (auto simp: compareValues_def compareFloat_def compareString_def compareBool_def split: option.split gvalue.split)

lemma evalLiteral_no_panic: "evalLiteral e col \<noteq> Panic"
  by (simp add: evalLiteral_def Let_def split: expression.split)

lemma find_column_bound: "find_column name cols = Some i \<Longrightarrow> i < length cols"
  by (induction cols arbitrary: i) (auto split: if_splits)

lemma evalExpr_no_panic: "length row = length cols \<Longrightarrow> evalExpr e row cols \<noteq> Panic"
proof (induction e)
  case (ColumnRef name)
  then show ?case by (auto simp: row_index_def dest: find_column_bound split: option.splits)
qed (auto simp: bind_Panic_iff compareValues_no_panic)

lemma apply_set_clauses_no_panic: "length vals = length cols \<Longrightarrow> apply_set_clauses tname sets cols vals \<noteq> Panic"
  by (induction tname sets cols vals rule: apply_set_clauses.induct)
     (auto simp: bind_Panic_iff evalLiteral_no_panic dest: find_column_bound split: option.splits)

lemma scan_tuple_sound:
  "scan_tuple snap tm cols wh data \<noteq> Panic \<and>
     (\<forall>h vs. scan_tuple snap tm cols wh data = Ok (Some (h, vs)) \<longrightarrow> length vs = length cols \<and> 16 \<le> length data)"
proof -
  have "length vs = length cols \<and> 16 \<le> length data" if "DecodeTuple data cols = Ok (h, vs)" for h vs
    using DecodeTuple_ok(1,3) [OF that] by (auto simp: row_ok_def dest: list_all2_lengthD)
  then show ?thesis
    using DecodeTuple_no_panic [of data cols] evalExpr_no_panic
    by (fastforce simp: scan_tuple_def result_iff split: option.splits if_splits)
qed

section \<open>Well-formed files\<close>

text \<open>
  A file of pages of tuples, of any lengths: also a tuple too short for its header, as a file on
  the disk may hold. Pages and items only ever grow, and no item changes its length.
\<close>

definition same_sizes :: "byte list list \<Rightarrow> byte list list \<Rightarrow> bool" where
  "same_sizes ts ts' \<longleftrightarrow> length ts \<le> length ts' \<and> (\<forall>j < length ts. length (ts' ! j) = length (ts ! j))"

definition grown :: "byte list list list \<Rightarrow> byte list list list \<Rightarrow> bool" where
  "grown pgs pgs' \<longleftrightarrow> length pgs \<le> length pgs' \<and> (\<forall>i < length pgs. same_sizes (pgs ! i) (pgs' ! i))"

lemma same_sizes_refl: "same_sizes ts ts"
  by (simp add: same_sizes_def)

lemma same_sizes_trans: "same_sizes a b \<Longrightarrow> same_sizes b c \<Longrightarrow> same_sizes a c"
  by (auto simp: same_sizes_def)

lemma grown_refl: "grown pgs pgs"
  by (simp add: grown_def same_sizes_refl)

lemma grown_trans: "grown a b \<Longrightarrow> grown b c \<Longrightarrow> grown a c"
  unfolding grown_def by (meson order_trans less_le_trans same_sizes_trans)

lemma grown_page: "grown pgs pgs' \<Longrightarrow> k < length pgs \<Longrightarrow> same_sizes ts (pgs ! k) \<Longrightarrow> k < length pgs' \<and> same_sizes ts (pgs' ! k)"
  by (auto simp: grown_def intro: same_sizes_trans)

lemma UpdateTupleHeader_ok:
  assumes "heap_rep f pgs" and "i < length pgs" and "j < length (pgs ! i)" and "16 \<le> length (pgs ! i ! j)"
  shows "\<exists>f' pgs'. UpdateTupleHeader (of_nat i) (of_nat j) h f = (Ok (), f') \<and> heap_rep f' pgs' \<and> grown pgs pgs' \<and> length pgs' = length pgs"
proof -
  obtain f' where u: "UpdateTupleHeader (of_nat i) (of_nat j) h f = (Ok (), f')" "heap_rep f' (heap_update i j h pgs)"
    using UpdateTupleHeader_rep [OF assms] by blast
  have "length (set_header h (pgs ! i ! j)) = length (pgs ! i ! j)"
    using assms(4) by (simp add: set_header_def header_bytes_def)
  then have "grown pgs (heap_update i j h pgs)"
    using assms(2,3) by (auto simp: grown_def same_sizes_def heap_update_def nth_list_update)
  moreover have "length (heap_update i j h pgs) = length pgs" by (simp add: heap_update_def)
  ultimately show ?thesis using u by auto
qed

lemma grown_insert: "grown pgs (heap_insert d pgs)"
  by (cases pgs rule: rev_cases) (auto simp: grown_def same_sizes_def heap_insert_def nth_append)

lemma InsertTuple_ok:
  assumes "heap_rep f pgs" and "Suc (length pgs) < 2 ^ 32"
  shows "\<exists>r f' pgs'. InsertTuple d f = (r, f') \<and> r \<noteq> Panic \<and> heap_rep f' pgs' \<and> grown pgs pgs' \<and> length pgs' \<le> Suc (length pgs)"
proof (cases "length d + 4 \<le> 8184")
  case True
  obtain loc f' where "InsertTuple d f = (Ok loc, f')" "heap_rep f' (heap_insert d pgs)"
    using InsertTuple_rep [OF assms(1) True assms(2)] by blast
  moreover have "length (heap_insert d pgs) \<le> Suc (length pgs)" by (auto simp: heap_insert_def)
  ultimately show ?thesis using grown_insert by blast
next
  case False
  then show ?thesis using InsertTuple_too_large [of d f] assms(1) grown_refl by fastforce
qed

lemma ReadPage_ok:
  assumes "heap_rep f pgs" and "i < length pgs"
  shows "ReadPage (of_nat i) f = Ok (mk_page (pgs ! i))" and "unat (GetItemCount (mk_page (pgs ! i))) = length (pgs ! i)"
    and "length (pgs ! i) \<le> 2046" and "fits (pgs ! i)"
proof -
  show ft: "fits (pgs ! i)" using assms by (simp add: heap_rep_def list_all_iff)
  show "ReadPage (of_nat i) f = Ok (mk_page (pgs ! i))" using ReadPage_rep [OF assms] .
  show "unat (GetItemCount (mk_page (pgs ! i))) = length (pgs ! i)" using unat_count_mk_page [OF ft] .
  show "length (pgs ! i) \<le> 2046" using fits_length [OF ft] .
qed

lemma scan_item_sound:
  assumes "fits ts" and "j < length ts"
  shows "scan_item snap tm cols wh (mk_page ts) j \<noteq> Panic"
    and "scan_item snap tm cols wh (mk_page ts) j = Ok (Some (h, vs)) \<Longrightarrow> length vs = length cols \<and> 16 \<le> length (ts ! j)"
proof -
  have "page_rep (mk_page ts) ts" using assms(1) by (simp add: page_rep_def)
  then have "scan_item snap tm cols wh (mk_page ts) j = scan_tuple snap tm cols wh (ts ! j)"
    using sp.get_ok [of "mk_page ts" ts j] assms(2) by (simp add: scan_item_def)
  then show "scan_item snap tm cols wh (mk_page ts) j \<noteq> Panic"
    and "scan_item snap tm cols wh (mk_page ts) j = Ok (Some (h, vs)) \<Longrightarrow> length vs = length cols \<and> 16 \<le> length (ts ! j)"
    using scan_tuple_sound [of snap tm cols wh "ts ! j"] by auto
qed

section \<open>The loops\<close>

text \<open>
  What a loop over a table leaves, whatever its outcome: no panic, a well-formed file of at most
  \<open>b\<close> pages, and a transaction manager in which at most its own implicit transaction aborted.
\<close>

definition loop_ok ::
    "byte list list list \<Rightarrow> nat \<Rightarrow> u64 \<Rightarrow> bool \<Rightarrow> txn_manager \<Rightarrow> nat result \<times> heap_bytes \<times> txn_manager \<Rightarrow> bool" where
  "loop_ok pgs b xid auto tm out \<longleftrightarrow>
     (case out of (r, f', tm') \<Rightarrow>
        r \<noteq> Panic \<and> (tm' = tm \<or> auto \<and> (\<exists>e. r = Err e) \<and> tm' = Abort xid tm) \<and>
        (\<exists>pgs'. heap_rep f' pgs' \<and> grown pgs pgs' \<and> length pgs' \<le> b))"

lemma loop_ok_grown: "loop_ok pgs' b xid auto tm out \<Longrightarrow> grown pgs pgs' \<Longrightarrow> b \<le> c \<Longrightarrow> loop_ok pgs c xid auto tm out"
  by (fastforce simp: loop_ok_def intro: grown_trans)

lemma loop_ok_return:
  "heap_rep f pgs' \<Longrightarrow> grown pgs pgs' \<Longrightarrow> length pgs' \<le> b \<Longrightarrow> loop_ok pgs b xid auto tm (Ok n, f, tm)"
  "heap_rep f pgs' \<Longrightarrow> grown pgs pgs' \<Longrightarrow> length pgs' \<le> b \<Longrightarrow> loop_ok pgs b xid auto tm (Err e, f, tm)"
  "heap_rep f pgs' \<Longrightarrow> grown pgs pgs' \<Longrightarrow> length pgs' \<le> b \<Longrightarrow> loop_ok pgs b xid auto tm (Err e, f, if auto then Abort xid tm else tm)"
  by (auto simp: loop_ok_def)

lemma item_in_page: "same_sizes ts (pgs ! k) \<Longrightarrow> i < length ts \<Longrightarrow> i < length (pgs ! k)"
  "same_sizes ts (pgs ! k) \<Longrightarrow> i < length ts \<Longrightarrow> 16 \<le> length (ts ! i) \<Longrightarrow> 16 \<le> length (pgs ! k ! i)"
  by (simp_all add: same_sizes_def)

lemma delete_items_ok:
  assumes "fits ts" and "heap_rep f pgs" and "k < length pgs" and "same_sizes ts (pgs ! k)"
    and "\<forall>i \<in> set items. i < length ts"
  shows "loop_ok pgs (length pgs) xid auto tm (delete_items snap cols wh xid auto k (mk_page ts) items n f tm)"
  using assms(2-)
proof (induction items arbitrary: n f pgs)
  case Nil
  then show ?case using grown_refl by (auto intro: loop_ok_return)
next
  case (Cons i items)
  have i: "i < length ts" using Cons.prems(4) by simp
  note sc = scan_item_sound [OF assms(1) i, of snap tm cols wh]
  show ?case
  proof (cases "scan_item snap tm cols wh (mk_page ts) i")
    case (Ok m)
    show ?thesis
    proof (cases m)
      case None
      then show ?thesis using Ok Cons by simp
    next
      case (Some hv)
      obtain h vs where hv: "hv = (h, vs)" by (cases hv)
      obtain f' pgs' where u: "UpdateTupleHeader (of_nat k) (of_nat i) (h\<lparr>Xmax := xid\<rparr>) f = (Ok (), f')"
        and p: "heap_rep f' pgs'" "grown pgs pgs'" "length pgs' = length pgs"
        using UpdateTupleHeader_ok [OF Cons.prems(1,2) item_in_page(1) [OF Cons.prems(3) i] item_in_page(2) [OF Cons.prems(3) i]] sc(2) Ok Some hv by blast
      have "loop_ok pgs' (length pgs') xid auto tm (delete_items snap cols wh xid auto k (mk_page ts) items (Suc n) f' tm)"
        using p grown_page [OF p(2) Cons.prems(2,3)] Cons.prems(4) by (intro Cons.IH) auto
      then show ?thesis using Ok Some hv u loop_ok_grown [OF _ p(2)] p(3) by simp
    qed
  next
    case (Err e)
    then show ?thesis using Cons.prems(1) grown_refl by (auto intro: loop_ok_return)
  qed (use sc in simp)
qed

lemma new_version_ok:
  assumes "heap_rep f pgs" and "Suc (length pgs) < 2 ^ 32" and "length vals = length cols"
  shows "\<exists>r f' pgs'. new_version tname sets cols xid vals f = (r, f') \<and> r \<noteq> Panic \<and> heap_rep f' pgs' \<and> grown pgs pgs' \<and>
    length pgs' \<le> Suc (length pgs)"
proof (cases "bind (apply_set_clauses tname sets cols vals) (\<lambda>newValues. EncodeTuple \<lparr>Xmin = xid, Xmax = 0\<rparr> newValues cols)")
  case (Ok d)
  obtain r f' pgs' where "InsertTuple d f = (r, f')" "r \<noteq> Panic" "heap_rep f' pgs'" "grown pgs pgs'" "length pgs' \<le> Suc (length pgs)"
    using InsertTuple_ok [OF assms(1,2)] by blast
  then show ?thesis using Ok by (auto simp: new_version_def bind_Panic_iff)
next
  case (Err e)
  then show ?thesis using assms(1) grown_refl by (fastforce simp: new_version_def)
next
  case Panic
  then show ?thesis using apply_set_clauses_no_panic [OF assms(3)] EncodeTuple_no_panic by (auto simp: bind_Panic_iff)
qed

lemma update_item_ok:
  assumes "heap_rep f pgs" and "k < length pgs" and "i < length (pgs ! k)" and "16 \<le> length (pgs ! k ! i)"
    and "Suc (length pgs) < 2 ^ 32" and "length vs = length cols"
  shows "\<exists>r f1 f2 pgs2. UpdateTupleHeader (of_nat k) (of_nat i) h f = (Ok (), f1) \<and>
    new_version tname sets cols xid vs f1 = (r, f2) \<and> r \<noteq> Panic \<and> heap_rep f2 pgs2 \<and> grown pgs pgs2 \<and> length pgs2 \<le> Suc (length pgs)"
proof -
  obtain f1 pgs1 where u: "UpdateTupleHeader (of_nat k) (of_nat i) h f = (Ok (), f1)"
    and p1: "heap_rep f1 pgs1" "grown pgs pgs1" "length pgs1 = length pgs"
    using UpdateTupleHeader_ok [OF assms(1-4)] by fastforce
  have room: "Suc (length pgs1) < 2 ^ 32" using assms(5) p1(3) by simp
  obtain r f2 pgs2 where "new_version tname sets cols xid vs f1 = (r, f2)" "r \<noteq> Panic"
    and "heap_rep f2 pgs2" "grown pgs1 pgs2" "length pgs2 \<le> Suc (length pgs1)"
    using new_version_ok [OF p1(1) room assms(6)] by blast
  then show ?thesis using u p1(3) grown_trans [OF p1(2)] by auto
qed

lemma update_items_ok:
  assumes "fits ts" and "heap_rep f pgs" and "k < length pgs" and "same_sizes ts (pgs ! k)"
    and "\<forall>i \<in> set items. i < length ts" and "Suc (length pgs + length items) < 2 ^ 32"
  shows "loop_ok pgs (length pgs + length items) xid auto tm (update_items snap cols tname sets wh xid auto k (mk_page ts) items n f tm)"
  using assms(2-)
proof (induction items arbitrary: n f pgs)
  case Nil
  then show ?case using grown_refl by (auto intro: loop_ok_return)
next
  case (Cons i items)
  have i: "i < length ts" using Cons.prems(4) by simp
  note sc = scan_item_sound [OF assms(1) i, of snap tm cols wh]
  show ?case
  proof (cases "scan_item snap tm cols wh (mk_page ts) i")
    case (Ok m)
    show ?thesis
    proof (cases m)
      case None
      have "loop_ok pgs (length pgs + length items) xid auto tm (update_items snap cols tname sets wh xid auto k (mk_page ts) items n f tm)"
        using Cons.prems by (intro Cons.IH) auto
      then show ?thesis using None Ok loop_ok_grown [OF _ grown_refl] by simp
    next
      case (Some hv)
      obtain h vs where hv: "hv = (h, vs)" by (cases hv)
      have l: "length vs = length cols" using sc(2) Ok Some hv by simp
      have b: "i < length (pgs ! k)" "16 \<le> length (pgs ! k ! i)" "Suc (length pgs) < 2 ^ 32"
        using item_in_page [OF Cons.prems(3) i] sc(2) Ok Some hv Cons.prems(5) by simp_all
      obtain r f1 f2 pgs2 where u: "UpdateTupleHeader (of_nat k) (of_nat i) (h\<lparr>Xmax := xid\<rparr>) f = (Ok (), f1)"
        and v: "new_version tname sets cols xid vs f1 = (r, f2)" "r \<noteq> Panic"
        and p2: "heap_rep f2 pgs2" "length pgs2 \<le> Suc (length pgs)" and g: "grown pgs pgs2"
        using update_item_ok [OF Cons.prems(1,2) b l] by blast
      show ?thesis
      proof (cases r)
        case Ok': (Ok x)
        have "loop_ok pgs2 (length pgs2 + length items) xid auto tm
            (update_items snap cols tname sets wh xid auto k (mk_page ts) items (Suc n) f2 tm)"
          using p2 grown_page [OF g Cons.prems(2,3)] Cons.prems(4,5) by (intro Cons.IH) auto
        then show ?thesis using Ok Some hv u v Ok' loop_ok_grown [OF _ g] p2(2) by simp
      next
        case (Err e)
        have "length pgs2 \<le> length pgs + length (i # items)" using p2(2) by simp
        then show ?thesis using Ok Some hv u v Err loop_ok_return(3) [OF p2(1) g] by simp
      qed (use v in simp)
    qed
  next
    case (Err e)
    then show ?thesis using Cons.prems(1) grown_refl by (auto intro: loop_ok_return)
  qed (use sc in simp)
qed

lemma delete_heap_rep:
  assumes "heap_rep f pgs" and "\<forall>k \<in> set ks. k < length pgs"
  shows "loop_ok pgs (length pgs) xid auto tm (delete_pages snap cols wh xid auto ks n f tm)"
  using assms
proof (induction ks arbitrary: n f pgs)
  case (Cons k ks)
  have k: "k < length pgs" using Cons.prems(2) by simp
  note rd = ReadPage_ok [OF Cons.prems(1) k]
  have it: "loop_ok pgs (length pgs) xid auto tm
      (delete_items snap cols wh xid auto k (mk_page (pgs ! k)) [0..<length (pgs ! k)] n f tm)"
    using delete_items_ok [OF rd(4) Cons.prems(1) k same_sizes_refl] by simp
  obtain r f1 tm1 where o: "delete_items snap cols wh xid auto k (mk_page (pgs ! k)) [0..<length (pgs ! k)] n f tm = (r, f1, tm1)"
    by (cases "delete_items snap cols wh xid auto k (mk_page (pgs ! k)) [0..<length (pgs ! k)] n f tm")
  show ?case
  proof (cases r)
    case (Ok m)
    then obtain pgs1 where p: "heap_rep f1 pgs1" "grown pgs pgs1" "length pgs1 \<le> length pgs" "tm1 = tm"
      using it o by (auto simp: loop_ok_def)
    have "loop_ok pgs1 (length pgs1) xid auto tm (delete_pages snap cols wh xid auto ks m f1 tm)"
      using p Cons.prems(2) by (intro Cons.IH) (auto simp: grown_def intro: less_le_trans)
    then show ?thesis using rd o Ok p loop_ok_grown [OF _ p(2,3)] by simp
  qed (use rd o it in \<open>auto simp: loop_ok_def\<close>)
qed (auto intro: loop_ok_return grown_refl)

lemma update_heap_rep:
  assumes "heap_rep f pgs" and "\<forall>k \<in> set ks. k < length pgs" and "Suc (length pgs + 2046 * length ks) < 2 ^ 32"
  shows "loop_ok pgs (length pgs + 2046 * length ks) xid auto tm (update_pages snap cols tname sets wh xid auto ks n f tm)"
  using assms
proof (induction ks arbitrary: n f pgs)
  case (Cons k ks)
  have k: "k < length pgs" using Cons.prems(2) by simp
  note rd = ReadPage_ok [OF Cons.prems(1) k]
  let ?out = "update_items snap cols tname sets wh xid auto k (mk_page (pgs ! k)) [0..<length (pgs ! k)] n f tm"
  have it: "loop_ok pgs (length pgs + length (pgs ! k)) xid auto tm ?out"
    using update_items_ok [OF rd(4) Cons.prems(1) k same_sizes_refl, of "[0..<length (pgs ! k)]"] rd(3) Cons.prems(3) by simp
  obtain r f1 tm1 where o: "?out = (r, f1, tm1)" by (cases ?out)
  show ?case
  proof (cases r)
    case (Ok m)
    then obtain pgs1 where p: "heap_rep f1 pgs1" "grown pgs pgs1" "length pgs1 \<le> length pgs + length (pgs ! k)" "tm1 = tm"
      using it o by (auto simp: loop_ok_def)
    have "loop_ok pgs1 (length pgs1 + 2046 * length ks) xid auto tm (update_pages snap cols tname sets wh xid auto ks m f1 tm)"
      using p Cons.prems(2,3) rd(3) by (intro Cons.IH) (auto simp: grown_def intro: less_le_trans)
    then show ?thesis using rd o Ok p loop_ok_grown [OF _ p(2), of "length pgs1 + 2046 * length ks"] by simp
  qed (use rd o it loop_ok_grown [OF it grown_refl, of "length pgs + 2046 * length (k # ks)"] in auto)
qed (auto intro: loop_ok_return grown_refl)

section \<open>The statements\<close>

definition typed :: "column_def list \<Rightarrow> bool" where
  "typed cols \<longleftrightarrow> list_all (\<lambda>c. TypeByOID (col_TypeOID c) \<noteq> None) cols"

text \<open>A data directory whose files are sequences of well-formed pages; what the tuples hold does not matter.\<close>

definition disk_ok :: "(u32 \<rightharpoonup> heap_bytes) \<Rightarrow> bool" where
  "disk_ok files \<longleftrightarrow> (\<forall>oid f. files oid = Some f \<longrightarrow> (\<exists>pgs. heap_rep f pgs))"

definition db_safe :: "db \<Rightarrow> bool" where
  "db_safe d \<longleftrightarrow>
     disk_ok (db_files d) \<and>
     (\<forall>k t. cat_tables (db_catalog d) k = Some t \<longrightarrow> typed (tbl_Columns t))"

text \<open>Every heap file is smaller than 16 GiB.\<close>

definition db_small :: "db \<Rightarrow> bool" where
  "db_small d \<longleftrightarrow> (\<forall>oid f. db_files d oid = Some f \<longrightarrow> length f < 2 ^ 34)"

text \<open>What a statement may do to the transaction manager: nothing, or begin and end a transaction of its own.\<close>

definition txn_effect :: "u64 \<Rightarrow> txn_manager \<Rightarrow> txn_manager \<Rightarrow> bool" where
  "txn_effect x tm tm' \<longleftrightarrow>
     tm' = tm \<or> x = 0 \<and> (\<exists>y t. NextXID tm = (y, t) \<and> tm' \<in> {t, Commit y t, Abort y t})"

definition rows_fit :: "exec_result \<Rightarrow> bool" where
  "rows_fit res \<longleftrightarrow> typed (res_Columns res) \<and> (\<forall>row \<in> set (res_Rows res). length row = length (res_Columns res))"

lemma rows_fit_tag [simp]: "rows_fit (tag_only t)"
  by (simp add: rows_fit_def tag_only_def typed_def)

lemma heap_rep_empty: "heap_rep [] []"
  by (simp add: heap_rep_def)

lemma NewHeapFile_safe:
  assumes "db_safe d" and "db_small d" and "NewHeapFile oid d = (f, d1)"
  shows "\<exists>pgs. heap_rep f pgs \<and> length pgs < 2 ^ 21" and "db_safe d1" and "db_txn d1 = db_txn d" and "db_catalog d1 = db_catalog d"
proof -
  have "\<exists>pgs. heap_rep f pgs" "length f < 2 ^ 34"
    using assms heap_rep_empty by (auto simp: NewHeapFile_def db_safe_def disk_ok_def db_small_def split: option.splits)
  then show "\<exists>pgs. heap_rep f pgs \<and> length pgs < 2 ^ 21"
    using heap_rep_length by (fastforce simp: heap_rep_def)
  show "db_safe d1" "db_txn d1 = db_txn d" "db_catalog d1 = db_catalog d"
    using assms heap_rep_empty by (auto simp: NewHeapFile_def db_safe_def disk_ok_def split: option.splits if_splits)
qed

lemma set_file_safe: "db_safe d \<Longrightarrow> heap_rep f pgs \<Longrightarrow> db_safe (set_file oid f d)"
  by (auto simp: db_safe_def disk_ok_def set_file_def)

lemma db_safe_txn [simp]: "db_safe (d\<lparr>db_txn := tm\<rparr>) \<longleftrightarrow> db_safe d"
  by (simp add: db_safe_def disk_ok_def)

lemma auto_effect:
  assumes "getAutoCommitWithXID e tm = (xid, auto, tm1)"
  shows "txn_effect (ex_txnXID e) tm tm1"
    and "auto \<Longrightarrow> txn_effect (ex_txnXID e) tm (Abort xid tm1)" and "auto \<Longrightarrow> txn_effect (ex_txnXID e) tm (Commit xid tm1)"
  using assms by (auto simp: getAutoCommitWithXID_def txn_effect_def Let_def split: if_splits prod.splits)

text \<open>A call that does not panic and returns only values with a property.\<close>

definition fine :: "('a \<Rightarrow> bool) \<Rightarrow> 'a result \<Rightarrow> bool" where
  "fine P m \<longleftrightarrow> (case m of Ok x \<Rightarrow> P x | Err e \<Rightarrow> True | Panic \<Rightarrow> False)"

lemma fine_bind: "fine P m \<Longrightarrow> (\<And>x. P x \<Longrightarrow> fine Q (f x)) \<Longrightarrow> fine Q (bind m f)"
  by (cases m) (auto simp: fine_def)

lemma fine_Ok [simp]: "fine P (Ok x) \<longleftrightarrow> P x" "fine P (Err e)"
  by (simp_all add: fine_def)

lemma fineI: "m \<noteq> Panic \<Longrightarrow> (\<And>x. m = Ok x \<Longrightarrow> P x) \<Longrightarrow> fine P m"
  by (cases m) (auto simp: fine_def)

lemma pick_row_fine: "\<forall>i \<in> set is. i < length vs \<Longrightarrow> fine (\<lambda>row. length row = length is) (pick_row is vs)"
  by (induction "is") (auto simp: row_index_def intro: fine_bind)

lemma select_items_fine:
  assumes "fits ts" and "\<forall>i \<in> set is. i < length cols" and "\<forall>i \<in> set items. i < length ts" and "\<forall>row \<in> set rows. length row = length is"
  shows "fine (\<lambda>rows. \<forall>row \<in> set rows. length row = length is) (select_items snap tm cols wh is (mk_page ts) items rows)"
  using assms(3,4)
proof (induction items arbitrary: rows)
  case (Cons i items)
  have sc: "fine (\<lambda>m. \<forall>h vs. m = Some (h, vs) \<longrightarrow> length vs = length cols) (scan_item snap tm cols wh (mk_page ts) i)"
    using scan_item_sound [OF assms(1), of i snap tm cols wh] Cons.prems(1) by (intro fineI) auto
  show ?case
    unfolding select_items.simps
  proof (rule fine_bind [OF sc])
    fix m :: "(tuple_header \<times> any list) option"
    assume m: "\<forall>h vs. m = Some (h, vs) \<longrightarrow> length vs = length cols"
    show "fine (\<lambda>rows. \<forall>row \<in> set rows. length row = length is) (case m of
         None \<Rightarrow> select_items snap tm cols wh is (mk_page ts) items rows
       | Some (header, allValues) \<Rightarrow>
           bind (pick_row is allValues) (\<lambda>row. select_items snap tm cols wh is (mk_page ts) items (rows @ [row])))"
    proof (cases m)
      case (Some hv)
      obtain h vs where hv: "hv = (h, vs)" by (cases hv)
      have "fine (\<lambda>row. length row = length is) (pick_row is vs)"
        using m Some hv assms(2) by (intro pick_row_fine) auto
      then show ?thesis using Some hv Cons by (auto elim!: fine_bind)
    qed (use Cons in simp)
  qed
qed simp

lemma select_pages_fine:
  assumes "heap_rep f pgs" and "\<forall>k \<in> set ks. k < length pgs" and "\<forall>i \<in> set is. i < length cols"
    and "\<forall>row \<in> set rows. length row = length is"
  shows "fine (\<lambda>rows. \<forall>row \<in> set rows. length row = length is) (select_pages snap tm cols wh is f ks rows)"
  using assms(2,4)
proof (induction ks arbitrary: rows)
  case (Cons k ks)
  have k: "k < length pgs" using Cons.prems(1) by simp
  note rd = ReadPage_ok [OF assms(1) k]
  have "fine (\<lambda>rows. \<forall>row \<in> set rows. length row = length is)
      (select_items snap tm cols wh is (mk_page (pgs ! k)) [0..<length (pgs ! k)] rows)"
    using select_items_fine [OF rd(4) assms(3)] Cons.prems(2) by simp
  then show ?case using rd(1,2) Cons by (auto elim!: fine_bind)
qed simp

lemma select_columns_bound:
  "select_columns names cols = Ok (cs, is) \<Longrightarrow> (\<forall>i \<in> set is. i < length cols) \<and> set cs \<subseteq> set cols \<and> length cs = length is"
  by (induction names arbitrary: cs "is") (fastforce simp: result_iff dest: find_column_bound split: option.splits)+

lemma select_columns_no_panic: "select_columns names cols \<noteq> Panic"
  by (induction names) (auto simp: bind_Panic_iff split: option.splits)

lemma GetTable_safe: "db_safe d \<Longrightarrow> GetTable s n (db_catalog d) = Ok t \<Longrightarrow> typed (tbl_Columns t)"
  by (auto simp: GetTable_def db_safe_def disk_ok_def split: option.splits)

lemma GetTable_no_panic: "GetTable s n c \<noteq> Panic"
  by (simp add: GetTable_def split: option.split)

text \<open>\<open>sound x d out\<close>: the outcome of a statement under the transaction \<open>x\<close>.\<close>

definition sound :: "u64 \<Rightarrow> db \<Rightarrow> exec_result result \<times> db \<Rightarrow> bool" where
  "sound x d out \<longleftrightarrow>
     (case out of (r, d') \<Rightarrow>
        r \<noteq> Panic \<and> db_safe d' \<and> txn_effect x (db_txn d) (db_txn d') \<and> (\<forall>res. r = Ok res \<longrightarrow> rows_fit res))"

lemma sound_Err: "db_safe d \<Longrightarrow> sound x d (Err e, d)"
  by (simp add: sound_def txn_effect_def)

lemma executeSelect_sound:
  assumes "db_safe d" and "db_small d"
  shows "sound x d (executeSelect e names tname wh d)"
proof (cases "GetTable ''public'' tname (db_catalog d)")
  case (Ok t)
  let ?p = "if names = [''*''] then Ok (tbl_Columns t, [0..<length (tbl_Columns t)]) else select_columns names (tbl_Columns t)"
  show ?thesis
  proof (cases ?p)
    case p: (Ok ci)
    obtain cs ixs where ci: "ci = (cs, ixs)" by (cases ci)
    have b: "\<forall>i \<in> set ixs. i < length (tbl_Columns t)" "set cs \<subseteq> set (tbl_Columns t)" "length cs = length ixs"
      using p ci select_columns_bound by (auto split: if_splits)
    obtain f d1 where n: "NewHeapFile (tbl_OID t) d = (f, d1)" by (cases "NewHeapFile (tbl_OID t) d")
    note s = NewHeapFile_safe [OF assms n]
    obtain pgs where pg: "heap_rep f pgs" using s(1) by blast
    have c: "unat (PageCount f) = length pgs" using pg unat_PageCount_rep by (simp add: heap_rep_def)
    have "typed cs" using GetTable_safe [OF assms(1) Ok] b(2) by (auto simp: typed_def list_all_iff)
    moreover have "fine (\<lambda>rows. \<forall>row \<in> set rows. length row = length ixs)
        (select_pages (ex_snapShot e) (db_txn d1) (tbl_Columns t) wh ixs f [0..<length pgs] [])"
      using b(1) by (intro select_pages_fine [OF pg]) auto
    ultimately have "fine rows_fit (bind (select_pages (ex_snapShot e) (db_txn d1) (tbl_Columns t) wh ixs f [0..<length pgs] [])
        (\<lambda>rows. Ok \<lparr>res_Tag = ''SELECT '' @ FormatInt (int (length rows)), res_Columns = cs, res_Rows = rows\<rparr>))"
      using b(3) by (auto simp: rows_fit_def elim!: fine_bind)
    then show ?thesis
      using p ci Ok n s(2,3) c by (auto simp: executeSelect_def sound_def txn_effect_def fine_def simp del: if_split split: result.splits)
  next
    case Panic
    then show ?thesis using select_columns_no_panic by (auto split: if_splits)
  qed (use Ok sound_Err [OF assms(1)] in \<open>simp add: executeSelect_def\<close>)
qed (use assms(1) GetTable_no_panic in \<open>auto simp: executeSelect_def intro: sound_Err\<close>)

lemma finish_dml_sound:
  assumes "db_safe d1" and "db_txn d1 = tm" and "getAutoCommitWithXID e tm = (xid, auto, tm1)"
    and "loop_ok pgs b xid auto tm1 out"
  shows "\<And>d. db_txn d = tm \<Longrightarrow> sound (ex_txnXID e) d (finish_dml tag xid auto oid out d1)"
proof -
  fix d :: db assume d: "db_txn d = tm"
  obtain r f' tm' where o: "out = (r, f', tm')" by (cases out)
  obtain pgs' where l: "r \<noteq> Panic" "tm' = tm1 \<or> auto \<and> (\<exists>e. r = Err e) \<and> tm' = Abort xid tm1" "heap_rep f' pgs'"
    using assms(4) o by (auto simp: loop_ok_def)
  have "db_safe (set_file oid f' (d1\<lparr>db_txn := tm'\<rparr>))" using assms(1) l(3) by (intro set_file_safe) simp_all
  then show "sound (ex_txnXID e) d (finish_dml tag xid auto oid out d1)"
    using l(1,2) auto_effect [OF assms(3)] d
    by (cases r) (auto simp: finish_dml_def o Let_def sound_def)
qed

lemma executeDelete_sound:
  assumes "db_safe d" and "db_small d"
  shows "sound (ex_txnXID e) d (executeDelete e tname wh d)"
proof (cases "GetTable ''public'' tname (db_catalog d)")
  case (Ok t)
  obtain f d1 where n: "NewHeapFile (tbl_OID t) d = (f, d1)" by (cases "NewHeapFile (tbl_OID t) d")
  note s = NewHeapFile_safe [OF assms n]
  obtain pgs where pg: "heap_rep f pgs" using s(1) by blast
  have c: "unat (PageCount f) = length pgs" using pg unat_PageCount_rep by (simp add: heap_rep_def)
  obtain xid auto tm where a: "getAutoCommitWithXID e (db_txn d1) = (xid, auto, tm)"
    by (cases "getAutoCommitWithXID e (db_txn d1)")
  show ?thesis
    using finish_dml_sound [OF s(2) refl a delete_heap_rep [OF pg, of "[0..<length pgs]"], of d] Ok n a c s(3)
    by (simp add: executeDelete_def)
qed (use assms(1) GetTable_no_panic in \<open>auto simp: executeDelete_def intro: sound_Err\<close>)

lemma executeUpdate_sound:
  assumes "db_safe d" and "db_small d"
  shows "sound (ex_txnXID e) d (executeUpdate e tname sets wh d)"
proof (cases "GetTable ''public'' tname (db_catalog d)")
  case (Ok t)
  obtain f d1 where n: "NewHeapFile (tbl_OID t) d = (f, d1)" by (cases "NewHeapFile (tbl_OID t) d")
  note s = NewHeapFile_safe [OF assms n]
  obtain pgs where pg: "heap_rep f pgs" "length pgs < 2 ^ 21" using s(1) by blast
  have c: "unat (PageCount f) = length pgs" using pg unat_PageCount_rep by (simp add: heap_rep_def)
  obtain xid auto tm where a: "getAutoCommitWithXID e (db_txn d1) = (xid, auto, tm)"
    by (cases "getAutoCommitWithXID e (db_txn d1)")
  show ?thesis
    using finish_dml_sound [OF s(2) refl a update_heap_rep [OF pg(1), of "[0..<length pgs]"], of d] pg(2) Ok n a c s(3)
    by (simp add: executeUpdate_def)
qed (use assms(1) GetTable_no_panic in \<open>auto simp: executeUpdate_def intro: sound_Err\<close>)

lemma resolveColumns_no_panic: "resolveColumns t names \<noteq> Panic"
  by (induction names) (auto simp: bind_Panic_iff split: option.splits)

lemma eval_literals_fine: "length xs = length cols \<Longrightarrow> fine (\<lambda>vs. length vs = length cols) (eval_literals xs cols)"
proof (induction xs cols rule: list_induct2)
  case (Cons x xs c cs)
  have "fine (\<lambda>v. True) (evalLiteral x c)" using evalLiteral_no_panic by (intro fineI) auto
  then show ?case using Cons.IH by (auto intro!: fine_bind)
qed simp

lemma check_not_null_no_panic: "length vs = length cols \<Longrightarrow> check_not_null cols vs \<noteq> Panic"
  by (induction cols vs rule: check_not_null.induct) auto

lemma insert_values_no_panic: "insert_values t names exprs \<noteq> Panic"
proof -
  have "fine (\<lambda>_. True) (insert_values t names exprs)"
    unfolding insert_values_def
  proof (rule fine_bind [where P = "\<lambda>_. True"])
    show "fine (\<lambda>_. True) (if names \<noteq> [] then resolveColumns t names else Ok (tbl_Columns t))"
      using resolveColumns_no_panic by (auto intro!: fineI)
    fix columns
    show "fine (\<lambda>_. True) (if length exprs \<noteq> length columns then Err (ErrValueCount (length columns) (length exprs))
       else bind (eval_literals exprs columns) (\<lambda>values. bind (check_not_null columns values) (\<lambda>_. Ok (columns, values))))"
    proof (cases "length exprs = length columns")
      case True
      have "fine (\<lambda>_. True) (check_not_null columns vs)" if "length vs = length columns" for vs
        using check_not_null_no_panic [OF that] by (intro fineI) auto
      then show ?thesis using eval_literals_fine [OF True] by (auto simp: True intro!: fine_bind)
    qed simp
  qed
  then show ?thesis by (auto simp: fine_def)
qed

lemma executeInsert_sound:
  assumes "db_safe d" and "db_small d"
  shows "sound (ex_txnXID e) d (executeInsert e tname names exprs d)"
proof -
  let ?v = "bind (GetTable ''public'' tname (db_catalog d)) (\<lambda>table. bind (insert_values table names exprs) (\<lambda>cv. Ok (table, cv)))"
  have np: "?v \<noteq> Panic" using GetTable_no_panic insert_values_no_panic by (auto simp: bind_Panic_iff)
  show ?thesis
  proof (cases ?v)
    case (Ok tcv)
    obtain t cols vals where tcv: "tcv = (t, cols, vals)" by (cases tcv)
    obtain xid auto tm where a: "getAutoCommitWithXID e (db_txn d) = (xid, auto, tm)"
      by (cases "getAutoCommitWithXID e (db_txn d)")
    let ?d1 = "d\<lparr>db_txn := tm\<rparr>"
    note eff = auto_effect [OF a]
    show ?thesis
    proof (cases "EncodeTuple \<lparr>Xmin = xid, Xmax = 0\<rparr> vals cols")
      case en: (Ok data)
      obtain f d2 where n: "NewHeapFile (tbl_OID t) ?d1 = (f, d2)" by (cases "NewHeapFile (tbl_OID t) ?d1")
      have sm: "db_safe ?d1" "db_small ?d1" using assms by (simp_all add: db_small_def)
      note s = NewHeapFile_safe [OF sm n]
      obtain pgs where pg: "heap_rep f pgs" "length pgs < 2 ^ 21" using s(1) by blast
      obtain r f' pgs' where i: "InsertTuple data f = (r, f')" "r \<noteq> Panic" "heap_rep f' pgs'"
        using InsertTuple_ok [OF pg(1), of data] pg(2) by fastforce
      have "db_safe (set_file (tbl_OID t) f' d2)" using set_file_safe [OF s(2) i(3)] .
      then show ?thesis
        using Ok tcv a en n i(1,2) eff s(3)
        by (cases r) (auto simp: executeInsert_def Let_def sound_def)
    next
      case (Err err)
      then show ?thesis using Ok tcv a eff(1) assms(1) by (simp add: executeInsert_def Let_def sound_def)
    next
      case Panic
      then show ?thesis using EncodeTuple_no_panic by blast
    qed
  next
    case (Err err)
    then show ?thesis using sound_Err [OF assms(1)] by (simp add: executeInsert_def)
  qed (use np in blast)
qed

lemma create_columns_fine: "fine typed (create_columns specs)"
proof (induction specs)
  case (Cons c cs)
  then show ?case
    using OIDByName_registered [of "spec_TypeName c"] by (auto simp: typed_def split: option.splits intro!: fine_bind)
qed (simp add: typed_def)

lemma executeCreateTable_sound:
  assumes "db_safe d"
  shows "sound x d (executeCreateTable name cols d)"
proof (cases "create_columns cols")
  case (Ok columns)
  then have "typed columns" using create_columns_fine [of cols] by simp
  then show ?thesis
    using assms Ok sound_Err [OF assms]
    by (auto simp: executeCreateTable_def CreateTable_def Let_def sound_def db_safe_def disk_ok_def txn_effect_def split: option.splits)
next
  case Panic
  then show ?thesis using create_columns_fine [of cols] by (simp add: fine_def)
qed (use sound_Err [OF assms] in \<open>simp add: executeCreateTable_def\<close>)

lemma executeDropTable_sound: "db_safe d \<Longrightarrow> sound x d (executeDropTable name ifExists d)"
  by (auto simp: executeDropTable_def DropTable_def Let_def sound_def db_safe_def disk_ok_def txn_effect_def split: option.splits)

lemma Execute_sound:
  assumes "db_safe d" and "db_small d"
  shows "sound (ex_txnXID e) d (Execute e st d)"
  using assms
  by (cases st) (auto intro: executeCreateTable_sound executeDropTable_sound executeInsert_sound executeSelect_sound
      executeUpdate_sound executeDelete_sound sound_Err)

section \<open>Starting on an existing data directory\<close>

lemma db_safe_start: "disk_ok files \<Longrightarrow> db_safe (start_db files)"
  by (simp add: db_safe_def NewCatalog_def)

lemma db_safe_init: "db_safe db_init"
  by (simp add: db_init_def db_safe_start disk_ok_def)

text \<open>
  The file \<open>data/base/16384\<close> that the repository ships: one page with one tuple of 14 bytes, which
  has no header. It has the OID of the first table that a new server creates.
\<close>

definition shipped_tuple :: "byte list" where
  "shipped_tuple = [4, 0, 0, 0, 4, 74, 79, 72, 78, 0, 0, 0, 20, 1]"

definition shipped_disk :: "u32 \<rightharpoonup> heap_bytes" where
  "shipped_disk = [16384 \<mapsto> mk_page [shipped_tuple]]"

definition shipped_db :: db where
  "shipped_db = snd (executeCreateTable ''t''
     [\<lparr>spec_Name = ''id'', spec_TypeName = ''int'', spec_NotNull = True, spec_PrimaryKey = False\<rparr>] (start_db shipped_disk))"

lemma shipped_rep: "heap_rep (mk_page [shipped_tuple]) [[shipped_tuple]]"
  by (simp add: heap_rep_def fits_def shipped_tuple_def)

lemma shipped_disk: "disk_ok shipped_disk" "db_small (start_db shipped_disk)" "db_small shipped_db" "db_safe shipped_db"
proof -
  have l: "length (mk_page [shipped_tuple]) = 8192" by (simp add: fits_def shipped_tuple_def)
  show d: "disk_ok shipped_disk" using shipped_rep by (auto simp: disk_ok_def shipped_disk_def)
  show s: "db_small (start_db shipped_disk)" using l by (auto simp: db_small_def shipped_disk_def)
  then show "db_small shipped_db"
    by (auto simp: shipped_db_def executeCreateTable_def db_small_def split: result.splits prod.splits)
  show "db_safe shipped_db"
    using executeCreateTable_sound [OF db_safe_start [OF d]] unfolding shipped_db_def sound_def
    by (metis (no_types, lifting) case_prod_unfold)
qed

section \<open>Properties\<close>

text \<open>C7. No statement panics, whatever the transaction and the snapshot it runs under and whatever the pages of the heap files hold, rows that do not decode and tuples too short for a header included (so the guards of \<open>DecodeTuple\<close> cover all its slices): every outcome is a result or an \<open>error\<close>, the heap files stay well-formed, a result's rows have one value per column, and the transaction manager changes at most by a transaction of the statement's own.\<close>

theorem execute_never_panics:
  assumes "db_safe d" and "db_small d"
  shows "case Execute e st d of (r, d') \<Rightarrow>
    r \<noteq> Panic \<and> db_safe d' \<and> (\<forall>res. r = Ok res \<longrightarrow> rows_fit res) \<and> txn_effect (ex_txnXID e) (db_txn d) (db_txn d')"
  using Execute_sound [OF assms, of e st] by (auto simp: sound_def split: prod.splits)

theorem execute_never_panics_witness:
  "\<exists>d'. Execute (session 0 shipped_db) (SelectStatement [''*''] ''t'' None) shipped_db = (Err ErrShortHeader, d') \<and> db_safe d'"
proof -
  let ?st = "SelectStatement [''*''] ''t'' None" and ?f = "mk_page [shipped_tuple]"
  define col where "col = \<lparr>col_Name = ''id'', col_TypeOID = 23, col_TypeMod = - 1, col_NotNull = True, col_HasDefault = False, col_Default = []\<rparr>"
  have "create_columns [\<lparr>spec_Name = ''id'', spec_TypeName = ''int'', spec_NotNull = True, spec_PrimaryKey = False\<rparr>] = Ok [col]"
    unfolding col_def by code_simp
  then have g: "GetTable ''public'' ''t'' (db_catalog shipped_db) = Ok \<lparr>tbl_OID = 16384, tbl_Name = ''t'', tbl_Schema = ''public'', tbl_Columns = [col]\<rparr>"
    and f: "db_files shipped_db = [16384 \<mapsto> ?f]"
    by (simp_all add: shipped_db_def executeCreateTable_def CreateTable_def NewCatalog_def GetTable_def table_key_def shipped_disk_def)
  have n: "NewHeapFile 16384 shipped_db = (?f, shipped_db)" by (simp add: NewHeapFile_def f)
  have c: "unat (PageCount ?f) = 1" using unat_PageCount_rep [OF shipped_rep] by simp
  have p: "ReadPage 0 ?f = Ok ?f" "unat (GetItemCount ?f) = 1" "fits [shipped_tuple]"
    using ReadPage_ok [OF shipped_rep, of 0] by simp_all
  have "GetTuple 0 ?f = Ok shipped_tuple"
    using sp.get_ok [of ?f "[shipped_tuple]" 0] p(3) by (simp add: page_rep_def)
  then have "scan_item snap tm [col] None ?f 0 = Err ErrShortHeader" for snap tm
    by (simp add: scan_item_def scan_tuple_def DecodeTuple_def shipped_tuple_def)
  then have "Execute (session 0 shipped_db) ?st shipped_db = (Err ErrShortHeader, shipped_db)"
    by (simp add: executeSelect_def g n c p)
  moreover from execute_never_panics [OF shipped_disk(4,3), of "session 0 shipped_db" ?st] this have "db_safe shipped_db" by simp
  ultimately show ?thesis by simp
qed

end
