(* ===== verification/Lexer.thy ===== *)
theory Lexer
  imports GoFloat
begin

text \<open>
  The lexer of \<open>internal/parser/lexer.go\<close>. Its state is the input and a position, as in the
  code, and \<open>NextToken\<close> moves the position; an index or a slice outside the input is a panic. The reference \<open>next_token\<close> works on the rest
  of the input as a list; the two agree, every token but the end of input consumes a byte, and
  printed tokens are read back.
\<close>

section \<open>Tokens\<close>

datatype token_type =
    TOKEN_KEYWORD | TOKEN_IDENT | TOKEN_LPAREN | TOKEN_RPAREN | TOKEN_COMMA | TOKEN_SEMICOLON | TOKEN_STRING
  | TOKEN_NUMBER | TOKEN_ASTERISK | TOKEN_EQ | TOKEN_NEQ | TOKEN_LT | TOKEN_GT | TOKEN_LTE | TOKEN_GTE | TOKEN_EOF

record token =
  tok_Type :: token_type
  tok_Value :: string

definition mk_token :: "token_type \<Rightarrow> string \<Rightarrow> token" where
  "mk_token ty v = \<lparr>tok_Type = ty, tok_Value = v\<rparr>"

definition sql_keywords :: "string list" where
  "sql_keywords =
     [''CREATE'', ''SELECT'', ''DELETE'', ''UPDATE'', ''BEGIN'', ''COMMIT'', ''ROLLBACK'', ''TABLE'', ''DROP'',
      ''SET'', ''IF'', ''EXISTS'', ''NOT'', ''NULL'', ''PRIMARY'', ''KEY'', ''INSERT'', ''INTO'', ''VALUES'',
      ''TRUE'', ''FALSE'', ''FROM'', ''WHERE'', ''AND'', ''OR'', ''IS'']"

record lexer =
  lex_input :: string
  lex_pos :: nat

definition NewLexer :: "string \<Rightarrow> lexer" where
  "NewLexer input = \<lparr>lex_input = input, lex_pos = 0\<rparr>"

section \<open>Scanning\<close>

definition isLetter :: "char \<Rightarrow> bool" where
  "isLetter ch = (let n = (of_char ch :: nat) in (97 \<le> n \<and> n \<le> 122) \<or> (65 \<le> n \<and> n \<le> 90))"

definition isDigit :: "char \<Rightarrow> bool" where
  "isDigit ch = (let n = (of_char ch :: nat) in 48 \<le> n \<and> n \<le> 57)"

definition isSpace :: "char \<Rightarrow> bool" where
  "isSpace ch = (let n = (of_char ch :: nat) in n = 32 \<or> n = 9 \<or> n = 10 \<or> n = 13)"

definition word_char :: "char \<Rightarrow> bool" where
  "word_char ch = (isLetter ch \<or> isDigit ch \<or> ch = CHR ''_'')"

definition quote_char :: "char \<Rightarrow> bool" where
  "quote_char ch \<longleftrightarrow> ch = CHR 0x27"

text \<open>The loops \<open>for l.pos < len(l.input) && P(l.input[l.pos]) { l.pos++ }\<close>.\<close>

function scan_while :: "(char \<Rightarrow> bool) \<Rightarrow> string \<Rightarrow> nat \<Rightarrow> nat result" where
  "scan_while P s i =
     (if i < length s
      then bind (go_index s i) (\<lambda>ch. if P ch then scan_while P s (Suc i) else Ok i)
      else Ok i)"
  by pat_completeness auto
termination by (relation "measure (\<lambda>(P, s, i). length s - i)") auto

declare scan_while.simps [simp del]

text \<open>The test \<open>l.pos < len(l.input) && l.input[l.pos] == c\<close>.\<close>

definition next_is :: "string \<Rightarrow> nat \<Rightarrow> char \<Rightarrow> bool result" where
  "next_is s i c = (if i < length s then bind (go_index s i) (\<lambda>ch. Ok (ch = c)) else Ok False)"

text \<open>\<open>string(b)\<close> of a byte is the UTF-8 text of the code point with that number.\<close>

definition string_of_byte :: "char \<Rightarrow> string" where
  "string_of_byte ch =
     (let n = (of_char ch :: nat)
      in if n < 128 then [ch] else [char_of (192 + n div 64), char_of (128 + n mod 64)])"

definition word_token :: "string \<Rightarrow> token" where
  "word_token word =
     (let upper = map upper_char word
      in if upper \<in> set sql_keywords then mk_token TOKEN_KEYWORD upper else mk_token TOKEN_IDENT word)"

text \<open>
  The \<open>switch\<close> on the first character: the characters that are a token of their own, and the
  operators, which take a second character when it is one of those listed.
\<close>

definition single_tokens :: "(char \<times> token_type) list" where
  "single_tokens =
     [(CHR ''('', TOKEN_LPAREN), (CHR '')'', TOKEN_RPAREN), (CHR '','', TOKEN_COMMA), (CHR '';'', TOKEN_SEMICOLON),
      (CHR ''*'', TOKEN_ASTERISK), (CHR ''='', TOKEN_EQ)]"

definition operator_tokens :: "(char \<times> (char \<times> token_type) list \<times> token_type) list" where
  "operator_tokens =
     [(CHR ''!'', [(CHR ''='', TOKEN_NEQ)], TOKEN_IDENT),
      (CHR ''<'', [(CHR ''='', TOKEN_LTE), (CHR ''>'', TOKEN_NEQ)], TOKEN_LT),
      (CHR ''>'', [(CHR ''='', TOKEN_GTE)], TOKEN_GT)]"

text \<open>The tests for a second character, one after the other, behind the first character \<open>c\<close>.\<close>

fun operator_at :: "string \<Rightarrow> nat \<Rightarrow> char \<Rightarrow> (char \<times> token_type) list \<Rightarrow> token_type \<Rightarrow> (token \<times> nat) result" where
  "operator_at s i c [] ty = Ok (mk_token ty [c], i)"
| "operator_at s i c ((d, ty') # alts) ty =
     bind (next_is s i d) (\<lambda>yes. if yes then Ok (mk_token ty' [c, d], Suc i) else operator_at s i c alts ty)"

definition string_at :: "string \<Rightarrow> nat \<Rightarrow> (token \<times> nat) result" where
  "string_at s i =
     (let start = Suc i
      in bind (scan_while (\<lambda>ch. \<not> quote_char ch) s start) (\<lambda>j.
         bind (go_slice s start j) (\<lambda>v.
           Ok (mk_token TOKEN_STRING v, if j < length s then Suc j else j))))"

definition number_at :: "string \<Rightarrow> nat \<Rightarrow> (token \<times> nat) result" where
  "number_at s i =
     bind (scan_while isDigit s i) (\<lambda>j.
     bind (next_is s j (CHR ''.'')) (\<lambda>dot.
     bind (if dot then scan_while isDigit s (Suc j) else Ok j) (\<lambda>k.
     bind (go_slice s i k) (\<lambda>v. Ok (mk_token TOKEN_NUMBER v, k)))))"

definition word_at :: "string \<Rightarrow> nat \<Rightarrow> (token \<times> nat) result" where
  "word_at s i =
     bind (scan_while word_char s i) (\<lambda>j.
     bind (go_slice s i j) (\<lambda>word. Ok (word_token word, j)))"

text \<open>The token that starts at position \<open>i\<close> of the input, and the position behind it.\<close>

definition token_at :: "string \<Rightarrow> nat \<Rightarrow> (token \<times> nat) result" where
  "token_at s i =
     bind (go_index s i) (\<lambda>c.
       case map_of single_tokens c of
         Some ty \<Rightarrow> Ok (mk_token ty [c], Suc i)
       | None \<Rightarrow>
           (case map_of operator_tokens c of
              Some (alts, ty) \<Rightarrow> operator_at s (Suc i) c alts ty
            | None \<Rightarrow>
                if quote_char c then string_at s i
                else if isDigit c then number_at s i
                else if isLetter c \<or> c = CHR ''_'' then word_at s i
                else Ok (mk_token TOKEN_IDENT (string_of_byte c), Suc i)))"

definition NextToken :: "lexer \<Rightarrow> (token \<times> lexer) result" where
  "NextToken l =
     (let s = lex_input l
      in bind (scan_while isSpace s (lex_pos l)) (\<lambda>i.
           if i \<ge> length s then Ok (mk_token TOKEN_EOF '''', l\<lparr>lex_pos := i\<rparr>)
           else bind (token_at s i) (\<lambda>(t, j). Ok (t, l\<lparr>lex_pos := j\<rparr>))))"

section \<open>The reference on the rest of the input\<close>

fun lex_operator :: "char \<Rightarrow> string \<Rightarrow> (char \<times> token_type) list \<Rightarrow> token_type \<Rightarrow> token \<times> string" where
  "lex_operator c [] alts ty = (mk_token ty [c], [])"
| "lex_operator c (d # ds) alts ty =
     (case map_of alts d of Some ty' \<Rightarrow> (mk_token ty' [c, d], ds) | None \<Rightarrow> (mk_token ty [c], d # ds))"

definition lex_string :: "string \<Rightarrow> token \<times> string" where
  "lex_string cs =
     (mk_token TOKEN_STRING (takeWhile (\<lambda>ch. \<not> quote_char ch) cs), drop 1 (dropWhile (\<lambda>ch. \<not> quote_char ch) cs))"

definition lex_number :: "string \<Rightarrow> token \<times> string" where
  "lex_number s =
     (let w = takeWhile isDigit s; r = dropWhile isDigit s
      in if r \<noteq> [] \<and> hd r = CHR ''.''
         then (mk_token TOKEN_NUMBER (w @ ''.'' @ takeWhile isDigit (tl r)), dropWhile isDigit (tl r))
         else (mk_token TOKEN_NUMBER w, r))"

definition lex_word :: "string \<Rightarrow> token \<times> string" where
  "lex_word s = (word_token (takeWhile word_char s), dropWhile word_char s)"

fun lex_token :: "string \<Rightarrow> token \<times> string" where
  "lex_token [] = (mk_token TOKEN_EOF [], [])"
| "lex_token (c # cs) =
     (case map_of single_tokens c of
        Some ty \<Rightarrow> (mk_token ty [c], cs)
      | None \<Rightarrow>
          (case map_of operator_tokens c of
             Some (alts, ty) \<Rightarrow> lex_operator c cs alts ty
           | None \<Rightarrow>
               if quote_char c then lex_string cs
               else if isDigit c then lex_number (c # cs)
               else if isLetter c \<or> c = CHR ''_'' then lex_word (c # cs)
               else (mk_token TOKEN_IDENT (string_of_byte c), cs)))"

definition next_token :: "string \<Rightarrow> token \<times> string" where
  "next_token s = lex_token (dropWhile isSpace s)"

definition rest :: "lexer \<Rightarrow> string" where
  "rest l = drop (lex_pos l) (lex_input l)"

text \<open>Every loop stays inside the input and ends at \<open>stop\<close>; every index and slice is in range.\<close>

definition stop :: "(char \<Rightarrow> bool) \<Rightarrow> string \<Rightarrow> nat \<Rightarrow> nat" where
  "stop P s i = i + length (takeWhile P (drop i s))"

lemma scan_while_in [in_range]: "scan_while P s i = Ok (stop P s i)"
proof (induction P s i rule: scan_while.induct)
  case (1 P s i)
  show ?case
  proof (cases "i < length s")
    case True
    then have "drop i s = s ! i # drop (Suc i) s" by (simp add: Cons_nth_drop_Suc)
    then show ?thesis using 1 True by (simp add: scan_while.simps [of P s i] stop_def in_range)
  next
    case False
    then show ?thesis by (simp add: scan_while.simps [of P s i] stop_def)
  qed
qed

lemma next_is_in [in_range]: "next_is s i c = Ok (drop i s \<noteq> [] \<and> hd (drop i s) = c)"
  by (auto simp: next_is_def hd_drop_conv_nth in_range)

lemma drop_stop: "drop (stop P s i) s = dropWhile P (drop i s)"
  by (simp add: stop_def dropWhile_eq_drop drop_drop add.commute)

lemma stop_bounds: "i \<le> stop P s i" "i \<le> length s \<Longrightarrow> stop P s i \<le> length s"
proof -
  show "i \<le> length s \<Longrightarrow> stop P s i \<le> length s"
    using length_takeWhile_le [of P "drop i s"] by (simp add: stop_def)
qed (simp add: stop_def)

lemma slice_stop [in_range]: "i \<le> length s \<Longrightarrow> go_slice s i (stop P s i) = Ok (takeWhile P (drop i s))"
  using stop_bounds(1) [of i P s] stop_bounds(2) [of i s P] by (simp add: go_slice_in) (simp add: stop_def takeWhile_eq_take [symmetric])

lemma drop_Suc_tl: "drop (Suc i) s = tl (drop i s)"
  by (simp add: drop_Suc tl_drop)

lemma number_at_rest:
  assumes "i < length s"
  shows "\<exists>t j. number_at s i = Ok (t, j) \<and> lex_number (drop i s) = (t, drop j s)"
proof (cases "dropWhile isDigit (drop i s) \<noteq> [] \<and> hd (dropWhile isDigit (drop i s)) = CHR ''.''")
  case True
  let ?j = "stop isDigit s i" and ?d = "drop i s"
  let ?k = "stop isDigit s (Suc ?j)" and ?v = "takeWhile isDigit ?d @ ''.'' @ takeWhile isDigit (tl (dropWhile isDigit ?d))"
  have r: "dropWhile isDigit ?d = CHR ''.'' # tl (dropWhile isDigit ?d)" using True by (metis hd_Cons_tl)
  then have d: "?d = takeWhile isDigit ?d @ CHR ''.'' # tl (dropWhile isDigit ?d)"
    using takeWhile_dropWhile_id [of isDigit ?d] by metis
  have k: "?k - i = length (takeWhile isDigit ?d) + 1 + length (takeWhile isDigit (tl (dropWhile isDigit ?d)))"
    by (simp add: stop_def [of _ _ "Suc ?j"] drop_Suc_tl drop_stop) (simp add: stop_def)
  have j: "Suc ?j \<le> length s" using True by (metis drop_stop drop_all not_less_eq_eq)
  have b: "i \<le> ?k" "?k \<le> length s" using stop_bounds(1) [of i isDigit s] stop_bounds(1) [of "Suc ?j" isDigit s] stop_bounds(2) [of "Suc ?j" s isDigit] j by simp_all
  have "take (?k - i) ?d = ?v" unfolding k by (subst d) (simp add: takeWhile_eq_take [symmetric])
  then have "go_slice s i ?k = Ok ?v" using b by (simp add: go_slice_in)
  then have "number_at s i = Ok (mk_token TOKEN_NUMBER ?v, ?k)"
    using True j by (simp add: number_at_def scan_while_in next_is_in drop_stop)
  moreover have "lex_number ?d = (mk_token TOKEN_NUMBER ?v, drop ?k s)"
    using True by (simp add: lex_number_def Let_def drop_stop drop_Suc_tl)
  ultimately show ?thesis by blast
next
  case False
  then have "next_is s (stop isDigit s i) (CHR ''.'') = Ok False" unfolding next_is_in drop_stop by simp
  then have "number_at s i = Ok (mk_token TOKEN_NUMBER (takeWhile isDigit (drop i s)), stop isDigit s i)"
    using assms by (simp add: number_at_def scan_while_in slice_stop)
  then show ?thesis using False by (auto simp: lex_number_def Let_def drop_stop)
qed

lemma operator_at_rest:
  "\<exists>t j. operator_at s i c alts ty = Ok (t, j) \<and> lex_operator c (drop i s) alts ty = (t, drop j s)"
proof (induction alts)
  case Nil
  then show ?case by (cases "drop i s") simp_all
next
  case (Cons a alts)
  obtain d ty' where a: "a = (d, ty')" by (cases a)
  show ?case
  proof (cases "drop i s")
    case Nil
    then show ?thesis using Cons a by (simp add: next_is_in)
  next
    case (Cons e es)
    have "drop (Suc i) s = es" using Cons drop_Suc_tl [of i s] by simp
    then show ?thesis using Cons Cons.IH a by (auto simp: next_is_in)
  qed
qed

lemma token_at_rest:
  assumes "drop i s = c # cs"
  shows "\<exists>t j. token_at s i = Ok (t, j) \<and> lex_token (c # cs) = (t, drop j s)"
proof -
  have i: "i < length s" using assms by (metis drop_all list.distinct(1) not_less)
  have c: "s ! i = c" and cs: "drop (Suc i) s = cs"
    using assms i by (simp_all add: hd_drop_conv_nth [symmetric] drop_Suc_tl)
  have op: "\<exists>t j. operator_at s (Suc i) c alts ty = Ok (t, j) \<and> lex_operator c cs alts ty = (t, drop j s)" for alts ty
    using operator_at_rest [of s "Suc i" c alts ty] cs by simp
  have st: "\<exists>t j. string_at s i = Ok (t, j) \<and> lex_string cs = (t, drop j s)"
  proof -
    let ?q = "stop (\<lambda>ch. \<not> quote_char ch) s (Suc i)"
    have "drop (if ?q < length s then Suc ?q else ?q) s = drop 1 (drop ?q s)" by simp
    then show ?thesis using i by (simp add: string_at_def lex_string_def in_range Let_def drop_stop cs del: drop_drop)
  qed
  have nm: "\<exists>t j. number_at s i = Ok (t, j) \<and> lex_number (c # cs) = (t, drop j s)"
    using number_at_rest [OF i] assms by simp
  have wd: "\<exists>t j. word_at s i = Ok (t, j) \<and> lex_word (c # cs) = (t, drop j s)"
    using i assms by (auto simp: word_at_def lex_word_def in_range drop_stop)
  show ?thesis
    using op st nm wd by (auto simp: token_at_def go_index_in [OF i] c cs split: option.splits)
qed

lemma NextToken_total:
  "\<exists>t l'. NextToken l = Ok (t, l') \<and> next_token (rest l) = (t, rest l') \<and> lex_input l' = lex_input l"
proof -
  let ?s = "lex_input l" and ?i = "stop isSpace (lex_input l) (lex_pos l)"
  have d: "dropWhile isSpace (rest l) = drop ?i ?s" by (simp add: rest_def drop_stop)
  show ?thesis
  proof (cases "drop ?i ?s")
    case Nil
    then have "length ?s \<le> ?i" by simp
    then have "NextToken l = Ok (mk_token TOKEN_EOF '''', l\<lparr>lex_pos := ?i\<rparr>)" by (simp add: NextToken_def scan_while_in)
    then show ?thesis using \<open>length ?s \<le> ?i\<close> unfolding next_token_def d Nil by (simp add: rest_def)
  next
    case (Cons c cs)
    then have n: "\<not> length ?s \<le> ?i" by auto
    obtain t j where t: "token_at ?s ?i = Ok (t, j)" "lex_token (c # cs) = (t, drop j ?s)"
      using token_at_rest [OF Cons] by blast
    then have "NextToken l = Ok (t, l\<lparr>lex_pos := j\<rparr>)" using n by (simp add: NextToken_def scan_while_in)
    then show ?thesis using t(2) unfolding next_token_def d Cons by (simp add: rest_def)
  qed
qed

lemma NextToken_rest:
  assumes "NextToken l = Ok (t, l')"
  shows "next_token (rest l) = (t, rest l')" and "lex_input l' = lex_input l"
  using NextToken_total [of l] assms by auto

section \<open>Every token consumes input\<close>

lemma lex_token_consumes:
  assumes "lex_token (c # cs) = (t, r)"
  shows "length r < Suc (length cs)" and "tok_Type t \<noteq> TOKEN_EOF"
proof -
  have op: "length r \<le> length cs \<and> tok_Type t \<noteq> TOKEN_EOF"
    if "map_of operator_tokens c = Some (alts, ty)" "lex_operator c cs alts ty = (t, r)" for alts ty
    using that by (cases cs) (auto simp: mk_token_def operator_tokens_def split: if_splits option.splits)
  have dw: "length (dropWhile P s) \<le> length s" for P and s :: string by (rule length_dropWhile_le)
  have st: "length r \<le> length cs \<and> tok_Type t \<noteq> TOKEN_EOF" if "lex_string cs = (t, r)"
    using that dw [of "\<lambda>ch. \<not> quote_char ch" cs] by (auto simp: lex_string_def mk_token_def)
  have nm: "length r \<le> length cs \<and> tok_Type t \<noteq> TOKEN_EOF" if "lex_number (c # cs) = (t, r)" "isDigit c"
    using that dw [of isDigit cs] dw [of isDigit "tl (dropWhile isDigit cs)"]
    by (auto simp: lex_number_def mk_token_def Let_def split: if_splits)
  have wd: "length r \<le> length cs \<and> tok_Type t \<noteq> TOKEN_EOF" if "lex_word (c # cs) = (t, r)" "isLetter c \<or> c = CHR ''_''"
    using that dw [of word_char cs] by (auto simp: lex_word_def word_char_def word_token_def mk_token_def Let_def split: if_splits)
  have sg: "ty \<noteq> TOKEN_EOF" if "map_of single_tokens c = Some ty" for ty
    using that by (auto simp: single_tokens_def split: if_splits)
  have "length r \<le> length cs \<and> tok_Type t \<noteq> TOKEN_EOF"
    using assms op st nm wd sg by (auto simp: mk_token_def split: option.splits if_splits)
  then show "length r < Suc (length cs)" and "tok_Type t \<noteq> TOKEN_EOF" by simp_all
qed

lemma next_token_consumes:
  assumes "next_token s = (t, r)"
  shows "tok_Type t = TOKEN_EOF \<and> r = [] \<or> tok_Type t \<noteq> TOKEN_EOF \<and> length r < length s"
proof (cases "dropWhile isSpace s")
  case Nil
  then have "lex_token [] = (t, r)" using assms by (simp only: next_token_def)
  then show ?thesis by (auto simp: mk_token_def)
next
  case (Cons c cs)
  then have "lex_token (c # cs) = (t, r)" using assms by (simp only: next_token_def)
  from lex_token_consumes [OF this] show ?thesis using length_dropWhile_le [of isSpace s] Cons by simp
qed

section \<open>Token streams and their text\<close>

function tokens :: "string \<Rightarrow> token list" where
  "tokens s = (case next_token s of (t, r) \<Rightarrow> if tok_Type t = TOKEN_EOF then [] else t # tokens r)"
  by pat_completeness auto
termination by (relation "measure length") (auto dest: next_token_consumes [OF sym])

declare tokens.simps [simp del]

definition ident_ok :: "string \<Rightarrow> bool" where
  "ident_ok v \<longleftrightarrow>
     v \<noteq> [] \<and> (isLetter (hd v) \<or> hd v = CHR ''_'') \<and> list_all word_char v \<and> map upper_char v \<notin> set sql_keywords"

definition number_ok :: "string \<Rightarrow> bool" where
  "number_ok v \<longleftrightarrow>
     (let w = takeWhile isDigit v; r = dropWhile isDigit v
      in w \<noteq> [] \<and> (r = [] \<or> hd r = CHR ''.'' \<and> list_all isDigit (tl r)))"

fun token_ok :: "token \<Rightarrow> bool" where
  "token_ok t =
     (case tok_Type t of
        TOKEN_KEYWORD \<Rightarrow> tok_Value t \<in> set sql_keywords
      | TOKEN_IDENT \<Rightarrow> ident_ok (tok_Value t)
      | TOKEN_STRING \<Rightarrow> list_all (\<lambda>ch. \<not> quote_char ch) (tok_Value t)
      | TOKEN_NUMBER \<Rightarrow> number_ok (tok_Value t)
      | TOKEN_LPAREN \<Rightarrow> tok_Value t = ''(''
      | TOKEN_RPAREN \<Rightarrow> tok_Value t = '')''
      | TOKEN_COMMA \<Rightarrow> tok_Value t = '',''
      | TOKEN_SEMICOLON \<Rightarrow> tok_Value t = '';''
      | TOKEN_ASTERISK \<Rightarrow> tok_Value t = ''*''
      | TOKEN_EQ \<Rightarrow> tok_Value t = ''=''
      | TOKEN_NEQ \<Rightarrow> tok_Value t = ''!='' \<or> tok_Value t = ''<>''
      | TOKEN_LT \<Rightarrow> tok_Value t = ''<''
      | TOKEN_GT \<Rightarrow> tok_Value t = ''>''
      | TOKEN_LTE \<Rightarrow> tok_Value t = ''<=''
      | TOKEN_GTE \<Rightarrow> tok_Value t = ''>=''
      | TOKEN_EOF \<Rightarrow> False)"

definition token_text :: "token \<Rightarrow> string" where
  "token_text t = (if tok_Type t = TOKEN_STRING then [CHR 0x27] @ tok_Value t @ [CHR 0x27] else tok_Value t)"

definition print_tokens :: "token list \<Rightarrow> string" where
  "print_tokens ts = concat (map (\<lambda>t. token_text t @ '' '') ts)"

lemma space_not_word: "\<not> word_char (CHR '' '')" "\<not> isDigit (CHR '' '')" "isSpace (CHR '' '')"
  by (simp_all add: word_char_def isLetter_def isDigit_def isSpace_def)

lemma special_class:
  "map_of single_tokens c \<noteq> None \<or> map_of operator_tokens c \<noteq> None \<or> quote_char c \<Longrightarrow>
     \<not> isLetter c \<and> \<not> isDigit c \<and> c \<noteq> CHR ''_''"
  by (auto simp: single_tokens_def operator_tokens_def quote_char_def isLetter_def isDigit_def split: if_splits)

lemma space_class: "isSpace c \<Longrightarrow> \<not> isLetter c \<and> \<not> isDigit c \<and> c \<noteq> CHR ''_''"
  unfolding isSpace_def isLetter_def isDigit_def Let_def by (elim disjE) auto

lemma letter_not_digit: "isLetter c \<or> c = CHR ''_'' \<Longrightarrow> \<not> isDigit c"
  unfolding isLetter_def isDigit_def Let_def by (elim disjE) auto

lemma letter_class:
  "isLetter c \<or> c = CHR ''_'' \<Longrightarrow>
     \<not> isSpace c \<and> \<not> quote_char c \<and> \<not> isDigit c \<and> map_of single_tokens c = None \<and> map_of operator_tokens c = None"
  using special_class [of c] space_class [of c] letter_not_digit [of c] by blast

lemma digit_class:
  "isDigit c \<Longrightarrow> \<not> isSpace c \<and> \<not> quote_char c \<and> map_of single_tokens c = None \<and> map_of operator_tokens c = None"
  using special_class [of c] space_class [of c] by blast

lemma takeWhile_all_space: "list_all P v \<Longrightarrow> \<not> P (CHR '' '') \<Longrightarrow> takeWhile P (v @ CHR '' '' # r) = v"
  by (induction v) auto

lemma dropWhile_all_space: "list_all P v \<Longrightarrow> \<not> P (CHR '' '') \<Longrightarrow> dropWhile P (v @ CHR '' '' # r) = CHR '' '' # r"
  by (induction v) auto

lemma next_token_word:
  assumes "v \<noteq> []" and "isLetter (hd v) \<or> hd v = CHR ''_''" and "list_all word_char v"
  shows "next_token (v @ CHR '' '' # r) = (word_token v, CHR '' '' # r)"
proof -
  obtain c cs where v: "v = c # cs" using assms(1) by (cases v) auto
  note k = letter_class [of c]
  have "next_token (v @ CHR '' '' # r) = lex_word (v @ CHR '' '' # r)"
    using k assms(2) by (simp add: next_token_def v)
  then show ?thesis
    using assms(3) by (simp add: lex_word_def takeWhile_all_space dropWhile_all_space space_not_word)
qed

lemma sql_keywords_upper:
  "list_all (\<lambda>k. k \<noteq> [] \<and> isLetter (hd k) \<and> list_all word_char k \<and> map upper_char k = k) sql_keywords"
  by code_simp

lemma next_token_number:
  assumes "number_ok v"
  shows "next_token (v @ CHR '' '' # r) = (mk_token TOKEN_NUMBER v, CHR '' '' # r)"
proof -
  let ?w = "takeWhile isDigit v" and ?r = "dropWhile isDigit v"
  have w: "?w \<noteq> []" and r: "?r = [] \<or> hd ?r = CHR ''.'' \<and> list_all isDigit (tl ?r)"
    using assms by (auto simp: number_ok_def Let_def)
  obtain c cs where v: "v = c # cs" "isDigit c" using w by (cases v) (auto split: if_splits)
  have n: "next_token (v @ CHR '' '' # r) = lex_number (v @ CHR '' '' # r)"
    using digit_class [OF v(2)] v by (simp add: next_token_def)
  have dec: "v = ?w @ ?r" by simp
  show ?thesis
  proof (cases "?r = []")
    case True
    then have "list_all isDigit v" by (simp add: dropWhile_eq_Nil_conv list_all_iff)
    then show ?thesis
      unfolding n lex_number_def Let_def by (simp add: takeWhile_all_space dropWhile_all_space space_not_word)
  next
    case False
    then obtain ds where ds: "?r = CHR ''.'' # ds" "list_all isDigit ds" using r by (cases ?r) auto
    have all: "list_all isDigit ?w" using set_takeWhileD [of _ isDigit v] by (auto simp: list_all_iff)
    have sp: "v @ CHR '' '' # r = ?w @ CHR ''.'' # ds @ CHR '' '' # r" 
      by (subst dec, subst ds(1)) simp
    have dot: "\<not> isDigit (CHR ''.'')" by (simp add: isDigit_def)
    have tw: "takeWhile isDigit (v @ CHR '' '' # r) = ?w" "dropWhile isDigit (v @ CHR '' '' # r) = CHR ''.'' # ds @ CHR '' '' # r"
      unfolding sp using all dot by (simp_all add: list_all_iff takeWhile_append2 dropWhile_append2)
    have "?w @ ''.'' @ ds = v" by (subst (2) dec, subst ds(1)) simp
    then show ?thesis
      unfolding n lex_number_def Let_def tw using ds(2)
      by (simp add: takeWhile_all_space dropWhile_all_space space_not_word)
  qed
qed

lemma next_token_quoted:
  "list_all (\<lambda>ch. \<not> quote_char ch) v \<Longrightarrow>
     next_token (CHR 0x27 # v @ CHR 0x27 # r) = (mk_token TOKEN_STRING v, r)"
proof -
  assume v: "list_all (\<lambda>ch. \<not> quote_char ch) v"
  have q: "quote_char (CHR 0x27)" "\<not> isSpace (CHR 0x27)" by (simp_all add: quote_char_def isSpace_def)
  have "takeWhile (\<lambda>ch. \<not> quote_char ch) (v @ CHR 0x27 # r) = v"
    "dropWhile (\<lambda>ch. \<not> quote_char ch) (v @ CHR 0x27 # r) = CHR 0x27 # r"
    using v q(1) by (induction v) auto
  then show ?thesis using q by (simp add: next_token_def single_tokens_def operator_tokens_def lex_string_def)
qed

lemma next_token_symbol:
  "v \<in> {''('', '')'', '','', '';'', ''*'', ''='', ''!='', ''<>'', ''<'', ''>'', ''<='', ''>=''} \<Longrightarrow>
     \<exists>ty. next_token (v @ CHR '' '' # r) = (mk_token ty v, CHR '' '' # r) \<and>
       (\<forall>t. tok_Value t = v \<and> token_ok t \<and> tok_Type t \<notin> {TOKEN_KEYWORD, TOKEN_IDENT, TOKEN_STRING, TOKEN_NUMBER} \<longrightarrow> tok_Type t = ty)"
  by (elim insertE emptyE;
      force simp: next_token_def isSpace_def single_tokens_def operator_tokens_def split: token_type.splits)

lemma token_eq: "mk_token (tok_Type t) (tok_Value t) = t"
  by (simp add: mk_token_def)

lemma next_token_text:
  assumes "token_ok t"
  shows "next_token (token_text t @ CHR '' '' # r) = (t, CHR '' '' # r)"
proof (cases "tok_Type t \<in> {TOKEN_KEYWORD, TOKEN_IDENT, TOKEN_STRING, TOKEN_NUMBER}")
  case True
  then consider (kw) "tok_Type t = TOKEN_KEYWORD" | (id) "tok_Type t = TOKEN_IDENT"
    | (str) "tok_Type t = TOKEN_STRING" | (num) "tok_Type t = TOKEN_NUMBER" by auto
  then show ?thesis
  proof cases
    case kw
    then have k: "tok_Value t \<in> set sql_keywords" using assms by simp
    then have "word_token (tok_Value t) = t"
      using sql_keywords_upper kw token_eq [of t] by (auto simp: word_token_def list_all_iff)
    then show ?thesis
      using next_token_word [of "tok_Value t" r] k sql_keywords_upper kw by (auto simp: token_text_def list_all_iff)
  next
    case id
    then have "word_token (tok_Value t) = t" using assms token_eq [of t] by (simp add: word_token_def ident_ok_def)
    then show ?thesis using next_token_word [of "tok_Value t" r] assms id by (simp add: token_text_def ident_ok_def)
  next
    case str
    then show ?thesis using next_token_quoted [of "tok_Value t"] assms token_eq [of t] by (simp add: token_text_def)
  next
    case num
    then show ?thesis using next_token_number [of "tok_Value t" r] assms token_eq [of t] by (simp add: token_text_def)
  qed
next
  case False
  then have "tok_Value t \<in> {''('', '')'', '','', '';'', ''*'', ''='', ''!='', ''<>'', ''<'', ''>'', ''<='', ''>=''}"
    using assms by (auto split: token_type.splits)
  then obtain ty where "next_token (tok_Value t @ CHR '' '' # r) = (mk_token ty (tok_Value t), CHR '' '' # r)" "tok_Type t = ty"
    using next_token_symbol [of "tok_Value t" r] assms False by blast
  then show ?thesis using False token_eq [of t] by (simp add: token_text_def)
qed

lemma next_token_space: "next_token (CHR '' '' # r) = next_token r"
  by (simp add: next_token_def space_not_word)

lemma tokens_space: "tokens (CHR '' '' # r) = tokens r"
  by (simp add: tokens.simps [of "CHR '' '' # r"] tokens.simps [of r] next_token_space)

text \<open>Printing tokens with a space after each and lexing the text gives the tokens back.\<close>

lemma tokens_print: "list_all token_ok ts \<Longrightarrow> tokens (print_tokens ts @ s) = ts @ tokens s"
proof (induction ts)
  case Nil
  then show ?case by (simp add: print_tokens_def)
next
  case (Cons t ts)
  have "tok_Type t \<noteq> TOKEN_EOF" using Cons.prems by (cases "tok_Type t") auto
  moreover have "next_token (print_tokens (t # ts) @ s) = (t, CHR '' '' # print_tokens ts @ s)"
    using next_token_text [of t] Cons.prems by (simp add: print_tokens_def del: token_ok.simps)
  ultimately show ?case
    using Cons by (simp add: tokens.simps [of "print_tokens (t # ts) @ s"] tokens_space del: token_ok.simps)
qed

section \<open>Properties\<close>

text \<open>C21. The position-based lexer agrees with the reference that works on the rest of the input as a list: \<open>NextToken\<close> does not panic, whatever the input and the position, returns the reference's token, leaves the reference's rest, does not change the input, and either reports the end of the input, with nothing left, or moves forward by at least one byte.\<close>

theorem lexer_equivalent:
  "\<exists>t l'. NextToken l = Ok (t, l') \<and> next_token (rest l) = (t, rest l') \<and> lex_input l' = lex_input l \<and>
     (if tok_Type t = TOKEN_EOF then rest l' = [] else length (rest l') < length (rest l))"
proof -
  obtain t l' where n: "NextToken l = Ok (t, l')" "next_token (rest l) = (t, rest l')" "lex_input l' = lex_input l"
    using NextToken_total by blast
  then show ?thesis using next_token_consumes [OF n(2)] by auto
qed

text \<open>The text of a token sequence, each token followed by a space, is lexed back into exactly those tokens: keywords in upper case, identifiers, numbers, quoted strings without a quote inside, and every operator and punctuation sign.\<close>

lemma lexer_roundtrip:
  assumes "list_all token_ok ts"
  shows "tokens (print_tokens ts) = ts"
  using tokens_print [OF assms, of "[]"] by (simp add: tokens.simps next_token_def mk_token_def)

end
