(* ===== verification/SqlParser.thy ===== *)
theory SqlParser
  imports Lexer Ast
begin

text \<open>
  The recursive-descent parser of \<open>internal/parser/parser.go\<close>. A parser is the lexer and the
  current token; each function returns its result with the parser it leaves, an \<open>error\<close>, or the panic
  of a lexer that runs off its input. The recursion of the expressions and the loops over lists
  take fuel, and running out of it is \<open>None\<close>; every token consumes a byte, so one more than the bytes left is enough, and \<open>Parse\<close>
  is total.
\<close>

section \<open>Parser state\<close>

record parser =
  par_lexer :: lexer
  par_current :: token

type_synonym 'a presult = "('a \<times> parser) result option"

definition NewParser :: "string \<Rightarrow> parser result" where
  "NewParser sql = bind (NextToken (NewLexer sql)) (\<lambda>(t, l). Ok \<lparr>par_lexer = l, par_current = t\<rparr>)"

definition peek_is :: "parser \<Rightarrow> token_type \<Rightarrow> bool" where
  "peek_is p ty \<longleftrightarrow> tok_Type (par_current p) = ty"

definition peek_keyword :: "parser \<Rightarrow> string \<Rightarrow> bool" where
  "peek_keyword p v \<longleftrightarrow> tok_Type (par_current p) = TOKEN_KEYWORD \<and> tok_Value (par_current p) = v"

fun pbind :: "'a presult \<Rightarrow> ('a \<Rightarrow> parser \<Rightarrow> 'b presult) \<Rightarrow> 'b presult" where
  "pbind None f = None"
| "pbind (Some (Ok (x, p))) f = f x p"
| "pbind (Some (Err e)) f = Some (Err e)"
| "pbind (Some Panic) f = Some Panic"

definition pok :: "'a \<Rightarrow> parser \<Rightarrow> 'a presult" where
  "pok x p = Some (Ok (x, p))"

definition perr :: "go_error \<Rightarrow> 'a presult" where
  "perr e = Some (Err e)"

text \<open>\<open>advance\<close> returns the token it leaves behind.\<close>

definition advance :: "parser \<Rightarrow> token presult" where
  "advance p = Some (bind (NextToken (par_lexer p)) (\<lambda>(t, l). Ok (par_current p, \<lparr>par_lexer = l, par_current = t\<rparr>)))"

definition expectKeyword :: "string \<Rightarrow> parser \<Rightarrow> unit presult" where
  "expectKeyword value p =
     (if peek_keyword p value then pbind (advance p) (\<lambda>_ p1. pok () p1)
      else perr (ErrExpectedKeyword value (tok_Value (par_current p))))"

fun token_type_number :: "token_type \<Rightarrow> nat" where
  "token_type_number TOKEN_KEYWORD = 0" | "token_type_number TOKEN_IDENT = 1" | "token_type_number TOKEN_LPAREN = 2"
| "token_type_number TOKEN_RPAREN = 3" | "token_type_number TOKEN_COMMA = 4" | "token_type_number TOKEN_SEMICOLON = 5"
| "token_type_number TOKEN_STRING = 6" | "token_type_number TOKEN_NUMBER = 7" | "token_type_number TOKEN_ASTERISK = 8"
| "token_type_number TOKEN_EQ = 9" | "token_type_number TOKEN_NEQ = 10" | "token_type_number TOKEN_LT = 11"
| "token_type_number TOKEN_GT = 12" | "token_type_number TOKEN_LTE = 13" | "token_type_number TOKEN_GTE = 14"
| "token_type_number TOKEN_EOF = 15"

definition expectToken :: "token_type \<Rightarrow> parser \<Rightarrow> token presult" where
  "expectToken ty p =
     (if peek_is p ty then advance p
      else perr (ErrExpectedToken (token_type_number ty) (tok_Value (par_current p))))"

definition skip_semicolon :: "parser \<Rightarrow> unit presult" where
  "skip_semicolon p = (if peek_is p TOKEN_SEMICOLON then pbind (advance p) (\<lambda>_ p1. pok () p1) else pok () p)"

text \<open>The optional semicolon at the end of a statement.\<close>

definition finish :: "statement \<Rightarrow> parser \<Rightarrow> statement presult" where
  "finish st p = pbind (skip_semicolon p) (\<lambda>_ p1. pok st p1)"

section \<open>Expressions\<close>

definition parse_number :: "string \<Rightarrow> expression result" where
  "parse_number v =
     (if CHR ''.'' \<in> set v
      then (case ParseFloat64 v of None \<Rightarrow> Err (ErrInvalidFloat v) | Some f \<Rightarrow> Ok (FloatLiteral f))
      else (case ParseInt 64 v of None \<Rightarrow> Err (ErrInvalidInteger v) | Some i \<Rightarrow> Ok (IntegerLiteral (word_of_int i))))"

definition comparison_token :: "token_type \<Rightarrow> bool" where
  "comparison_token ty \<longleftrightarrow> ty \<in> {TOKEN_EQ, TOKEN_NEQ, TOKEN_LT, TOKEN_GT, TOKEN_LTE, TOKEN_GTE}"

fun parsePrimary :: "nat \<Rightarrow> parser \<Rightarrow> expression presult"
  and parseWhereExpr :: "nat \<Rightarrow> parser \<Rightarrow> expression presult"
  and or_loop :: "nat \<Rightarrow> expression \<Rightarrow> parser \<Rightarrow> expression presult"
  and parseAndExpr :: "nat \<Rightarrow> parser \<Rightarrow> expression presult"
  and and_loop :: "nat \<Rightarrow> expression \<Rightarrow> parser \<Rightarrow> expression presult"
  and parseComparison :: "nat \<Rightarrow> parser \<Rightarrow> expression presult" where
  "parsePrimary 0 p = None"
| "parsePrimary (Suc n) p =
     (let tok = par_current p
      in case tok_Type tok of
           TOKEN_NUMBER \<Rightarrow>
             pbind (advance p) (\<lambda>_ p1.
               case parse_number (tok_Value tok) of
                 Ok e \<Rightarrow> pok e p1 | Err e \<Rightarrow> perr e | Panic \<Rightarrow> Some Panic)
         | TOKEN_STRING \<Rightarrow> pbind (advance p) (\<lambda>_ p1. pok (StringLiteral (tok_Value tok)) p1)
         | TOKEN_IDENT \<Rightarrow> pbind (advance p) (\<lambda>_ p1. pok (ColumnRef (tok_Value tok)) p1)
         | TOKEN_LPAREN \<Rightarrow>
             pbind (advance p) (\<lambda>_ p1.
             pbind (parseWhereExpr n p1) (\<lambda>expr p2.
             pbind (expectToken TOKEN_RPAREN p2) (\<lambda>_ p3. pok expr p3)))
         | TOKEN_KEYWORD \<Rightarrow>
             if tok_Value tok = ''TRUE'' then pbind (advance p) (\<lambda>_ p1. pok (BoolLiteral True) p1)
             else if tok_Value tok = ''FALSE'' then pbind (advance p) (\<lambda>_ p1. pok (BoolLiteral False) p1)
             else if tok_Value tok = ''NULL'' then pbind (advance p) (\<lambda>_ p1. pok NullLiteral p1)
             else perr (ErrExpectedExpression (tok_Value tok))
         | _ \<Rightarrow> perr (ErrExpectedExpression (tok_Value tok)))"
| "parseWhereExpr n p = pbind (parseAndExpr n p) (\<lambda>left p1. or_loop n left p1)"
| "or_loop 0 left p = None"
| "or_loop (Suc n) left p =
     (if peek_keyword p ''OR''
      then pbind (advance p) (\<lambda>_ p1. pbind (parseAndExpr n p1) (\<lambda>right p2. or_loop n (BinaryExpr left ''OR'' right) p2))
      else pok left p)"
| "parseAndExpr n p = pbind (parseComparison n p) (\<lambda>left p1. and_loop n left p1)"
| "and_loop 0 left p = None"
| "and_loop (Suc n) left p =
     (if peek_keyword p ''AND''
      then pbind (advance p) (\<lambda>_ p1. pbind (parseComparison n p1) (\<lambda>right p2. and_loop n (BinaryExpr left ''AND'' right) p2))
      else pok left p)"
| "parseComparison n p =
     pbind (parsePrimary n p) (\<lambda>left p1.
       if peek_keyword p1 ''IS'' then
         pbind (advance p1) (\<lambda>_ p2.
         pbind (if peek_keyword p2 ''NOT'' then pbind (advance p2) (\<lambda>_ p3. pok True p3) else pok False p2) (\<lambda>neg p3.
         pbind (expectKeyword ''NULL'' p3) (\<lambda>_ p4. pok (IsNullExpr left neg) p4)))
       else if comparison_token (tok_Type (par_current p1)) then
         pbind (advance p1) (\<lambda>op p2.
         pbind (parsePrimary n p2) (\<lambda>right p3. pok (BinaryExpr left (tok_Value op) right) p3))
       else pok left p1)"

section \<open>Lists\<close>

text \<open>The loops \<open>for { item; if comma { advance; continue }; break }\<close>.\<close>

fun comma_list :: "(parser \<Rightarrow> 'a presult) \<Rightarrow> nat \<Rightarrow> parser \<Rightarrow> 'a list \<Rightarrow> 'a list presult" where
  "comma_list item 0 p acc = None"
| "comma_list item (Suc n) p acc =
     pbind (item p) (\<lambda>x p1.
       if peek_is p1 TOKEN_COMMA then pbind (advance p1) (\<lambda>_ p2. comma_list item n p2 (acc @ [x])) else pok (acc @ [x]) p1)"

definition parse_ident :: "parser \<Rightarrow> string presult" where
  "parse_ident p = pbind (expectToken TOKEN_IDENT p) (\<lambda>tok p1. pok (tok_Value tok) p1)"

fun constraint_loop :: "nat \<Rightarrow> column_spec \<Rightarrow> parser \<Rightarrow> column_spec presult" where
  "constraint_loop 0 col p = None"
| "constraint_loop (Suc n) col p =
     (if peek_keyword p ''NOT''
      then pbind (advance p) (\<lambda>_ p1. pbind (expectKeyword ''NULL'' p1) (\<lambda>_ p2.
             constraint_loop n (col\<lparr>spec_NotNull := True\<rparr>) p2))
      else if peek_keyword p ''PRIMARY''
      then pbind (advance p) (\<lambda>_ p1. pbind (expectKeyword ''KEY'' p1) (\<lambda>_ p2.
             constraint_loop n (col\<lparr>spec_PrimaryKey := True, spec_NotNull := True\<rparr>) p2))
      else pok col p)"

definition parseColumnSpec :: "nat \<Rightarrow> parser \<Rightarrow> column_spec presult" where
  "parseColumnSpec n p =
     pbind (expectToken TOKEN_IDENT p) (\<lambda>nameTok p1.
     pbind (advance p1) (\<lambda>typeTok p2.
       if tok_Type typeTok \<noteq> TOKEN_IDENT \<and> tok_Type typeTok \<noteq> TOKEN_KEYWORD
       then perr (ErrExpectedTypeName (tok_Value typeTok))
       else constraint_loop n
              \<lparr>spec_Name = tok_Value nameTok, spec_TypeName = tok_Value typeTok, spec_NotNull = False, spec_PrimaryKey = False\<rparr> p2))"

definition parse_set_clause :: "nat \<Rightarrow> parser \<Rightarrow> set_clause presult" where
  "parse_set_clause n p =
     pbind (expectToken TOKEN_IDENT p) (\<lambda>col p1.
     pbind (expectToken TOKEN_EQ p1) (\<lambda>_ p2.
     pbind (parsePrimary n p2) (\<lambda>value p3.
       pok \<lparr>set_Column = tok_Value col, set_Value = value\<rparr> p3)))"

definition parse_where :: "nat \<Rightarrow> parser \<Rightarrow> expression option presult" where
  "parse_where n p =
     (if peek_keyword p ''WHERE''
      then pbind (advance p) (\<lambda>_ p1. pbind (parseWhereExpr n p1) (\<lambda>e p2. pok (Some e) p2))
      else pok None p)"

section \<open>Statements\<close>

definition parseCreateTable :: "nat \<Rightarrow> parser \<Rightarrow> statement presult" where
  "parseCreateTable n p =
     pbind (expectKeyword ''CREATE'' p) (\<lambda>_ p1.
     pbind (expectKeyword ''TABLE'' p1) (\<lambda>_ p2.
     pbind (expectToken TOKEN_IDENT p2) (\<lambda>nameTok p3.
     pbind (expectToken TOKEN_LPAREN p3) (\<lambda>_ p4.
     pbind (comma_list (parseColumnSpec n) n p4 []) (\<lambda>columns p5.
     pbind (expectToken TOKEN_RPAREN p5) (\<lambda>_ p6.
       finish (CreateTableStatement (tok_Value nameTok) columns) p6))))))"

definition parseDropTable :: "parser \<Rightarrow> statement presult" where
  "parseDropTable p =
     pbind (expectKeyword ''DROP'' p) (\<lambda>_ p1.
     pbind (expectKeyword ''TABLE'' p1) (\<lambda>_ p2.
     pbind (if peek_keyword p2 ''IF''
            then pbind (advance p2) (\<lambda>_ p3. pbind (expectKeyword ''EXISTS'' p3) (\<lambda>_ p4. pok True p4))
            else pok False p2) (\<lambda>ifExists p4.
     pbind (expectToken TOKEN_IDENT p4) (\<lambda>nameTok p5.
       finish (DropTableStatement (tok_Value nameTok) ifExists) p5))))"

definition parseInsert :: "nat \<Rightarrow> parser \<Rightarrow> statement presult" where
  "parseInsert n p =
     pbind (expectKeyword ''INSERT'' p) (\<lambda>_ p1.
     pbind (expectKeyword ''INTO'' p1) (\<lambda>_ p2.
     pbind (expectToken TOKEN_IDENT p2) (\<lambda>nameTok p3.
     pbind (if peek_is p3 TOKEN_LPAREN
            then pbind (advance p3) (\<lambda>_ p4. pbind (comma_list parse_ident n p4 []) (\<lambda>columns p5.
                 pbind (expectToken TOKEN_RPAREN p5) (\<lambda>_ p6. pok columns p6)))
            else pok [] p3) (\<lambda>columns p6.
     pbind (expectKeyword ''VALUES'' p6) (\<lambda>_ p7.
     pbind (expectToken TOKEN_LPAREN p7) (\<lambda>_ p8.
     pbind (comma_list (parsePrimary n) n p8 []) (\<lambda>values p9.
     pbind (expectToken TOKEN_RPAREN p9) (\<lambda>_ p10.
       finish (InsertStatement (tok_Value nameTok) columns values) p10))))))))"

definition parseSelect :: "nat \<Rightarrow> parser \<Rightarrow> statement presult" where
  "parseSelect n p =
     pbind (expectKeyword ''SELECT'' p) (\<lambda>_ p1.
     pbind (if peek_is p1 TOKEN_ASTERISK then pbind (advance p1) (\<lambda>_ p2. pok [''*''] p2)
            else comma_list parse_ident n p1 []) (\<lambda>columns p2.
     pbind (expectKeyword ''FROM'' p2) (\<lambda>_ p3.
     pbind (expectToken TOKEN_IDENT p3) (\<lambda>nameTok p4.
     pbind (parse_where n p4) (\<lambda>wh p5.
       finish (SelectStatement columns (tok_Value nameTok) wh) p5)))))"

definition parseUpdate :: "nat \<Rightarrow> parser \<Rightarrow> statement presult" where
  "parseUpdate n p =
     pbind (expectKeyword ''UPDATE'' p) (\<lambda>_ p1.
     pbind (expectToken TOKEN_IDENT p1) (\<lambda>nameTok p2.
     pbind (expectKeyword ''SET'' p2) (\<lambda>_ p3.
     pbind (comma_list (parse_set_clause n) n p3 []) (\<lambda>clauses p4.
     pbind (parse_where n p4) (\<lambda>wh p5.
       finish (UpdateStatement (tok_Value nameTok) clauses wh) p5)))))"

definition parseDelete :: "nat \<Rightarrow> parser \<Rightarrow> statement presult" where
  "parseDelete n p =
     pbind (expectKeyword ''DELETE'' p) (\<lambda>_ p1.
     pbind (expectKeyword ''FROM'' p1) (\<lambda>_ p2.
     pbind (expectToken TOKEN_IDENT p2) (\<lambda>nameTok p3.
     pbind (parse_where n p3) (\<lambda>wh p4.
       finish (DeleteStatement (tok_Value nameTok) wh) p4))))"

definition parseBegin :: "parser \<Rightarrow> statement presult" where
  "parseBegin p = pbind (expectKeyword ''BEGIN'' p) (\<lambda>_ p1. finish BeginStatement p1)"

definition parseCommit :: "parser \<Rightarrow> statement presult" where
  "parseCommit p = pbind (expectKeyword ''COMMIT'' p) (\<lambda>_ p1. finish CommitStatement p1)"

definition parseRollback :: "parser \<Rightarrow> statement presult" where
  "parseRollback p = pbind (expectKeyword ''ROLLBACK'' p) (\<lambda>_ p1. finish RollbackStatement p1)"

definition Parse_fuel :: "nat \<Rightarrow> parser \<Rightarrow> statement presult" where
  "Parse_fuel n p =
     (if peek_keyword p ''CREATE'' then parseCreateTable n p
      else if peek_keyword p ''DROP'' then parseDropTable p
      else if peek_keyword p ''INSERT'' then parseInsert n p
      else if peek_keyword p ''SELECT'' then parseSelect n p
      else if peek_keyword p ''UPDATE'' then parseUpdate n p
      else if peek_keyword p ''DELETE'' then parseDelete n p
      else if peek_keyword p ''BEGIN'' then parseBegin p
      else if peek_keyword p ''COMMIT'' then parseCommit p
      else if peek_keyword p ''ROLLBACK'' then parseRollback p
      else perr (ErrUnexpectedToken (tok_Value (par_current p))))"

text \<open>The bytes a parser can still consume, the current token counted as one.\<close>

definition left :: "parser \<Rightarrow> nat" where
  "left p = (if tok_Type (par_current p) = TOKEN_EOF then 0 else 1) + length (rest (par_lexer p))"

text \<open>\<open>parser.NewParser(sql).Parse()\<close>, with the fuel that is always enough.\<close>

definition parse_sql :: "string \<Rightarrow> statement result option" where
  "parse_sql sql =
     (case NewParser sql of
        Ok p \<Rightarrow> map_option (\<lambda>r. bind r (\<lambda>(st, p'). Ok st)) (Parse_fuel (Suc (left p)) p)
      | Err e \<Rightarrow> Some (Err e)
      | Panic \<Rightarrow> Some Panic)"

declare parseWhereExpr.simps [simp del] parseAndExpr.simps [simp del] parseComparison.simps [simp del]

section \<open>The lexer never panics\<close>

text \<open>
  Because \<open>NextToken\<close> always returns, \<open>advance\<close> is a function from parsers to parsers, \<open>moved\<close>, and the
  equations of the parser simplify accordingly. The proofs below use them in this form.
\<close>

definition moved :: "parser \<Rightarrow> parser" where
  "moved p = (case NextToken (par_lexer p) of Ok (t, l) \<Rightarrow> \<lparr>par_lexer = l, par_current = t\<rparr> | _ \<Rightarrow> p)"

definition new_parser :: "string \<Rightarrow> parser" where
  "new_parser sql = moved \<lparr>par_lexer = NewLexer sql, par_current = mk_token TOKEN_EOF []\<rparr>"

definition skipped :: "parser \<Rightarrow> parser" where
  "skipped p = (if peek_is p TOKEN_SEMICOLON then moved p else p)"

lemma pbind_pok [simp]: "pbind (pok x p) f = f x p"
  by (simp add: pok_def)

lemma advance_eq: "advance p = pok (par_current p) (moved p)"
  using NextToken_total [of "par_lexer p"] by (auto simp: advance_def moved_def pok_def)

lemma NewParser_eq: "NewParser sql = Ok (new_parser sql)"
  using NextToken_total [of "NewLexer sql"] by (auto simp: NewParser_def new_parser_def moved_def)

lemma parse_sql_eq:
  "parse_sql sql = map_option (\<lambda>r. bind r (\<lambda>(st, p'). Ok st)) (Parse_fuel (Suc (left (new_parser sql))) (new_parser sql))"
  by (simp add: parse_sql_def NewParser_eq)

lemmas advancing = advance_eq pbind_pok

lemma skip_semicolon_eq: "skip_semicolon p = pok () (skipped p)"
  by (simp add: skip_semicolon_def skipped_def advancing)

lemma finish_eq: "finish st p = pok st (skipped p)"
  by (simp add: finish_def skip_semicolon_eq)

lemmas expectKeyword_eq = expectKeyword_def [unfolded advancing]
lemmas expectToken_eq = expectToken_def [unfolded advancing]
lemmas parsePrimary_eqs [simp] = parsePrimary.simps [unfolded advancing]
lemmas or_loop_eqs [simp] = or_loop.simps [unfolded advancing]
lemmas and_loop_eqs [simp] = and_loop.simps [unfolded advancing]
lemmas comma_list_eqs [simp] = comma_list.simps [unfolded advancing]
lemmas constraint_loop_eqs [simp] = constraint_loop.simps [unfolded advancing]
lemmas parseColumnSpec_eq = parseColumnSpec_def [unfolded advancing]
lemmas parse_where_eq = parse_where_def [unfolded advancing]
lemmas parseCreateTable_eq = parseCreateTable_def [unfolded finish_eq]
lemmas parseDropTable_eq = parseDropTable_def [unfolded advancing finish_eq]
lemmas parseInsert_eq = parseInsert_def [unfolded advancing finish_eq]
lemmas parseSelect_eq = parseSelect_def [unfolded advancing finish_eq]
lemmas parseUpdate_eq = parseUpdate_def [unfolded finish_eq]
lemmas parseDelete_eq = parseDelete_def [unfolded finish_eq]
lemmas parseBegin_eq = parseBegin_def [unfolded finish_eq]
lemmas parseCommit_eq = parseCommit_def [unfolded finish_eq]
lemmas parseRollback_eq = parseRollback_def [unfolded finish_eq]

lemma parseComparison_eq:
  "parseComparison n p =
     pbind (parsePrimary n p) (\<lambda>left p1.
       if peek_keyword p1 ''IS'' then
         (let p2 = moved p1; neg = peek_keyword p2 ''NOT''; p3 = (if neg then moved p2 else p2)
          in pbind (expectKeyword ''NULL'' p3) (\<lambda>_ p4. pok (IsNullExpr left neg) p4))
       else if comparison_token (tok_Type (par_current p1)) then
         pbind (parsePrimary n (moved p1)) (\<lambda>right p2. pok (BinaryExpr left (tok_Value (par_current p1)) right) p2)
       else pok left p1)"
  unfolding parseComparison.simps advancing Let_def
  by (rule arg_cong [where f = "pbind (parsePrimary n p)"]) (intro ext, simp)

declare parsePrimary.simps [simp del] or_loop.simps [simp del] and_loop.simps [simp del]
  comma_list.simps [simp del] constraint_loop.simps [simp del]

section \<open>Enough fuel\<close>

text \<open>\<open>bounded b m\<close>: the call did not run out of fuel and did not panic, and if it succeeded, it left fewer than \<open>b\<close> bytes.\<close>

definition bounded :: "nat \<Rightarrow> 'a presult \<Rightarrow> bool" where
  "bounded b m \<longleftrightarrow> (\<exists>r. m = Some r \<and> r \<noteq> Panic \<and> (\<forall>x p'. r = Ok (x, p') \<longrightarrow> left p' < b))"

lemma left_advance: "left (moved p) \<le> left p" "tok_Type (par_current p) \<noteq> TOKEN_EOF \<Longrightarrow> left (moved p) < left p"
proof -
  obtain t l where n: "NextToken (par_lexer p) = Ok (t, l)" using NextToken_total by blast
  have c: "tok_Type t = TOKEN_EOF \<and> rest l = [] \<or> tok_Type t \<noteq> TOKEN_EOF \<and> length (rest l) < length (rest (par_lexer p))"
    using next_token_consumes [OF NextToken_rest(1) [OF n]] by auto
  show "tok_Type (par_current p) \<noteq> TOKEN_EOF \<Longrightarrow> left (moved p) < left p"
    using c n by (auto simp: left_def moved_def)
  show "left (moved p) \<le> left p" using c n by (auto simp: left_def moved_def)
qed

lemma left_advance_keyword: "peek_keyword p v \<Longrightarrow> left (moved p) < left p"
  by (rule left_advance) (simp add: peek_keyword_def)

lemma left_advance_is: "peek_is p ty \<Longrightarrow> ty \<noteq> TOKEN_EOF \<Longrightarrow> left (moved p) < left p"
  by (rule left_advance) (simp add: peek_is_def)

lemmas left_simps = left_advance_keyword left_advance_is left_advance

lemma bounded_pok [simp]: "bounded b (pok x p) \<longleftrightarrow> left p < b"
  by (simp add: bounded_def pok_def)

lemma bounded_perr [simp]: "bounded b (perr e)"
  by (simp add: bounded_def perr_def)

lemma parse_number_no_panic [simp]: "parse_number v \<noteq> Panic"
  by (simp add: parse_number_def split: option.split)

lemma bounded_pbind:
  assumes "bounded b m" and "\<And>x p'. left p' < b \<Longrightarrow> bounded c (f x p')"
  shows "bounded c (pbind m f)"
proof -
  obtain r where "m = Some r" using assms(1) by (auto simp: bounded_def)
  then show ?thesis using assms by (cases r) (auto simp: bounded_def)
qed

lemma bounded_mono: "bounded b m \<Longrightarrow> b \<le> c \<Longrightarrow> bounded c m"
  by (auto simp: bounded_def)

lemma bounded_expectKeyword: "bounded (left p) (expectKeyword v p)"
  by (simp add: expectKeyword_eq left_advance_keyword)

lemma bounded_expectToken: "ty \<noteq> TOKEN_EOF \<Longrightarrow> bounded (left p) (expectToken ty p)"
  by (simp add: expectToken_eq left_advance_is)

lemma left_skip_semicolon: "left (skipped p) \<le> left p"
  by (simp add: skipped_def left_advance)

lemma bounded_parseComparison:
  assumes "\<And>p. left p < n \<Longrightarrow> bounded (left p) (parsePrimary n p)" and "left p < n"
  shows "bounded (left p) (parseComparison n p)"
proof -
  have "bounded (left p) (let p2 = moved p1; neg = peek_keyword p2 ''NOT''; p3 = if neg then moved p2 else p2
           in pbind (expectKeyword ''NULL'' p3) (\<lambda>_ p4. pok (IsNullExpr l neg) p4))"
    if "left p1 < left p" for p1 l
    unfolding Let_def
    using that left_advance(1) [of p1] left_advance(1) [of "moved p1"]
    by (intro bounded_pbind [OF bounded_expectKeyword]) (auto split: if_splits)
  moreover have "bounded (left p) (pbind (parsePrimary n (moved p1)) (\<lambda>right p2. pok (f right) p2))"
    if "left p1 < left p" for p1 and f :: "expression \<Rightarrow> expression"
    using that left_advance(1) [of p1] assms(2) by (intro bounded_pbind [OF assms(1)]) auto
  ultimately show ?thesis
    unfolding parseComparison_eq using assms by (intro bounded_pbind [OF assms(1)]) auto
qed

lemma bounded_parseAndExpr:
  assumes "\<And>p. left p < n \<Longrightarrow> bounded (left p) (parseComparison n p)"
    and "\<And>e p. left p < n \<Longrightarrow> bounded (Suc (left p)) (and_loop n e p)" and "left p < n"
  shows "bounded (left p) (parseAndExpr n p)"
  using assms unfolding parseAndExpr.simps
  by (intro bounded_pbind [OF assms(1)]) (auto intro: bounded_mono [OF assms(2)])

lemma bounded_parseWhereExpr:
  assumes "\<And>p. left p < n \<Longrightarrow> bounded (left p) (parseAndExpr n p)"
    and "\<And>e p. left p < n \<Longrightarrow> bounded (Suc (left p)) (or_loop n e p)" and "left p < n"
  shows "bounded (left p) (parseWhereExpr n p)"
  using assms unfolding parseWhereExpr.simps
  by (intro bounded_pbind [OF assms(1)]) (auto intro: bounded_mono [OF assms(2)])

lemma bounded_and_loop:
  assumes "\<And>p. left p < n \<Longrightarrow> bounded (left p) (parseComparison n p)"
    and "\<And>e p. left p < n \<Longrightarrow> bounded (Suc (left p)) (and_loop n e p)" and "left p < Suc n"
  shows "bounded (Suc (left p)) (and_loop (Suc n) e p)"
proof (cases "peek_keyword p ''AND''")
  case True
  note l = left_advance_keyword [OF True]
  have "bounded (left (moved p)) (parseComparison n (moved p))" using l assms by simp
  then show ?thesis
    using True l assms(3) by (auto elim!: bounded_pbind intro!: bounded_mono [OF assms(2)])
qed simp

lemma bounded_or_loop:
  assumes "\<And>p. left p < n \<Longrightarrow> bounded (left p) (parseAndExpr n p)"
    and "\<And>e p. left p < n \<Longrightarrow> bounded (Suc (left p)) (or_loop n e p)" and "left p < Suc n"
  shows "bounded (Suc (left p)) (or_loop (Suc n) e p)"
proof (cases "peek_keyword p ''OR''")
  case True
  note l = left_advance_keyword [OF True]
  have "bounded (left (moved p)) (parseAndExpr n (moved p))" using l assms by simp
  then show ?thesis
    using True l assms(3) by (auto elim!: bounded_pbind intro!: bounded_mono [OF assms(2)])
qed simp

lemma bounded_parsePrimary_Suc:
  assumes "\<And>p. left p < n \<Longrightarrow> bounded (left p) (parseWhereExpr n p)" and "left p < Suc n"
  shows "bounded (left p) (parsePrimary (Suc n) p)"
proof -
  have l: "left (moved p) < left p" if "tok_Type (par_current p) \<noteq> TOKEN_EOF" using left_advance(2) [OF that] .
  have "bounded (left p) (pbind (parseWhereExpr n (moved p)) (\<lambda>expr p1.
             pbind (expectToken TOKEN_RPAREN p1) (\<lambda>_ p2. pok expr p2)))"
    if "tok_Type (par_current p) = TOKEN_LPAREN"
    using l that assms(2)
    by (intro bounded_pbind [OF assms(1)] bounded_pbind [OF bounded_expectToken]) auto
  then show ?thesis using l by (auto simp: Let_def split: token_type.split result.split)
qed

lemma bounded_expressions:
  "(\<forall>p. left p < n \<longrightarrow> bounded (left p) (parsePrimary n p)) \<and>
   (\<forall>p. left p < n \<longrightarrow> bounded (left p) (parseComparison n p)) \<and>
   (\<forall>e p. left p < n \<longrightarrow> bounded (Suc (left p)) (and_loop n e p)) \<and>
   (\<forall>p. left p < n \<longrightarrow> bounded (left p) (parseAndExpr n p)) \<and>
   (\<forall>e p. left p < n \<longrightarrow> bounded (Suc (left p)) (or_loop n e p)) \<and>
   (\<forall>p. left p < n \<longrightarrow> bounded (left p) (parseWhereExpr n p))"
proof (induction n)
  case 0
  show ?case by simp
next
  case (Suc n)
  have prim: "\<And>p. left p < Suc n \<Longrightarrow> bounded (left p) (parsePrimary (Suc n) p)"
    using Suc.IH by (intro bounded_parsePrimary_Suc) auto
  have cmp: "\<And>p. left p < Suc n \<Longrightarrow> bounded (left p) (parseComparison (Suc n) p)"
    using prim by (rule bounded_parseComparison)
  have andl: "\<And>e p. left p < Suc n \<Longrightarrow> bounded (Suc (left p)) (and_loop (Suc n) e p)"
    using Suc.IH by (intro bounded_and_loop) auto
  have ande: "\<And>p. left p < Suc n \<Longrightarrow> bounded (left p) (parseAndExpr (Suc n) p)"
    using cmp andl by (rule bounded_parseAndExpr)
  have orl: "\<And>e p. left p < Suc n \<Longrightarrow> bounded (Suc (left p)) (or_loop (Suc n) e p)"
    using Suc.IH by (intro bounded_or_loop) auto
  have "\<And>p. left p < Suc n \<Longrightarrow> bounded (left p) (parseWhereExpr (Suc n) p)"
    using ande orl by (rule bounded_parseWhereExpr)
  then show ?case using prim cmp andl ande orl by blast
qed

lemmas bounded_parsePrimary = bounded_expressions [THEN conjunct1, rule_format]
lemmas bounded_where = bounded_expressions [THEN conjunct2, THEN conjunct2, THEN conjunct2, THEN conjunct2, THEN conjunct2, rule_format]

lemma bounded_comma_list:
  assumes "\<And>p. left p < m \<Longrightarrow> bounded (left p) (item p)" and "left p < n" and "n \<le> m"
  shows "bounded (left p) (comma_list item n p acc)"
  using assms(2,3)
proof (induction n arbitrary: p acc)
  case (Suc n)
  have "bounded (left p) (comma_list item n (moved p1) (acc @ [x]))"
    if "peek_is p1 TOKEN_COMMA" "left p1 < left p" for p1 x
    using that left_advance_is [OF that(1)] Suc.prems
    by (intro bounded_mono [OF Suc.IH]) auto
  then show ?case
    using Suc.prems unfolding comma_list_eqs by (intro bounded_pbind [OF assms(1)]) auto
qed simp

lemma bounded_parse_ident: "bounded (left p) (parse_ident p)"
  unfolding parse_ident_def by (intro bounded_pbind [OF bounded_expectToken]) auto

lemma bounded_constraint_loop: "left p < n \<Longrightarrow> bounded (Suc (left p)) (constraint_loop n col p)"
proof (induction n arbitrary: p col)
  case (Suc n)
  have "bounded (Suc (left p)) (pbind (expectKeyword v (moved p)) (\<lambda>_ p1. constraint_loop n c p1))"
    if "left (moved p) < left p" for v c
    using that Suc.prems by (intro bounded_pbind [OF bounded_expectKeyword] bounded_mono [OF Suc.IH]) auto
  then show ?case using left_advance_keyword [of p] by auto
qed simp

lemma bounded_parseColumnSpec:
  assumes "left p < n" shows "bounded (left p) (parseColumnSpec n p)"
proof -
  have "bounded (left p) (constraint_loop n c (moved p1))" if "left p1 < left p" for c p1
    using that assms left_advance(1) [of p1] by (intro bounded_mono [OF bounded_constraint_loop]) auto
  then show ?thesis
    unfolding parseColumnSpec_eq by (intro bounded_pbind [OF bounded_expectToken]) (auto simp: Let_def)
qed

lemma bounded_parse_set_clause:
  assumes "left p < n" shows "bounded (left p) (parse_set_clause n p)"
  unfolding parse_set_clause_def using assms
  by (intro bounded_pbind [OF bounded_expectToken] bounded_pbind [OF bounded_parsePrimary]) auto

lemma bounded_parse_where:
  assumes "left p < n" shows "bounded (Suc (left p)) (parse_where n p)"
  unfolding parse_where_eq
  using assms left_advance(1) [of p] by (auto intro!: bounded_pbind [OF bounded_where])

lemmas bounded_steps =
  bounded_pbind [OF bounded_expectKeyword] bounded_pbind [OF bounded_expectToken]
  bounded_pbind [OF bounded_comma_list [OF bounded_parseColumnSpec]]
  bounded_pbind [OF bounded_comma_list [OF bounded_parse_set_clause]]
  bounded_pbind [OF bounded_comma_list [OF bounded_parsePrimary]]
  bounded_pbind [OF bounded_parse_where]

lemma bounded_pok_skip: "left p < b \<Longrightarrow> bounded b (pok x (skipped p))"
  using left_skip_semicolon [of p] by simp

lemma bounded_ident_list:
  assumes "left p < n"
  shows "bounded (left p) (comma_list parse_ident n p acc)"
  using assms by (intro bounded_comma_list [where m = n]) (auto intro: bounded_parse_ident)

lemma bounded_parseCreateTable: "left p < n \<Longrightarrow> bounded (left p) (parseCreateTable n p)"
  unfolding parseCreateTable_eq by (intro bounded_steps bounded_pok_skip) auto

lemma bounded_parseDropTable: "bounded (left p) (parseDropTable p)"
proof -
  have "bounded (left p) (if peek_keyword p2 ''IF'' then pbind (expectKeyword ''EXISTS'' (moved p2)) (\<lambda>_ p3. pok True p3) else pok False p2)"
    if "left p2 < left p" for p2
    using that left_advance(1) [of p2] by (auto intro!: bounded_steps(1))
  then show ?thesis
    unfolding parseDropTable_eq
    by (intro bounded_steps(1) bounded_pbind [where b = "left p"] bounded_steps(2) bounded_pok_skip) auto
qed

lemma bounded_parseInsert:
  assumes "left p < n" shows "bounded (left p) (parseInsert n p)"
proof -
  have "bounded (left p) (if peek_is p3 TOKEN_LPAREN
            then pbind (comma_list parse_ident n (moved p3) []) (\<lambda>columns p4.
                 pbind (expectToken TOKEN_RPAREN p4) (\<lambda>_ p5. pok columns p5))
            else pok [] p3)"
    if "left p3 < left p" for p3
    using that assms left_advance(1) [of p3] by (auto intro!: bounded_pbind [OF bounded_ident_list] bounded_steps(2))
  then show ?thesis
    unfolding parseInsert_eq using assms
    by (intro bounded_steps(1,2) bounded_pbind [where b = "left p"] bounded_steps(5) bounded_pok_skip) auto
qed

lemma bounded_parseSelect:
  assumes "left p < n" shows "bounded (left p) (parseSelect n p)"
proof -
  have "bounded (left p) (if peek_is p1 TOKEN_ASTERISK then pok [''*''] (moved p1) else comma_list parse_ident n p1 [])"
    if "left p1 < left p" for p1
    using that assms left_advance(1) [of p1] by (auto intro!: bounded_mono [OF bounded_ident_list])
  then show ?thesis
    unfolding parseSelect_eq using assms
    by (intro bounded_steps(1,2) bounded_pbind [where b = "left p"] bounded_steps(6) bounded_pok_skip) auto
qed

lemma bounded_parseUpdate: "left p < n \<Longrightarrow> bounded (left p) (parseUpdate n p)"
  unfolding parseUpdate_eq by (intro bounded_steps bounded_pok_skip) auto

lemma bounded_parseDelete: "left p < n \<Longrightarrow> bounded (left p) (parseDelete n p)"
  unfolding parseDelete_eq by (intro bounded_steps bounded_pok_skip) auto

lemma bounded_Parse_fuel: "left p < n \<Longrightarrow> bounded (left p) (Parse_fuel n p)"
  unfolding Parse_fuel_def parseBegin_eq parseCommit_eq parseRollback_eq
  by (auto intro!: bounded_parseCreateTable bounded_parseDropTable bounded_parseInsert bounded_parseSelect
        bounded_parseUpdate bounded_parseDelete bounded_steps(1) bounded_pok_skip)

lemma parse_sql_total: "\<exists>r. parse_sql sql = Some r \<and> r \<noteq> Panic"
proof -
  obtain r where "Parse_fuel (Suc (left (new_parser sql))) (new_parser sql) = Some r" "r \<noteq> Panic"
    using bounded_Parse_fuel [of "new_parser sql" "Suc (left (new_parser sql))"] by (auto simp: bounded_def)
  then show ?thesis by (cases r) (auto simp: parse_sql_eq Let_def)
qed

section \<open>Properties\<close>

text \<open>C20. Parsing terminates on every input without a panic: with one unit of fuel more than the bytes the lexer can still consume, the recursive descent never runs out, whatever the nesting of parentheses and the length of the lists, and \<open>Parse\<close> returns a statement or an error; the lexer, whose indices and slices panic outside the input, stays inside it at every step.\<close>

theorem parser_total: "\<exists>r. parse_sql sql = Some r \<and> r \<noteq> Panic"
  by (rule parse_sql_total)

end
