(* ===== verification/SqlPrint.thy ===== *)
theory SqlPrint
  imports SqlParser
begin

text \<open>
  A printer of SQL statements and the proof that the parser of \<open>internal/parser/parser.go\<close> reads
  its text back. The printer puts parentheses only where the grammar needs them, so the round trip
  pins down the precedence of \<open>OR\<close>, \<open>AND\<close> and the comparisons and that chains associate to the left.
\<close>

section \<open>The tokens ahead of a parser\<close>

definition toks :: "parser \<Rightarrow> token list" where
  "toks p = (if tok_Type (par_current p) = TOKEN_EOF then [] else par_current p # tokens (rest (par_lexer p)))"

lemma toks_Cons: "toks p = t # ts \<Longrightarrow> par_current p = t \<and> tok_Type t \<noteq> TOKEN_EOF \<and> toks (moved p) = ts"
proof -
  assume a: "toks p = t # ts"
  obtain t' l where n: "NextToken (par_lexer p) = Ok (t', l)" using NextToken_total by blast
  have "tokens (rest (par_lexer p)) = toks (moved p)"
    using NextToken_rest(1) [OF n] n by (simp add: toks_def moved_def tokens.simps [of "rest (par_lexer p)"])
  then show ?thesis using a by (auto simp: toks_def split: if_splits)
qed

lemma toks_Nil: "toks p = [] \<Longrightarrow> tok_Type (par_current p) = TOKEN_EOF"
  by (simp add: toks_def split: if_splits)

lemma toks_NewParser: "toks (new_parser sql) = tokens sql"
proof -
  obtain t l where n: "NextToken (NewLexer sql) = Ok (t, l)" using NextToken_total by blast
  have "next_token sql = (t, rest l)" using NextToken_rest(1) [OF n] by (simp add: rest_def NewLexer_def)
  then show ?thesis by (simp add: new_parser_def moved_def toks_def n tokens.simps [of sql])
qed

definition tok_is :: "token list \<Rightarrow> token_type \<Rightarrow> bool" where
  "tok_is ts ty \<longleftrightarrow> (case ts of [] \<Rightarrow> ty = TOKEN_EOF | t # _ \<Rightarrow> tok_Type t = ty)"

definition kw :: "string \<Rightarrow> token" where "kw v = mk_token TOKEN_KEYWORD v"
definition id_tok :: "string \<Rightarrow> token" where "id_tok v = mk_token TOKEN_IDENT v"
definition lparen :: token where "lparen = mk_token TOKEN_LPAREN ''(''"
definition rparen :: token where "rparen = mk_token TOKEN_RPAREN '')''"
definition comma :: token where "comma = mk_token TOKEN_COMMA '',''"

lemmas token_defs = kw_def id_tok_def lparen_def rparen_def comma_def mk_token_def

lemma peek_is_toks: "toks p = ts \<Longrightarrow> peek_is p ty \<longleftrightarrow> tok_is ts ty"
  by (cases ts) (auto simp: peek_is_def tok_is_def dest!: toks_Nil toks_Cons)

lemma peek_keyword_toks: "toks p = ts \<Longrightarrow> peek_keyword p v \<longleftrightarrow> ts \<noteq> [] \<and> hd ts = kw v"
  by (cases ts) (auto simp: peek_keyword_def token_defs dest!: toks_Nil toks_Cons)

text \<open>\<open>parsed m x ts p\<close>: the call succeeded with \<open>x\<close>, with the tokens \<open>ts\<close> ahead and fewer bytes left than \<open>p\<close>.\<close>

definition parsed :: "'a presult \<Rightarrow> 'a \<Rightarrow> token list \<Rightarrow> nat \<Rightarrow> bool" where
  "parsed m x ts b \<longleftrightarrow> (\<exists>p'. m = pok x p' \<and> toks p' = ts \<and> left p' < b)"

lemma parsed_pbind:
  assumes "parsed m x ts b" and "\<And>p'. toks p' = ts \<Longrightarrow> left p' < b \<Longrightarrow> parsed (f x p') y us c"
  shows "parsed (pbind m f) y us c"
  using assms by (auto simp: parsed_def pok_def)

lemma parsed_pok [simp]: "parsed (pok x p) y ts b \<longleftrightarrow> x = y \<and> toks p = ts \<and> left p < b"
  by (auto simp: parsed_def pok_def)

lemma parsed_mono: "parsed m x ts b \<Longrightarrow> b \<le> c \<Longrightarrow> parsed m x ts c"
  by (fastforce simp: parsed_def)

lemma parsed_expectKeyword: "toks p = kw v # ts \<Longrightarrow> parsed (expectKeyword v p) () ts (left p)"
  using toks_Cons [of p] left_advance(2) [of p] by (auto simp: expectKeyword_eq peek_keyword_toks)

lemma parsed_expectToken: "toks p = t # ts \<Longrightarrow> tok_Type t = ty \<Longrightarrow> parsed (expectToken ty p) t ts (left p)"
  using toks_Cons [of p] left_advance(2) [of p] by (auto simp: expectToken_eq peek_is_toks tok_is_def)

section \<open>Printing expressions\<close>

definition op_type :: "string \<Rightarrow> token_type option" where
  "op_type = map_of [(''='', TOKEN_EQ), (''!='', TOKEN_NEQ), (''<>'', TOKEN_NEQ), (''<'', TOKEN_LT), (''>'', TOKEN_GT),
     (''<='', TOKEN_LTE), (''>='', TOKEN_GTE)]"

definition op_token :: "string \<Rightarrow> token" where
  "op_token op = (case op_type op of Some ty \<Rightarrow> mk_token ty op | None \<Rightarrow> kw op)"

text \<open>
  Binding strength: 0 for \<open>OR\<close>, 1 for \<open>AND\<close>, 2 for comparisons and \<open>IS NULL\<close>, 3 for the primaries;
  the operands of \<open>OR\<close> and \<open>AND\<close> associate to the left.
\<close>

definition op_level :: "string \<Rightarrow> nat" where
  "op_level op = (if op = ''OR'' then 0 else if op = ''AND'' then 1 else 2)"

definition left_level :: "string \<Rightarrow> nat" where
  "left_level op = (if op = ''OR'' then 0 else if op = ''AND'' then 1 else 3)"

definition right_level :: "string \<Rightarrow> nat" where
  "right_level op = (if op = ''OR'' then 1 else if op = ''AND'' then 2 else 3)"

definition paren :: "bool \<Rightarrow> token list \<Rightarrow> token list" where
  "paren b ts = (if b then [lparen] @ ts @ [rparen] else ts)"

fun expr_tokens :: "nat \<Rightarrow> expression \<Rightarrow> token list" where
  "expr_tokens k (ColumnRef c) = [id_tok c]"
| "expr_tokens k (BinaryExpr l op r) =
     paren (op_level op < k) (expr_tokens (left_level op) l @ [op_token op] @ expr_tokens (right_level op) r)"
| "expr_tokens k (IsNullExpr e neg) =
     paren (2 < k) (expr_tokens 3 e @ [kw ''IS''] @ (if neg then [kw ''NOT''] else []) @ [kw ''NULL''])"
| "expr_tokens k (IntegerLiteral i) = [mk_token TOKEN_NUMBER (FormatInt (sint i))]"
| "expr_tokens k (StringLiteral s) = [mk_token TOKEN_STRING s]"
| "expr_tokens k (BoolLiteral b) = [kw (if b then ''TRUE'' else ''FALSE'')]"
| "expr_tokens k NullLiteral = [kw ''NULL'']"
| "expr_tokens k (FloatLiteral f) = []"

text \<open>The expressions that have a text: no negative integers and no floats, no quotes in strings.\<close>

fun expr_printable :: "expression \<Rightarrow> bool" where
  "expr_printable (ColumnRef c) \<longleftrightarrow> ident_ok c"
| "expr_printable (BinaryExpr l op r) \<longleftrightarrow>
     expr_printable l \<and> (op \<in> {''OR'', ''AND''} \<or> op_type op \<noteq> None) \<and> expr_printable r"
| "expr_printable (IsNullExpr e neg) \<longleftrightarrow> expr_printable e"
| "expr_printable (IntegerLiteral i) \<longleftrightarrow> 0 \<le> sint i"
| "expr_printable (StringLiteral s) \<longleftrightarrow> list_all (\<lambda>ch. \<not> quote_char ch) s"
| "expr_printable (BoolLiteral b) \<longleftrightarrow> True"
| "expr_printable NullLiteral \<longleftrightarrow> True"
| "expr_printable (FloatLiteral f) \<longleftrightarrow> False"

section \<open>Parsing printed expressions\<close>

text \<open>The tokens after which a comparison, a conjunction and a disjunction end.\<close>

definition ends_comparison :: "token list \<Rightarrow> bool" where
  "ends_comparison ts \<longleftrightarrow> ts = [] \<or> hd ts \<noteq> kw ''IS'' \<and> \<not> comparison_token (tok_Type (hd ts))"

definition ends_and :: "token list \<Rightarrow> bool" where
  "ends_and ts \<longleftrightarrow> ends_comparison ts \<and> (ts = [] \<or> hd ts \<noteq> kw ''AND'')"

definition ends_or :: "token list \<Rightarrow> bool" where
  "ends_or ts \<longleftrightarrow> ends_and ts \<and> (ts = [] \<or> hd ts \<noteq> kw ''OR'')"

definition reads_primary :: "expression \<Rightarrow> bool" where
  "reads_primary e \<longleftrightarrow> (\<forall>n p ts. left p < n \<longrightarrow> toks p = expr_tokens 3 e @ ts \<longrightarrow> parsed (parsePrimary n p) e ts (left p))"

definition reads_comparison :: "expression \<Rightarrow> bool" where
  "reads_comparison e \<longleftrightarrow>
     (\<forall>n p ts. left p < n \<longrightarrow> toks p = expr_tokens 2 e @ ts \<longrightarrow> ends_comparison ts \<longrightarrow> parsed (parseComparison n p) e ts (left p))"

definition reads_and :: "expression \<Rightarrow> bool" where
  "reads_and e \<longleftrightarrow>
     (\<forall>n p ts. left p < n \<longrightarrow> toks p = expr_tokens 1 e @ ts \<longrightarrow> ends_comparison ts \<longrightarrow>
        (\<exists>m p'. parseAndExpr n p = and_loop m e p' \<and> toks p' = ts \<and> left p' < m \<and> left p' < left p))"

definition reads_or :: "expression \<Rightarrow> bool" where
  "reads_or e \<longleftrightarrow>
     (\<forall>n p ts. left p < n \<longrightarrow> toks p = expr_tokens 0 e @ ts \<longrightarrow> ends_and ts \<longrightarrow>
        (\<exists>m p'. parseWhereExpr n p = or_loop m e p' \<and> toks p' = ts \<and> left p' < m \<and> left p' < left p))"

definition reads_where :: "expression \<Rightarrow> bool" where
  "reads_where e \<longleftrightarrow>
     (\<forall>n p ts. left p < n \<longrightarrow> toks p = expr_tokens 0 e @ ts \<longrightarrow> ends_or ts \<longrightarrow> parsed (parseWhereExpr n p) e ts (left p))"

lemma ends_comparison_peek:
  assumes "toks p = ts" "ends_comparison ts"
  shows "\<not> peek_keyword p ''IS''" "\<not> comparison_token (tok_Type (par_current p))"
  using assms toks_Nil [of p] toks_Cons [of p]
  by (cases ts; auto simp: ends_comparison_def peek_keyword_toks comparison_token_def)+

lemma reads_comparison_primary:
  assumes "reads_primary e" and "expr_tokens 2 e = expr_tokens 3 e"
  shows "reads_comparison e"
  unfolding reads_comparison_def
proof (intro allI impI)
  fix n p ts assume "left p < n" "toks p = expr_tokens 2 e @ ts" "ends_comparison ts"
  then show "parsed (parseComparison n p) e ts (left p)"
    using assms ends_comparison_peek [of _ ts] unfolding parseComparison_eq reads_primary_def
    by (intro parsed_pbind [where x = e and ts = ts and b = "left p"]) auto
qed

lemma reads_and_comparison:
  assumes "reads_comparison e" and "expr_tokens 1 e = expr_tokens 2 e"
  shows "reads_and e"
  unfolding reads_and_def
proof (intro allI impI)
  fix n p ts assume a: "left p < n" "toks p = expr_tokens 1 e @ ts" "ends_comparison ts"
  then have "parsed (parseComparison n p) e ts (left p)" using assms by (simp add: reads_comparison_def)
  then obtain p' where "parseComparison n p = pok e p'" "toks p' = ts" "left p' < left p" by (auto simp: parsed_def)
  then show "\<exists>m p'. parseAndExpr n p = and_loop m e p' \<and> toks p' = ts \<and> left p' < m \<and> left p' < left p"
    using a(1) by (intro exI [of _ n] exI [of _ p']) (simp add: parseAndExpr.simps pok_def)
qed

lemma and_loop_ends: "left p < m \<Longrightarrow> toks p = ts \<Longrightarrow> ends_and ts \<Longrightarrow> and_loop m e p = pok e p"
  by (cases m) (auto simp: ends_and_def peek_keyword_toks)

lemma or_loop_ends: "left p < m \<Longrightarrow> toks p = ts \<Longrightarrow> ends_or ts \<Longrightarrow> or_loop m e p = pok e p"
  by (cases m) (auto simp: ends_or_def peek_keyword_toks)

lemma reads_and_ends:
  assumes "reads_and e" "left p < n" "toks p = expr_tokens 1 e @ ts" "ends_and ts"
  shows "parsed (parseAndExpr n p) e ts (left p)"
proof -
  have "ends_comparison ts" using assms(4) by (simp add: ends_and_def)
  then obtain m p' where "parseAndExpr n p = and_loop m e p'" "toks p' = ts" "left p' < m" "left p' < left p"
    using assms(1-3) unfolding reads_and_def by blast
  then show ?thesis using and_loop_ends assms(4) by simp
qed

lemma reads_or_and:
  assumes "reads_and e" and "expr_tokens 0 e = expr_tokens 1 e"
  shows "reads_or e"
  unfolding reads_or_def
proof (intro allI impI)
  fix n p ts assume a: "left p < n" "toks p = expr_tokens 0 e @ ts" "ends_and ts"
  then have "parsed (parseAndExpr n p) e ts (left p)" using assms reads_and_ends by simp
  then obtain p' where "parseAndExpr n p = pok e p'" "toks p' = ts" "left p' < left p" by (auto simp: parsed_def)
  then show "\<exists>m p'. parseWhereExpr n p = or_loop m e p' \<and> toks p' = ts \<and> left p' < m \<and> left p' < left p"
    using a(1) by (intro exI [of _ n] exI [of _ p']) (simp add: parseWhereExpr.simps pok_def)
qed

lemma reads_where_or:
  assumes "reads_or e" shows "reads_where e"
  unfolding reads_where_def
proof (intro allI impI)
  fix n p ts assume a: "left p < n" "toks p = expr_tokens 0 e @ ts" "ends_or ts"
  then have "ends_and ts" by (simp add: ends_or_def)
  then obtain m p' where "parseWhereExpr n p = or_loop m e p'" "toks p' = ts" "left p' < m" "left p' < left p"
    using assms a unfolding reads_or_def by blast
  then show "parsed (parseWhereExpr n p) e ts (left p)" using or_loop_ends a(3) by simp
qed

lemma ends_or_rparen: "ends_or (rparen # ts)"
  by (simp add: ends_or_def ends_and_def ends_comparison_def comparison_token_def token_defs)

lemma reads_primary_where:
  assumes "reads_where e" and "expr_tokens 3 e = [lparen] @ expr_tokens 0 e @ [rparen]"
  shows "reads_primary e"
  unfolding reads_primary_def
proof (intro allI impI)
  fix n p ts assume a: "left p < n" "toks p = expr_tokens 3 e @ ts"
  then have c: "par_current p = lparen" "toks (moved p) = expr_tokens 0 e @ rparen # ts"
    using toks_Cons [of p lparen] assms(2) by auto
  then have l: "left (moved p) < left p" using left_advance(2) [of p] by (simp add: token_defs)
  obtain m where n: "n = Suc m" using a(1) by (cases n) auto
  have w: "parsed (parseWhereExpr m (moved p)) e (rparen # ts) (left (moved p))"
    using assms(1) l a(1) n c(2) ends_or_rparen unfolding reads_where_def by auto
  have "parsed (pbind (parseWhereExpr m (moved p)) (\<lambda>expr p1.
             pbind (expectToken TOKEN_RPAREN p1) (\<lambda>_ p2. pok expr p2))) e ts (left p)"
    using l by (intro parsed_pbind [OF w] parsed_pbind [OF parsed_expectToken [where t = rparen and ts = ts]])
      (auto simp: token_defs)
  then show "parsed (parsePrimary n p) e ts (left p)" using c(1) n by (simp add: token_defs Let_def)
qed

lemma reads_primary_token:
  assumes "expr_tokens 3 e = [t]"
    and "\<And>n p. par_current p = t \<Longrightarrow> parsePrimary (Suc n) p = pok e (moved p)"
  shows "reads_primary e"
  unfolding reads_primary_def
proof (intro allI impI)
  fix n p ts assume a: "left p < n" "toks p = expr_tokens 3 e @ ts"
  obtain m where n: "n = Suc m" using a(1) by (cases n) auto
  have "par_current p = t" "toks (moved p) = ts" "tok_Type t \<noteq> TOKEN_EOF"
    using toks_Cons [of p t ts] a(2) assms(1) by auto
  then show "parsed (parsePrimary n p) e ts (left p)"
    unfolding n using assms(2) left_advance(2) [of p] by simp
qed

lemma isDigit_digit_char: "d < 10 \<Longrightarrow> isDigit (digit_char d)"
  by (simp add: isDigit_def digit_char_def Let_def)

lemma nat_digits_isDigit: "list_all isDigit (nat_digits n)"
  by (induction n rule: nat_digits.induct) (subst nat_digits.simps, simp add: isDigit_digit_char)

lemma parse_number_FormatInt: "0 \<le> sint i \<Longrightarrow> parse_number (FormatInt (sint (i :: u64))) = Ok (IntegerLiteral i)"
proof -
  assume i: "0 \<le> sint i"
  have "list_all isDigit (FormatInt (sint i))" using i nat_digits_isDigit by (simp add: FormatInt_def)
  then have "CHR ''.'' \<notin> set (FormatInt (sint i))" by (auto simp: list_all_iff isDigit_def)
  moreover have "ParseInt 64 (FormatInt (sint i)) = Some (sint i)"
    using sint_greater_eq [of i] sint_less [of i] by (intro ParseInt_FormatInt) auto
  ultimately show ?thesis by (simp add: parse_number_def)
qed

lemma reads_literals:
  "reads_primary (ColumnRef c)" "reads_primary (StringLiteral s)" "reads_primary (BoolLiteral b)" "reads_primary NullLiteral"
  "0 \<le> sint i \<Longrightarrow> reads_primary (IntegerLiteral i)"
  by (rule reads_primary_token, rule expr_tokens.simps, simp add: token_defs Let_def parse_number_FormatInt)+

lemma reads_primaryD:
  "reads_primary e \<Longrightarrow> left p < n \<Longrightarrow> toks p = expr_tokens 3 e @ ts \<Longrightarrow> parsed (parsePrimary n p) e ts (left p)"
  by (simp add: reads_primary_def)

lemma op_token_comparison:
  assumes "op_type op = Some ty"
  shows "op_token op = mk_token ty op" "comparison_token ty" "op_level op = 2" "left_level op = 3" "right_level op = 3"
  using assms by (auto simp: op_token_def op_type_def comparison_token_def op_level_def left_level_def right_level_def split: if_splits)

lemma reads_comparison_op:
  assumes "reads_primary l" "reads_primary r" "op_type op = Some ty"
  shows "reads_comparison (BinaryExpr l op r)"
  unfolding reads_comparison_def
proof (intro allI impI)
  fix n p ts assume a: "left p < n" "toks p = expr_tokens 2 (BinaryExpr l op r) @ ts" "ends_comparison ts"
  note o = op_token_comparison [OF assms(3)]
  let ?ts = "mk_token ty op # expr_tokens 3 r @ ts"
  have l: "parsed (parsePrimary n p) l ?ts (left p)"
    using a o by (intro reads_primaryD [OF assms(1)]) (simp_all add: paren_def)
  show "parsed (parseComparison n p) (BinaryExpr l op r) ts (left p)"
    unfolding parseComparison_eq
  proof (rule parsed_pbind [OF l])
    fix p1 assume p1: "toks p1 = ?ts" "left p1 < left p"
    then have c: "par_current p1 = mk_token ty op" "toks (moved p1) = expr_tokens 3 r @ ts" "\<not> peek_keyword p1 ''IS''"
      using toks_Cons [OF p1(1)] o(2) by (auto simp: peek_keyword_def comparison_token_def mk_token_def)
    have r: "parsed (parsePrimary n (moved p1)) r ts (left (moved p1))"
      using a(1) p1(2) left_advance(1) [of p1] by (intro reads_primaryD [OF assms(2) _ c(2)]) auto
    show "parsed (if peek_keyword p1 ''IS'' then
         (let p2 = moved p1; neg = peek_keyword p2 ''NOT''; p3 = (if neg then moved p2 else p2)
          in pbind (expectKeyword ''NULL'' p3) (\<lambda>_ p4. pok (IsNullExpr l neg) p4))
       else if comparison_token (tok_Type (par_current p1)) then
         pbind (parsePrimary n (moved p1)) (\<lambda>right p2. pok (BinaryExpr l (tok_Value (par_current p1)) right) p2)
       else pok l p1) (BinaryExpr l op r) ts (left p)"
      using c o(2) p1(2) left_advance(1) [of p1] by (auto simp: mk_token_def intro!: parsed_pbind [OF r])
  qed
qed

lemma reads_comparison_null:
  assumes "reads_primary l"
  shows "reads_comparison (IsNullExpr l neg)"
  unfolding reads_comparison_def
proof (intro allI impI)
  fix n p ts assume a: "left p < n" "toks p = expr_tokens 2 (IsNullExpr l neg) @ ts" "ends_comparison ts"
  let ?us = "(if neg then [kw ''NOT''] else []) @ kw ''NULL'' # ts"
  have l: "parsed (parsePrimary n p) l (kw ''IS'' # ?us) (left p)"
    using a by (intro reads_primaryD [OF assms]) (simp_all add: paren_def)
  show "parsed (parseComparison n p) (IsNullExpr l neg) ts (left p)"
    unfolding parseComparison_eq
  proof (rule parsed_pbind [OF l])
    fix p1 assume p1: "toks p1 = kw ''IS'' # ?us" "left p1 < left p"
    let ?p2 = "moved p1" let ?p3 = "if peek_keyword ?p2 ''NOT'' then moved ?p2 else ?p2"
    have t2: "toks ?p2 = ?us" using toks_Cons [OF p1(1)] by simp
    then have neg: "peek_keyword ?p2 ''NOT'' = neg" by (auto simp: peek_keyword_toks token_defs)
    then have "toks ?p3 = kw ''NULL'' # ts" using t2 toks_Cons [of ?p2] by auto
    note null = parsed_expectKeyword [OF this]
    have "left ?p3 < left p" using p1(2) left_advance(1) [of p1] left_advance(1) [of ?p2] by auto
    then have "parsed (pbind (expectKeyword ''NULL'' ?p3) (\<lambda>_ p4. pok (IsNullExpr l neg) p4)) (IsNullExpr l neg) ts (left p)"
      by (intro parsed_pbind [OF null]) simp
    then show "parsed (if peek_keyword p1 ''IS'' then
         (let p2 = moved p1; neg = peek_keyword p2 ''NOT''; p3 = (if neg then moved p2 else p2)
          in pbind (expectKeyword ''NULL'' p3) (\<lambda>_ p4. pok (IsNullExpr l neg) p4))
       else if comparison_token (tok_Type (par_current p1)) then
         pbind (parsePrimary n (moved p1)) (\<lambda>right p2. pok (BinaryExpr l (tok_Value (par_current p1)) right) p2)
       else pok l p1) (IsNullExpr l neg) ts (left p)"
      by (simp add: Let_def neg peek_keyword_toks [OF p1(1)])
  qed
qed

lemma ends_comparison_kw: "v \<noteq> ''IS'' \<Longrightarrow> ends_comparison (kw v # ts)"
  by (simp add: ends_comparison_def comparison_token_def token_defs)

lemma reads_and_AND:
  assumes "reads_and l" "reads_comparison r"
  shows "reads_and (BinaryExpr l ''AND'' r)"
  unfolding reads_and_def
proof (intro allI impI)
  fix n p ts assume a: "left p < n" "toks p = expr_tokens 1 (BinaryExpr l ''AND'' r) @ ts" "ends_comparison ts"
  let ?ts = "kw ''AND'' # expr_tokens 2 r @ ts"
  have "toks p = expr_tokens 1 l @ ?ts"
    using a(2) by (simp add: paren_def op_level_def left_level_def right_level_def op_token_def op_type_def)
  then obtain m p1 where l: "parseAndExpr n p = and_loop m l p1" "toks p1 = ?ts" "left p1 < m" "left p1 < left p"
    using assms(1) a(1) ends_comparison_kw [of "''AND''"] unfolding reads_and_def by blast
  obtain k where m: "m = Suc k" using l(3) by (cases m) auto
  have "toks (moved p1) = expr_tokens 2 r @ ts" and la: "left (moved p1) < left p1"
    using toks_Cons [OF l(2)] left_advance(2) [of p1] by (auto simp: token_defs)
  then have "parsed (parseComparison k (moved p1)) r ts (left (moved p1))"
    using assms(2) a(3) l(3) m unfolding reads_comparison_def by auto
  then obtain p2 where "parseComparison k (moved p1) = pok r p2" "toks p2 = ts" "left p2 < left (moved p1)"
    by (auto simp: parsed_def)
  then show "\<exists>m p'. parseAndExpr n p = and_loop m (BinaryExpr l ''AND'' r) p' \<and> toks p' = ts \<and> left p' < m \<and> left p' < left p"
    using l m la by (intro exI [of _ k] exI [of _ p2]) (auto simp: peek_keyword_toks pok_def)
qed

lemma reads_or_OR:
  assumes "reads_or l" "reads_and r"
  shows "reads_or (BinaryExpr l ''OR'' r)"
  unfolding reads_or_def
proof (intro allI impI)
  fix n p ts assume a: "left p < n" "toks p = expr_tokens 0 (BinaryExpr l ''OR'' r) @ ts" "ends_and ts"
  let ?ts = "kw ''OR'' # expr_tokens 1 r @ ts"
  have "toks p = expr_tokens 0 l @ ?ts"
    using a(2) by (simp add: paren_def op_level_def left_level_def right_level_def op_token_def op_type_def)
  moreover have "ends_and ?ts" using ends_comparison_kw [of "''OR''"] by (simp add: ends_and_def token_defs)
  ultimately obtain m p1 where l: "parseWhereExpr n p = or_loop m l p1" "toks p1 = ?ts" "left p1 < m" "left p1 < left p"
    using assms(1) a(1) unfolding reads_or_def by blast
  obtain k where m: "m = Suc k" using l(3) by (cases m) auto
  have "toks (moved p1) = expr_tokens 1 r @ ts" and la: "left (moved p1) < left p1"
    using toks_Cons [OF l(2)] left_advance(2) [of p1] by (auto simp: token_defs)
  then have "parsed (parseAndExpr k (moved p1)) r ts (left (moved p1))"
    using reads_and_ends [OF assms(2)] a(3) l(3) m by auto
  then obtain p2 where "parseAndExpr k (moved p1) = pok r p2" "toks p2 = ts" "left p2 < left (moved p1)"
    by (auto simp: parsed_def)
  then show "\<exists>m p'. parseWhereExpr n p = or_loop m (BinaryExpr l ''OR'' r) p' \<and> toks p' = ts \<and> left p' < m \<and> left p' < left p"
    using l m la by (intro exI [of _ k] exI [of _ p2]) (auto simp: peek_keyword_toks pok_def)
qed

definition reads_all :: "expression \<Rightarrow> bool" where
  "reads_all e \<longleftrightarrow> reads_primary e \<and> reads_comparison e \<and> reads_and e \<and> reads_or e \<and> reads_where e"

lemma reads_all_primary:
  assumes "reads_primary e" "\<And>k. expr_tokens k e = expr_tokens 3 e"
  shows "reads_all e"
proof -
  have c: "reads_comparison e" using assms by (intro reads_comparison_primary) simp_all
  then have a: "reads_and e" by (rule reads_and_comparison) (metis assms(2))
  then have "reads_or e" by (rule reads_or_and) (metis assms(2))
  then show ?thesis using assms(1) c a by (simp add: reads_all_def reads_where_or)
qed

lemma reads_all_comparison:
  assumes "reads_comparison e" "expr_tokens 1 e = expr_tokens 2 e" "expr_tokens 0 e = expr_tokens 1 e"
    "expr_tokens 3 e = [lparen] @ expr_tokens 0 e @ [rparen]"
  shows "reads_all e"
  unfolding reads_all_def
  using assms by (meson reads_primary_where reads_and_comparison reads_or_and reads_where_or)

lemma reads_all_printable: "expr_printable e \<Longrightarrow> reads_all e"
proof (induction e)
  case (BinaryExpr l op r)
  then have l: "reads_all l" and r: "reads_all r" by simp_all
  consider "op = ''OR''" | "op = ''AND''" | ty where "op_type op = Some ty" using BinaryExpr.prems by auto
  then show ?case
  proof cases
    case 1
    have or: "reads_or (BinaryExpr l op r)" using reads_or_OR l r by (simp add: 1 reads_all_def)
    have "reads_primary (BinaryExpr l op r)"
      by (rule reads_primary_where [OF reads_where_or [OF or]]) (simp add: 1 paren_def op_level_def)
    then show ?thesis
      using or by (auto simp: reads_all_def 1 paren_def op_level_def intro!: reads_comparison_primary reads_and_comparison reads_where_or)
  next
    case 2
    have nd: "reads_and (BinaryExpr l op r)" using reads_and_AND l r by (simp add: 2 reads_all_def)
    have or: "reads_or (BinaryExpr l op r)" by (rule reads_or_and [OF nd]) (simp add: 2 paren_def op_level_def)
    have "reads_primary (BinaryExpr l op r)"
      by (rule reads_primary_where [OF reads_where_or [OF or]]) (simp add: 2 paren_def op_level_def)
    then show ?thesis
      using or nd by (auto simp: reads_all_def 2 paren_def op_level_def intro!: reads_comparison_primary reads_where_or)
  next
    case 3
    then show ?thesis
      using reads_comparison_op l r by (intro reads_all_comparison) (auto simp: reads_all_def paren_def op_token_comparison)
  qed
next
  case (IsNullExpr e neg)
  then show ?case using reads_comparison_null by (intro reads_all_comparison) (auto simp: reads_all_def paren_def)
qed (auto intro: reads_all_primary reads_literals)

lemma reads_printable:
  "expr_printable e \<Longrightarrow> reads_primary e" "expr_printable e \<Longrightarrow> reads_where e"
  using reads_all_printable by (simp_all add: reads_all_def)

section \<open>Printing statements\<close>

fun sep_by_comma :: "token list list \<Rightarrow> token list" where
  "sep_by_comma [] = []"
| "sep_by_comma [ts] = ts"
| "sep_by_comma (ts # us # tss) = ts @ [comma] @ sep_by_comma (us # tss)"

definition constraint_tokens :: "column_spec \<Rightarrow> token list" where
  "constraint_tokens c =
     (if spec_PrimaryKey c then [kw ''PRIMARY'', kw ''KEY'']
      else if spec_NotNull c then [kw ''NOT'', kw ''NULL''] else [])"

definition spec_tokens :: "column_spec \<Rightarrow> token list" where
  "spec_tokens c = [id_tok (spec_Name c), id_tok (spec_TypeName c)] @ constraint_tokens c"

definition set_tokens :: "set_clause \<Rightarrow> token list" where
  "set_tokens c = [id_tok (set_Column c), op_token ''=''] @ expr_tokens 3 (set_Value c)"

fun where_tokens :: "expression option \<Rightarrow> token list" where
  "where_tokens None = []"
| "where_tokens (Some e) = [kw ''WHERE''] @ expr_tokens 0 e"

fun statement_tokens :: "statement \<Rightarrow> token list" where
  "statement_tokens (CreateTableStatement t cs) =
     [kw ''CREATE'', kw ''TABLE'', id_tok t, lparen] @ sep_by_comma (map spec_tokens cs) @ [rparen]"
| "statement_tokens (DropTableStatement t b) =
     [kw ''DROP'', kw ''TABLE''] @ (if b then [kw ''IF'', kw ''EXISTS''] else []) @ [id_tok t]"
| "statement_tokens (InsertStatement t cs vs) =
     [kw ''INSERT'', kw ''INTO'', id_tok t] @
     (if cs = [] then [] else [lparen] @ sep_by_comma (map (\<lambda>c. [id_tok c]) cs) @ [rparen]) @
     [kw ''VALUES'', lparen] @ sep_by_comma (map (expr_tokens 3) vs) @ [rparen]"
| "statement_tokens (SelectStatement cs t w) =
     [kw ''SELECT''] @ (if cs = [''*''] then [mk_token TOKEN_ASTERISK ''*''] else sep_by_comma (map (\<lambda>c. [id_tok c]) cs)) @
     [kw ''FROM'', id_tok t] @ where_tokens w"
| "statement_tokens (UpdateStatement t scs w) =
     [kw ''UPDATE'', id_tok t, kw ''SET''] @ sep_by_comma (map set_tokens scs) @ where_tokens w"
| "statement_tokens (DeleteStatement t w) = [kw ''DELETE'', kw ''FROM'', id_tok t] @ where_tokens w"
| "statement_tokens BeginStatement = [kw ''BEGIN'']"
| "statement_tokens CommitStatement = [kw ''COMMIT'']"
| "statement_tokens RollbackStatement = [kw ''ROLLBACK'']"

fun where_printable :: "expression option \<Rightarrow> bool" where
  "where_printable None \<longleftrightarrow> True"
| "where_printable (Some e) \<longleftrightarrow> expr_printable e"

fun statement_printable :: "statement \<Rightarrow> bool" where
  "statement_printable (CreateTableStatement t cs) \<longleftrightarrow>
     ident_ok t \<and> cs \<noteq> [] \<and>
     list_all (\<lambda>c. ident_ok (spec_Name c) \<and> ident_ok (spec_TypeName c) \<and> (spec_PrimaryKey c \<longrightarrow> spec_NotNull c)) cs"
| "statement_printable (DropTableStatement t b) \<longleftrightarrow> ident_ok t"
| "statement_printable (InsertStatement t cs vs) \<longleftrightarrow> ident_ok t \<and> list_all ident_ok cs \<and> vs \<noteq> [] \<and> list_all expr_printable vs"
| "statement_printable (SelectStatement cs t w) \<longleftrightarrow>
     (cs = [''*''] \<or> cs \<noteq> [] \<and> list_all ident_ok cs) \<and> ident_ok t \<and> where_printable w"
| "statement_printable (UpdateStatement t scs w) \<longleftrightarrow>
     ident_ok t \<and> scs \<noteq> [] \<and> list_all (\<lambda>c. ident_ok (set_Column c) \<and> expr_printable (set_Value c)) scs \<and> where_printable w"
| "statement_printable (DeleteStatement t w) \<longleftrightarrow> ident_ok t \<and> where_printable w"
| "statement_printable _ \<longleftrightarrow> True"

definition sql_text :: "statement \<Rightarrow> string" where
  "sql_text st = print_tokens (statement_tokens st)"

section \<open>Parsing printed statements\<close>

lemma parsed_comma_list:
  assumes "\<And>x p us. x \<in> set xs \<Longrightarrow> left p < m \<Longrightarrow> toks p = tk x @ us \<Longrightarrow> us = ts \<or> us \<noteq> [] \<and> hd us = comma \<Longrightarrow> parsed (item p) x us (left p)"
    and "xs \<noteq> []" "left p < n" "n \<le> m" "toks p = sep_by_comma (map tk xs) @ ts" "\<not> tok_is ts TOKEN_COMMA"
  shows "parsed (comma_list item n p acc) (acc @ xs) ts (left p)"
  using assms
proof (induction xs arbitrary: n p acc)
  case (Cons x xs)
  obtain k where n: "n = Suc k" using Cons.prems(3) by (cases n) auto
  show ?case
  proof (cases xs)
    case Nil
    have "parsed (item p) x ts (left p)" using Cons.prems by (intro Cons.prems(1)) (auto simp: Nil)
    then show ?thesis
      unfolding n comma_list_eqs using Cons.prems(6) by (auto simp: Nil peek_is_toks elim!: parsed_pbind)
  next
    case (Cons y ys)
    let ?us = "comma # sep_by_comma (map tk xs) @ ts"
    have x: "parsed (item p) x ?us (left p)"
      using Cons.prems by (intro Cons.prems(1)) (auto simp: Cons)
    have "parsed (comma_list item k (moved p1) (acc @ [x])) (acc @ x # xs) ts (left p)"
      if "toks p1 = ?us" "left p1 < left p" for p1
    proof -
      have "left (moved p1) < left p1" "toks (moved p1) = sep_by_comma (map tk xs) @ ts"
        using that toks_Cons [OF that(1)] left_advance(2) [of p1] by (auto simp: token_defs)
      then have "parsed (comma_list item k (moved p1) (acc @ [x])) ((acc @ [x]) @ xs) ts (left (moved p1))"
        using Cons.prems that n by (intro Cons.IH) (auto simp: Cons)
      then show ?thesis using parsed_mono that(2) \<open>left (moved p1) < left p1\<close> by fastforce
    qed
    then show ?thesis
      unfolding n comma_list_eqs by (intro parsed_pbind [OF x]) (simp add: peek_is_toks tok_is_def token_defs)
  qed
qed simp

lemma tok_type_simps [simp]:
  "tok_Type (kw v) = TOKEN_KEYWORD" "tok_Type (id_tok v) = TOKEN_IDENT" "tok_Type lparen = TOKEN_LPAREN"
  "tok_Type rparen = TOKEN_RPAREN" "tok_Type comma = TOKEN_COMMA" "tok_Value (id_tok v) = v" "kw v = kw w \<longleftrightarrow> v = w"
  "tok_Type (mk_token ty v) = ty" "tok_Value (mk_token ty v) = v"
  by (simp_all add: token_defs)

lemma tok_distinct [simp]:
  "kw v \<noteq> id_tok w" "kw v \<noteq> lparen" "kw v \<noteq> rparen" "kw v \<noteq> comma" "id_tok v \<noteq> kw w" "lparen \<noteq> kw w" "rparen \<noteq> kw w" "comma \<noteq> kw w"
  by (simp_all add: token_defs)

lemma step_keyword:
  assumes "toks p = kw v # ts" and "\<And>p'. toks p' = ts \<Longrightarrow> left p' < left p \<Longrightarrow> parsed (f () p') y us c"
  shows "parsed (pbind (expectKeyword v p) f) y us c"
  by (rule parsed_pbind [OF parsed_expectKeyword [OF assms(1)]]) (rule assms(2))

lemma step_token:
  assumes "toks p = t # ts" and "tok_Type t = ty" and "\<And>p'. toks p' = ts \<Longrightarrow> left p' < left p \<Longrightarrow> parsed (f t p') y us c"
  shows "parsed (pbind (expectToken ty p) f) y us c"
  by (rule parsed_pbind [OF parsed_expectToken [OF assms(1,2)]]) (rule assms(3))

definition after_statement :: "token list \<Rightarrow> token list" where
  "after_statement ts = (if tok_is ts TOKEN_SEMICOLON then tl ts else ts)"

lemma parsed_end:
  "toks p = ts \<Longrightarrow> left p < b \<Longrightarrow> x = y \<Longrightarrow> parsed (pok x (skipped p)) y (after_statement ts) b"
  using toks_Cons [of p] left_advance(1) [of p]
  by (cases ts) (auto simp: skipped_def after_statement_def peek_is_toks [OF refl] tok_is_def)

definition ends_statement :: "token list \<Rightarrow> bool" where
  "ends_statement ts \<longleftrightarrow> tok_is ts TOKEN_EOF \<or> tok_is ts TOKEN_SEMICOLON"

lemma ends_statement_or: "ends_statement ts \<Longrightarrow> ends_or ts"
  by (cases ts) (auto simp: ends_statement_def tok_is_def ends_or_def ends_and_def ends_comparison_def comparison_token_def)

lemma parsed_ident: "toks p = [id_tok v] @ ts \<Longrightarrow> parsed (parse_ident p) v ts (left p)"
  unfolding parse_ident_def by (rule step_token) auto

lemma parsed_ident_list:
  assumes "cs \<noteq> []" "left p < n" "toks p = sep_by_comma (map (\<lambda>c. [id_tok c]) cs) @ ts" "\<not> tok_is ts TOKEN_COMMA"
  shows "parsed (comma_list parse_ident n p []) cs ts (left p)"
  using parsed_comma_list [where tk = "\<lambda>c. [id_tok c]" and item = parse_ident and m = n and acc = "[]"] assms parsed_ident by simp

lemma parsed_expr_list:
  assumes "vs \<noteq> []" "list_all expr_printable vs" "left p < n" "toks p = sep_by_comma (map (expr_tokens 3) vs) @ ts"
    "\<not> tok_is ts TOKEN_COMMA"
  shows "parsed (comma_list (parsePrimary n) n p []) vs ts (left p)"
proof -
  have "parsed (parsePrimary n q) v us (left q)" if "v \<in> set vs" "left q < n" "toks q = expr_tokens 3 v @ us" for v q us
    using reads_primaryD [OF reads_printable(1)] that assms(2) by (auto simp: list_all_iff)
  then show ?thesis
    using parsed_comma_list [where item = "parsePrimary n" and tk = "expr_tokens 3" and m = n and acc = "[]"] assms by simp
qed

lemma parsed_set_clause:
  assumes "expr_printable (set_Value c)" "left p < n" "toks p = set_tokens c @ ts"
  shows "parsed (parse_set_clause n p) c ts (left p)"
proof -
  have t: "toks p = id_tok (set_Column c) # mk_token TOKEN_EQ ''='' # expr_tokens 3 (set_Value c) @ ts"
    using assms(3) by (simp add: set_tokens_def op_token_def op_type_def)
  show ?thesis
    unfolding parse_set_clause_def
  proof (rule step_token [OF t], simp)
    fix p1 assume p1: "toks p1 = mk_token TOKEN_EQ ''='' # expr_tokens 3 (set_Value c) @ ts" "left p1 < left p"
    show "parsed (pbind (expectToken TOKEN_EQ p1) (\<lambda>_ p2. pbind (parsePrimary n p2) (\<lambda>value p3.
        pok \<lparr>set_Column = tok_Value (id_tok (set_Column c)), set_Value = value\<rparr> p3))) c ts (left p)"
    proof (rule step_token [OF p1(1)], simp)
      fix p2 assume p2: "toks p2 = expr_tokens 3 (set_Value c) @ ts" "left p2 < left p1"
      have "parsed (parsePrimary n p2) (set_Value c) ts (left p2)"
        using p2 p1(2) assms(2) by (intro reads_primaryD [OF reads_printable(1) [OF assms(1)]]) auto
      then show "parsed (pbind (parsePrimary n p2) (\<lambda>value p3.
        pok \<lparr>set_Column = tok_Value (id_tok (set_Column c)), set_Value = value\<rparr> p3)) c ts (left p)"
        using p1(2) p2(2) by (elim parsed_pbind) simp
    qed
  qed
qed

lemma parsed_set_list:
  assumes "scs \<noteq> []" "list_all (\<lambda>c. expr_printable (set_Value c)) scs" "left p < n" "toks p = sep_by_comma (map set_tokens scs) @ ts"
    "\<not> tok_is ts TOKEN_COMMA"
  shows "parsed (comma_list (parse_set_clause n) n p []) scs ts (left p)"
  using parsed_comma_list [where item = "parse_set_clause n" and tk = set_tokens and m = n and acc = "[]"] assms parsed_set_clause
  by (simp add: list_all_iff)

lemma parsed_where:
  assumes "where_printable w" "left p < n" "toks p = where_tokens w @ ts" "ends_statement ts"
  shows "parsed (parse_where n p) w ts (Suc (left p))"
proof (cases w)
  case None
  have "\<not> peek_keyword p ''WHERE''"
    using assms(3,4) None peek_keyword_toks [OF assms(3)] by (cases ts) (auto simp: ends_statement_def tok_is_def)
  then show ?thesis using assms(3) None by (simp add: parse_where_eq)
next
  case (Some e)
  have t: "toks p = kw ''WHERE'' # expr_tokens 0 e @ ts" using assms(3) Some by simp
  have a: "toks (moved p) = expr_tokens 0 e @ ts" "left (moved p) < left p"
    using toks_Cons [OF t] left_advance(2) [of p] by auto
  have "parsed (parseWhereExpr n (moved p)) e ts (left (moved p))"
    using reads_printable(2) [of e] assms(1,2,4) ends_statement_or a Some unfolding reads_where_def by auto
  then have "parsed (pbind (parseWhereExpr n (moved p)) (\<lambda>e p1. pok (Some e) p1)) w ts (Suc (left p))"
    using a(2) Some by (elim parsed_pbind) simp
  then show ?thesis using peek_keyword_toks [OF t] by (simp add: parse_where_eq)
qed

lemma parsed_constraint_loop:
  assumes "spec_PrimaryKey c \<longrightarrow> spec_NotNull c" "Suc (left q) < n" "toks q = constraint_tokens c @ ts"
    "tok_is ts TOKEN_COMMA \<or> tok_is ts TOKEN_RPAREN"
  shows "parsed (constraint_loop n \<lparr>spec_Name = spec_Name c, spec_TypeName = spec_TypeName c, spec_NotNull = False, spec_PrimaryKey = False\<rparr> q)
    c ts (Suc (left q))"
proof -
  have stop: "\<not> peek_keyword q ''NOT''" "\<not> peek_keyword q ''PRIMARY''" if "toks q = ts" for q
    using assms(4) by (auto simp: peek_keyword_toks [OF that] tok_is_def split: list.splits)
  note q = assms(3) [unfolded constraint_tokens_def]
  obtain k where n: "n = Suc (Suc k)" using assms(2) by (metis Suc_lessE less_SucE lessI not_less0 old.nat.exhaust)
  have fin: "constraint_loop (Suc k) col p1 = pok col p1" if "toks p1 = ts" for col p1
    using stop [OF that] by simp
  have step: "parsed (pbind (expectKeyword v (moved q)) (\<lambda>_ p1. constraint_loop (Suc k) c' p1)) c' ts (Suc (left q))"
    if "toks (moved q) = kw v # ts" for v c'
    using that left_advance(1) [of q] by (intro step_keyword [OF that]) (simp add: fin del: constraint_loop_eqs)
  note unf = constraint_loop_eqs(2) [of "Suc k" _ q]
  consider "spec_PrimaryKey c" "spec_NotNull c" | "\<not> spec_PrimaryKey c" "spec_NotNull c" | "\<not> spec_PrimaryKey c" "\<not> spec_NotNull c"
    using assms(1) by blast
  then show ?thesis
  proof cases
    case 1
    have t: "toks q = kw ''PRIMARY'' # kw ''KEY'' # ts" using q 1 by simp
    have "toks (moved q) = kw ''KEY'' # ts" using toks_Cons [OF t] by simp
    from step [OF this, of c] show ?thesis
      unfolding n unf using 1 by (cases c) (simp add: peek_keyword_toks [OF t] del: constraint_loop_eqs)
  next
    case 2
    have t: "toks q = kw ''NOT'' # kw ''NULL'' # ts" using q 2 by simp
    have "toks (moved q) = kw ''NULL'' # ts" using toks_Cons [OF t] by simp
    from step [OF this, of c] show ?thesis
      unfolding n unf using 2 by (cases c) (simp add: peek_keyword_toks [OF t] del: constraint_loop_eqs)
  next
    case 3
    then have "toks q = ts" using q by simp
    with stop [OF this] show ?thesis unfolding n unf using 3 by (cases c) (simp del: constraint_loop_eqs)
  qed
qed

lemma parsed_columnSpec:
  assumes "spec_PrimaryKey c \<longrightarrow> spec_NotNull c" "left p < n" "toks p = spec_tokens c @ ts"
    "tok_is ts TOKEN_COMMA \<or> tok_is ts TOKEN_RPAREN"
  shows "parsed (parseColumnSpec n p) c ts (left p)"
proof -
  let ?cs = "constraint_tokens c"
  have t: "toks p = id_tok (spec_Name c) # id_tok (spec_TypeName c) # ?cs @ ts"
    using assms(3) by (simp add: spec_tokens_def)
  show ?thesis
    unfolding parseColumnSpec_eq
  proof (rule step_token [OF t], simp)
    fix p1 assume p1: "toks p1 = id_tok (spec_TypeName c) # ?cs @ ts" "left p1 < left p"
    have a: "par_current p1 = id_tok (spec_TypeName c)" "toks (moved p1) = ?cs @ ts" "left (moved p1) < left p1"
      using toks_Cons [OF p1(1)] left_advance(2) [of p1] by auto
    have "Suc (left (moved p1)) < n" using a(3) p1(2) assms(2) by simp
    from parsed_mono [OF parsed_constraint_loop [OF assms(1) this a(2) assms(4)], of "left p"] a p1(2)
    show "parsed (if tok_Type (par_current p1) \<noteq> TOKEN_IDENT \<and> tok_Type (par_current p1) \<noteq> TOKEN_KEYWORD
          then perr (ErrExpectedTypeName (tok_Value (par_current p1)))
          else constraint_loop n
                 \<lparr>spec_Name = tok_Value (id_tok (spec_Name c)), spec_TypeName = tok_Value (par_current p1), spec_NotNull = False,
                  spec_PrimaryKey = False\<rparr> (moved p1)) c ts (left p)"
      by (simp del: constraint_loop_eqs)
  qed
qed

lemma parsed_spec_list:
  assumes "cs \<noteq> []" "list_all (\<lambda>c. spec_PrimaryKey c \<longrightarrow> spec_NotNull c) cs" "left p < n"
    "toks p = sep_by_comma (map spec_tokens cs) @ ts" "tok_is ts TOKEN_RPAREN"
  shows "parsed (comma_list (parseColumnSpec n) n p []) cs ts (left p)"
proof -
  have "parsed (parseColumnSpec n q) c us (left q)"
    if "c \<in> set cs" "left q < n" "toks q = spec_tokens c @ us" "us = ts \<or> us \<noteq> [] \<and> hd us = comma" for c q us
    using that assms(2,5) by (intro parsed_columnSpec) (auto simp: list_all_iff tok_is_def neq_Nil_conv)
  moreover have "\<not> tok_is ts TOKEN_COMMA" using assms(5) by (auto simp: tok_is_def split: list.splits)
  ultimately show ?thesis
    using parsed_comma_list [where item = "parseColumnSpec n" and tk = spec_tokens and m = n and acc = "[]"] assms by simp
qed

lemma parsed_createTable:
  assumes "statement_printable (CreateTableStatement t cs)" "left p < n"
    "toks p = statement_tokens (CreateTableStatement t cs) @ ts"
  shows "parsed (parseCreateTable n p) (CreateTableStatement t cs) (after_statement ts) (left p)"
proof -
  have tk: "toks p = kw ''CREATE'' # kw ''TABLE'' # id_tok t # lparen # sep_by_comma (map spec_tokens cs) @ rparen # ts"
    using assms(3) by simp
  have "parsed (comma_list (parseColumnSpec n) n q []) cs (rparen # ts) (left q)"
    if "toks q = sep_by_comma (map spec_tokens cs) @ rparen # ts" "left q < n" for q
    using assms(1) that by (intro parsed_spec_list) (auto simp: tok_is_def list_all_iff)
  note columns = parsed_pbind [OF this]
  show ?thesis
    unfolding parseCreateTable_eq using assms(2)
    by - (rule step_keyword [OF tk],
        (erule step_keyword | (erule step_token, simp) | (erule columns, simp) | (erule parsed_end; simp))+)
qed

lemma parsed_dropTable:
  assumes "toks p = statement_tokens (DropTableStatement t b) @ ts"
  shows "parsed (parseDropTable p) (DropTableStatement t b) (after_statement ts) (left p)"
proof -
  have tk: "toks p = kw ''DROP'' # kw ''TABLE'' # (if b then [kw ''IF'', kw ''EXISTS''] else []) @ id_tok t # ts"
    using assms by simp
  have "parsed (if peek_keyword q ''IF'' then pbind (expectKeyword ''EXISTS'' (moved q)) (\<lambda>_ p3. pok True p3) else pok False q)
      b (id_tok t # ts) (Suc (left q))"
    if q: "toks q = (if b then [kw ''IF'', kw ''EXISTS''] else []) @ id_tok t # ts" for q
  proof (cases b)
    case True
    then have "toks (moved q) = kw ''EXISTS'' # id_tok t # ts" using toks_Cons [of q] q by simp
    from step_keyword [OF this, of "\<lambda>_ p3. pok True p3" b] show ?thesis
      using True left_advance(1) [of q] by (simp add: peek_keyword_toks [OF q])
  qed (use q in \<open>simp add: peek_keyword_toks [OF q]\<close>)
  note exists = parsed_pbind [OF this]
  show ?thesis
    unfolding parseDropTable_eq
    by - (rule step_keyword [OF tk],
        (erule step_keyword | (erule step_token, simp) | erule exists | (erule parsed_end; simp))+)
qed

lemma parsed_insert:
  assumes "statement_printable (InsertStatement t cs vs)" "left p < n"
    "toks p = statement_tokens (InsertStatement t cs vs) @ ts"
  shows "parsed (parseInsert n p) (InsertStatement t cs vs) (after_statement ts) (left p)"
proof -
  let ?us = "kw ''VALUES'' # lparen # sep_by_comma (map (expr_tokens 3) vs) @ rparen # ts"
  let ?cs = "if cs = [] then [] else [lparen] @ sep_by_comma (map (\<lambda>c. [id_tok c]) cs) @ [rparen]"
  have tk: "toks p = kw ''INSERT'' # kw ''INTO'' # id_tok t # ?cs @ ?us"
    using assms(3) by simp
  have "parsed (if peek_is q TOKEN_LPAREN
            then pbind (comma_list parse_ident n (moved q) []) (\<lambda>columns p4.
                 pbind (expectToken TOKEN_RPAREN p4) (\<lambda>_ p5. pok columns p5))
            else pok [] q) cs ?us (Suc (left q))"
    if q: "toks q = ?cs @ ?us" "left q < n" for q
  proof (cases "cs = []")
    case False
    then have t: "toks q = lparen # sep_by_comma (map (\<lambda>c. [id_tok c]) cs) @ rparen # ?us" using q(1) by simp
    have a: "toks (moved q) = sep_by_comma (map (\<lambda>c. [id_tok c]) cs) @ rparen # ?us" "left (moved q) < left q"
      using toks_Cons [OF t] left_advance(2) [of q] by auto
    have "parsed (comma_list parse_ident n (moved q) []) cs (rparen # ?us) (left (moved q))"
      using a q(2) False by (intro parsed_ident_list) (auto simp: tok_is_def)
    then have "parsed (pbind (comma_list parse_ident n (moved q) []) (\<lambda>columns p4.
                 pbind (expectToken TOKEN_RPAREN p4) (\<lambda>_ p5. pok columns p5))) cs ?us (Suc (left q))"
      by (rule parsed_pbind) (erule step_token, use a(2) in simp_all)
    then show ?thesis using peek_is_toks [OF t] by (simp add: tok_is_def)
  qed (use q in \<open>simp add: peek_is_toks [OF q(1)] tok_is_def\<close>)
  note columns = parsed_pbind [OF this]
  have "parsed (comma_list (parsePrimary n) n q []) vs (rparen # ts) (left q)"
    if "toks q = sep_by_comma (map (expr_tokens 3) vs) @ rparen # ts" "left q < n" for q
    using assms(1) that by (intro parsed_expr_list) (auto simp: tok_is_def)
  note vals = parsed_pbind [OF this]
  show ?thesis
    unfolding parseInsert_eq using assms(2)
    by - (rule step_keyword [OF tk],
        (erule step_keyword | (erule step_token, simp) | (erule columns, simp) | (erule vals, simp) | (erule parsed_end; simp))+)
qed

lemma parsed_select:
  assumes "statement_printable (SelectStatement cs t w)" "left p < n"
    "toks p = statement_tokens (SelectStatement cs t w) @ ts" "ends_statement ts"
  shows "parsed (parseSelect n p) (SelectStatement cs t w) (after_statement ts) (left p)"
proof -
  let ?us = "kw ''FROM'' # id_tok t # where_tokens w @ ts"
  let ?cs = "if cs = [''*''] then [mk_token TOKEN_ASTERISK ''*''] else sep_by_comma (map (\<lambda>c. [id_tok c]) cs)"
  have tk: "toks p = kw ''SELECT'' # ?cs @ ?us" using assms(3) by simp
  have "parsed (if peek_is q TOKEN_ASTERISK then pok [''*''] (moved q) else comma_list parse_ident n q []) cs ?us (left q)"
    if q: "toks q = ?cs @ ?us" "left q < n" for q
  proof (cases "cs = [''*'']")
    case True
    then have t: "toks q = mk_token TOKEN_ASTERISK ''*'' # ?us" using q(1) by simp
    then show ?thesis using toks_Cons [OF t] left_advance(2) [of q] True by (simp add: peek_is_toks [OF t] tok_is_def)
  next
    case False
    then have c: "cs \<noteq> []" and t: "toks q = sep_by_comma (map (\<lambda>c. [id_tok c]) cs) @ ?us" using q(1) assms(1) by auto
    then have "\<not> peek_is q TOKEN_ASTERISK"
      by (cases cs rule: sep_by_comma.cases [of "map (\<lambda>c. [id_tok c]) cs", case_product list.exhaust])
         (auto simp: peek_is_toks [OF t] tok_is_def)
    moreover have "parsed (comma_list parse_ident n q []) cs ?us (left q)"
      using t q(2) c by (intro parsed_ident_list) (auto simp: tok_is_def)
    ultimately show ?thesis by simp
  qed
  note columns = parsed_pbind [OF this]
  have "parsed (parse_where n q) w ts (Suc (left q))" if "toks q = where_tokens w @ ts" "left q < n" for q
    using that assms(1,4) by (intro parsed_where) auto
  note cond = parsed_pbind [OF this]
  show ?thesis
    unfolding parseSelect_eq using assms(2)
    by - (rule step_keyword [OF tk],
        (erule step_keyword | (erule step_token, simp) | (erule columns, simp) | (erule cond, simp) | (erule parsed_end; simp))+)
qed

lemma parsed_update:
  assumes "statement_printable (UpdateStatement t scs w)" "left p < n"
    "toks p = statement_tokens (UpdateStatement t scs w) @ ts" "ends_statement ts"
  shows "parsed (parseUpdate n p) (UpdateStatement t scs w) (after_statement ts) (left p)"
proof -
  have tk: "toks p = kw ''UPDATE'' # id_tok t # kw ''SET'' # sep_by_comma (map set_tokens scs) @ where_tokens w @ ts"
    using assms(3) by simp
  have "\<not> tok_is (where_tokens w @ ts) TOKEN_COMMA"
    using assms(4) by (cases w; cases ts) (auto simp: tok_is_def ends_statement_def)
  then have "parsed (comma_list (parse_set_clause n) n q []) scs (where_tokens w @ ts) (left q)"
    if "toks q = sep_by_comma (map set_tokens scs) @ where_tokens w @ ts" "left q < n" for q
    using that assms(1) by (intro parsed_set_list) (auto simp: list_all_iff)
  note clauses = parsed_pbind [OF this]
  have "parsed (parse_where n q) w ts (Suc (left q))" if "toks q = where_tokens w @ ts" "left q < n" for q
    using that assms(1,4) by (intro parsed_where) auto
  note cond = parsed_pbind [OF this]
  show ?thesis
    unfolding parseUpdate_eq using assms(2)
    by - (rule step_keyword [OF tk],
        (erule step_keyword | (erule step_token, simp) | (erule clauses, simp) | (erule cond, simp) | (erule parsed_end; simp))+)
qed

lemma parsed_delete:
  assumes "statement_printable (DeleteStatement t w)" "left p < n"
    "toks p = statement_tokens (DeleteStatement t w) @ ts" "ends_statement ts"
  shows "parsed (parseDelete n p) (DeleteStatement t w) (after_statement ts) (left p)"
proof -
  have tk: "toks p = kw ''DELETE'' # kw ''FROM'' # id_tok t # where_tokens w @ ts" using assms(3) by simp
  have "parsed (parse_where n q) w ts (Suc (left q))" if "toks q = where_tokens w @ ts" "left q < n" for q
    using that assms(1,4) by (intro parsed_where) auto
  note cond = parsed_pbind [OF this]
  show ?thesis
    unfolding parseDelete_eq using assms(2)
    by - (rule step_keyword [OF tk],
        (erule step_keyword | (erule step_token, simp) | (erule cond, simp) | (erule parsed_end; simp))+)
qed

lemma parsed_statement:
  assumes "statement_printable st" "left p < n" "toks p = statement_tokens st @ ts" "ends_statement ts"
  shows "parsed (Parse_fuel n p) st (after_statement ts) (left p)"
proof -
  have k: "peek_keyword p v \<longleftrightarrow> kw v = hd (statement_tokens st)" for v
    using peek_keyword_toks [OF assms(3)] by (cases st) auto
  have one: "parsed (pbind (expectKeyword v p) (\<lambda>_ p1. pok x (skipped p1))) x (after_statement ts) (left p)"
    if "toks p = kw v # ts" for v and x :: statement
    by (rule step_keyword [OF that]) (erule parsed_end; simp)
  have d: "Parse_fuel n p =
      (case st of CreateTableStatement t cs \<Rightarrow> parseCreateTable n p | DropTableStatement t b \<Rightarrow> parseDropTable p
       | InsertStatement t cs vs \<Rightarrow> parseInsert n p | SelectStatement cs t w \<Rightarrow> parseSelect n p
       | UpdateStatement t scs w \<Rightarrow> parseUpdate n p | DeleteStatement t w \<Rightarrow> parseDelete n p
       | BeginStatement \<Rightarrow> parseBegin p | CommitStatement \<Rightarrow> parseCommit p | RollbackStatement \<Rightarrow> parseRollback p)"
    by (cases st) (simp_all add: Parse_fuel_def k)
  show ?thesis
  proof (cases st)
    case BeginStatement
    then show ?thesis using assms(3) one unfolding d by (simp add: parseBegin_eq)
  next
    case CommitStatement
    then show ?thesis using assms(3) one unfolding d by (simp add: parseCommit_eq)
  next
    case RollbackStatement
    then show ?thesis using assms(3) one unfolding d by (simp add: parseRollback_eq)
  qed (simp only: d statement.case,
      rule parsed_createTable parsed_dropTable parsed_insert parsed_select parsed_update parsed_delete;
      use assms in \<open>simp only:\<close>)+
qed

lemma op_token_ok: "op \<in> {''OR'', ''AND''} \<or> op_type op \<noteq> None \<Longrightarrow> token_ok (op_token op)"
  by (auto simp: op_token_def op_type_def kw_def mk_token_def sql_keywords_def split: if_splits)

lemma literal_tokens_ok:
  "token_ok lparen" "token_ok rparen" "token_ok comma" "token_ok (id_tok c) \<longleftrightarrow> ident_ok c"
  "token_ok (kw v) \<longleftrightarrow> v \<in> set sql_keywords" "token_ok (mk_token TOKEN_ASTERISK ''*'')"
  by (simp_all add: token_defs)

lemma number_ok_FormatInt: "0 \<le> i \<Longrightarrow> number_ok (FormatInt i)"
proof -
  assume "0 \<le> i"
  then have f: "FormatInt i = nat_digits (nat i)" by (simp add: FormatInt_def)
  have w: "takeWhile isDigit (nat_digits (nat i)) = nat_digits (nat i)" "dropWhile isDigit (nat_digits (nat i)) = []"
    using nat_digits_isDigit [of "nat i"] by (simp_all add: list_all_iff takeWhile_eq_all_conv)
  show ?thesis unfolding number_ok_def Let_def f w by simp
qed

lemma expr_tokens_ok: "expr_printable e \<Longrightarrow> list_all token_ok (expr_tokens k e)"
proof (induction e arbitrary: k)
  case (IntegerLiteral i)
  then show ?case by (simp add: number_ok_FormatInt mk_token_def)
next
  case (StringLiteral s)
  then show ?case by (simp add: mk_token_def)
qed (auto simp: paren_def literal_tokens_ok op_token_ok sql_keywords_def simp del: token_ok.simps)

lemma sep_by_comma_ok: "list_all (list_all token_ok) tss \<Longrightarrow> list_all token_ok (sep_by_comma tss)"
  by (induction tss rule: sep_by_comma.induct) (simp_all add: literal_tokens_ok del: token_ok.simps)

lemma where_tokens_ok: "where_printable w \<Longrightarrow> list_all token_ok (where_tokens w)"
  by (cases w) (simp_all add: literal_tokens_ok expr_tokens_ok sql_keywords_def del: token_ok.simps)

lemma list_tokens_ok:
  "list_all ident_ok cs \<Longrightarrow> list_all token_ok (sep_by_comma (map (\<lambda>c. [id_tok c]) cs))"
  "list_all expr_printable vs \<Longrightarrow> list_all token_ok (sep_by_comma (map (expr_tokens 3) vs))"
  "list_all (\<lambda>c. ident_ok (spec_Name c) \<and> ident_ok (spec_TypeName c) \<and> (spec_PrimaryKey c \<longrightarrow> spec_NotNull c)) specs \<Longrightarrow>
     list_all token_ok (sep_by_comma (map spec_tokens specs))"
  "list_all (\<lambda>c. ident_ok (set_Column c) \<and> expr_printable (set_Value c)) scs \<Longrightarrow>
     list_all token_ok (sep_by_comma (map set_tokens scs))"
proof -
  have eq: "token_ok (op_token ''='')" by (rule op_token_ok) (simp add: op_type_def)
  show "list_all ident_ok cs \<Longrightarrow> list_all token_ok (sep_by_comma (map (\<lambda>c. [id_tok c]) cs))"
    by (rule sep_by_comma_ok) (simp add: list_all_iff literal_tokens_ok del: token_ok.simps)
  show "list_all expr_printable vs \<Longrightarrow> list_all token_ok (sep_by_comma (map (expr_tokens 3) vs))"
    using expr_tokens_ok by (intro sep_by_comma_ok) (auto simp: list_all_iff simp del: token_ok.simps)
  show "list_all (\<lambda>c. ident_ok (spec_Name c) \<and> ident_ok (spec_TypeName c) \<and> (spec_PrimaryKey c \<longrightarrow> spec_NotNull c)) specs \<Longrightarrow>
     list_all token_ok (sep_by_comma (map spec_tokens specs))"
    by (rule sep_by_comma_ok) (auto simp: list_all_iff spec_tokens_def constraint_tokens_def literal_tokens_ok sql_keywords_def simp del: token_ok.simps)
  show "list_all (\<lambda>c. ident_ok (set_Column c) \<and> expr_printable (set_Value c)) scs \<Longrightarrow>
     list_all token_ok (sep_by_comma (map set_tokens scs))"
    using expr_tokens_ok eq by (intro sep_by_comma_ok) (auto simp: list_all_iff set_tokens_def literal_tokens_ok simp del: token_ok.simps)
qed

lemma statement_tokens_ok: "statement_printable st \<Longrightarrow> list_all token_ok (statement_tokens st)"
proof (cases st)
  case (SelectStatement cs t w)
  assume "statement_printable st"
  then show ?thesis
    using SelectStatement list_tokens_ok(1) [of cs] where_tokens_ok [of w]
    by (auto simp: literal_tokens_ok sql_keywords_def simp del: token_ok.simps)
qed (simp_all add: literal_tokens_ok list_tokens_ok where_tokens_ok sql_keywords_def del: token_ok.simps)

text \<open>The parser reads a printed statement back, whatever follows it after a semicolon.\<close>

lemma parse_sql_text:
  assumes "statement_printable st" and "ends_statement (tokens s)"
  shows "parse_sql (sql_text st @ s) = Some (Ok st)"
proof -
  let ?p = "new_parser (sql_text st @ s)"
  have "toks ?p = statement_tokens st @ tokens s"
    using tokens_print [OF statement_tokens_ok [OF assms(1)]] by (simp add: toks_NewParser sql_text_def)
  from parsed_statement [OF assms(1) _ this assms(2), of "Suc (left ?p)"] show ?thesis
    by (auto simp: parse_sql_eq parsed_def pok_def Let_def)
qed

lemma tokens_Nil: "tokens [] = []"
  by (simp add: tokens.simps next_token_def mk_token_def)

lemma tokens_semicolon: "tokens (CHR '';'' # junk) = mk_token TOKEN_SEMICOLON '';'' # tokens junk"
proof -
  have "next_token (CHR '';'' # junk) = (mk_token TOKEN_SEMICOLON '';'', junk)"
    by (simp add: next_token_def isSpace_def single_tokens_def)
  then show ?thesis by (simp add: tokens.simps [of "CHR '';'' # junk"])
qed

section \<open>Properties\<close>

text \<open>C8. Printing a statement as SQL and parsing the text gives the same statement back, for all nine statements: column definitions with their constraints, value lists, \<open>SET\<close> lists and \<open>WHERE\<close> conditions printed with only the parentheses that the precedence of \<open>OR\<close>, \<open>AND\<close> and the comparisons and their association to the left require. Whatever follows a semicolon is ignored.\<close>

theorem parser_roundtrip:
  assumes "statement_printable st"
  shows "parse_sql (sql_text st) = Some (Ok st) \<and> parse_sql (sql_text st @ '';'' @ junk) = Some (Ok st)"
  using parse_sql_text [OF assms, of "[]"] parse_sql_text [OF assms, of "'';'' @ junk"]
  by (simp add: tokens_Nil tokens_semicolon ends_statement_def tok_is_def)

theorem parser_roundtrip_witness:
  "let e = BinaryExpr (BinaryExpr (ColumnRef ''a'') ''<='' (IntegerLiteral 7)) ''AND'' (BinaryExpr (IsNullExpr (ColumnRef ''b'') True) ''OR'' (BoolLiteral True));
       st = UpdateStatement ''t'' [\<lparr>set_Column = ''a'', set_Value = StringLiteral ''x y''\<rparr>] (Some e)
   in sql_text st = ''UPDATE t SET a = '' @ [CHR 0x27] @ ''x y'' @ [CHR 0x27] @ '' WHERE a <= 7 AND ( b IS NOT NULL OR TRUE ) '' \<and>
      parse_sql (sql_text st) = Some (Ok st)"
  unfolding Let_def
proof (intro conjI)
  let ?e = "BinaryExpr (BinaryExpr (ColumnRef ''a'') ''<='' (IntegerLiteral 7)) ''AND'' (BinaryExpr (IsNullExpr (ColumnRef ''b'') True) ''OR'' (BoolLiteral True))"
  let ?st = "UpdateStatement ''t'' [\<lparr>set_Column = ''a'', set_Value = StringLiteral ''x y''\<rparr>] (Some ?e)"
  show "sql_text ?st = ''UPDATE t SET a = '' @ [CHR 0x27] @ ''x y'' @ [CHR 0x27] @ '' WHERE a <= 7 AND ( b IS NOT NULL OR TRUE ) ''"
    by code_simp
  show "parse_sql (sql_text ?st) = Some (Ok ?st)" by (rule parser_roundtrip [THEN conjunct1]) code_simp
qed

end
