(* ===== verification/Protocol.thy ===== *)
theory Protocol
  imports Prelude
begin

text \<open>
  The wire protocol of \<open>internal/protocol\<close>: \<open>startup.go\<close>, \<open>reader.go\<close> and \<open>messages.go\<close>. A
  connection is the bytes the peer sends until it closes its side, the bytes written to it, and
  the writes that fail; \<open>net.Conn\<close> promises no more. The decoders are those of a client, and
  the theorems say that the two sides understand each other.
\<close>

section \<open>Connections\<close>

record conn =
  conn_in :: "byte list"
  conn_out :: "byte list"
  conn_faults :: "nat \<Rightarrow> bool"
  conn_writes :: nat

text \<open>\<open>io.ReadFull\<close> into a buffer of \<open>n\<close> bytes, and \<open>conn.Write\<close>.\<close>

definition ReadFull :: "nat \<Rightarrow> conn \<Rightarrow> byte list result \<times> conn" where
  "ReadFull n c =
     (if length (conn_in c) < n then (Err ErrReadConn, c\<lparr>conn_in := []\<rparr>)
      else (Ok (take n (conn_in c)), c\<lparr>conn_in := drop n (conn_in c)\<rparr>))"

definition conn_Write :: "byte list \<Rightarrow> conn \<Rightarrow> unit result \<times> conn" where
  "conn_Write bs c =
     (if conn_faults c (conn_writes c) then (Err ErrWriteConn, c\<lparr>conn_writes := Suc (conn_writes c)\<rparr>)
      else (Ok (), c\<lparr>conn_out := conn_out c @ bs, conn_writes := Suc (conn_writes c)\<rparr>))"

text \<open>A call that uses the connection, followed by another unless it failed.\<close>

fun cbind :: "'a result \<times> conn \<Rightarrow> ('a \<Rightarrow> conn \<Rightarrow> 'b result \<times> conn) \<Rightarrow> 'b result \<times> conn" where
  "cbind (Ok x, c) f = f x c"
| "cbind (Err e, c) f = (Err e, c)"
| "cbind (Panic, c) f = (Panic, c)"

lemma cbind_cong [fundef_cong]:
  "m = m' \<Longrightarrow> (\<And>x c. m' = (Ok x, c) \<Longrightarrow> f x c = f' x c) \<Longrightarrow> cbind m f = cbind m' f'"
  by (cases "fst m'"; cases m') auto

definition byte_of :: "char \<Rightarrow> byte" where
  "byte_of ch = of_char ch"

section \<open>Messages from the client\<close>

definition ReadMessage :: "conn \<Rightarrow> (byte \<times> byte list) result \<times> conn" where
  "ReadMessage c =
     cbind (ReadFull 1 c) (\<lambda>typeBuf c1.
     cbind (ReadFull 4 c1) (\<lambda>lengthBuf c2.
     cbind (ReadFull (unat ((be_word lengthBuf :: u32) - 4)) c2) (\<lambda>payload c3.
       (Ok (typeBuf ! 0, payload), c3))))"

record startup_message =
  ProtocolVersion :: u32
  Parameters :: "string \<rightharpoonup> string"

definition ProtocolVersion30 :: u32 where "ProtocolVersion30 = 196608"

definition SSLRequestCode :: u32 where "SSLRequestCode = 80877103"

text \<open>\<open>bytes.IndexByte(data, 0)\<close>, \<open>None\<close> for -1.\<close>

fun index_zero :: "byte list \<Rightarrow> nat option" where
  "index_zero [] = None"
| "index_zero (b # bs) = (if b = 0 then Some 0 else map_option Suc (index_zero bs))"

lemma index_zero_less: "index_zero bs = Some i \<Longrightarrow> i < length bs"
  by (induction bs arbitrary: i) (auto split: if_splits)

function startup_params :: "byte list \<Rightarrow> (string \<rightharpoonup> string) \<Rightarrow> (string \<rightharpoonup> string)" where
  "startup_params data params =
     (case index_zero data of
        None \<Rightarrow> params
      | Some 0 \<Rightarrow> params
      | Some (Suc i) \<Rightarrow>
          (let key = string_of_bytes (take (Suc i) data); data' = drop (Suc (Suc i)) data
           in case index_zero data' of
                None \<Rightarrow> params
              | Some j \<Rightarrow>
                  startup_params (drop (Suc j) data') (params(key \<mapsto> string_of_bytes (take j data')))))"
  by pat_completeness auto
termination
  by (relation "measure (length \<circ> fst)") (auto dest: index_zero_less)

declare startup_params.simps [simp del]

lemma ReadFull_shrinks: "ReadFull n c = (Ok bs, c') \<Longrightarrow> length (conn_in c) = n + length (conn_in c') \<and> length bs = n"
  by (auto simp: ReadFull_def split: if_splits)

lemma conn_Write_in: "conn_Write bs c = (r, c') \<Longrightarrow> conn_in c' = conn_in c"
  by (auto simp: conn_Write_def split: if_splits)

function ReadStartupMessage :: "conn \<Rightarrow> startup_message result \<times> conn" where
  "ReadStartupMessage c =
     cbind (ReadFull 4 c) (\<lambda>lengthBuff c1.
     cbind (ReadFull (unat ((be_word lengthBuff :: u32) - 4)) c1) (\<lambda>payload c2.
       if length payload < 4 then (Panic, c2)
       else (let code = be_word (take 4 payload)
             in if code = SSLRequestCode then cbind (conn_Write [byte_of (CHR ''N'')] c2) (\<lambda>_ c3. ReadStartupMessage c3)
                else if code \<noteq> ProtocolVersion30 then (Err (ErrProtocolVersion code), c2)
                else (Ok \<lparr>ProtocolVersion = code, Parameters = startup_params (drop 4 payload) Map.empty\<rparr>, c2))))"
  by pat_completeness auto
termination
  by (relation "measure (length \<circ> conn_in)") (auto dest!: ReadFull_shrinks conn_Write_in)

declare ReadStartupMessage.simps [simp del]

section \<open>Messages to the client\<close>

record field_description =
  fd_Name :: string
  fd_TypeOID :: u32
  fd_TypeSize :: u16

definition frame :: "char \<Rightarrow> byte list \<Rightarrow> byte list" where
  "frame ty body = byte_of ty # be_bytes 4 (of_nat (4 + length body) :: u32) @ body"

definition cstring :: "string \<Rightarrow> byte list" where
  "cstring s = bytes_of_string s @ [0]"

definition WriteAuthenticationOk :: "conn \<Rightarrow> unit result \<times> conn" where
  "WriteAuthenticationOk = conn_Write ([byte_of (CHR ''R'')] @ be_bytes 4 (8 :: u32) @ be_bytes 4 (0 :: u32))"

definition WriteParameterStatus :: "string \<Rightarrow> string \<Rightarrow> conn \<Rightarrow> unit result \<times> conn" where
  "WriteParameterStatus key v =
     conn_Write ([byte_of (CHR ''S'')] @ be_bytes 4 (of_nat (4 + length key + 1 + length v + 1) :: u32) @ cstring key @ cstring v)"

definition WriteBackendKeyData :: "u32 \<Rightarrow> u32 \<Rightarrow> conn \<Rightarrow> unit result \<times> conn" where
  "WriteBackendKeyData processID secretKey =
     conn_Write ([byte_of (CHR ''K'')] @ be_bytes 4 (12 :: u32) @ be_bytes 4 processID @ be_bytes 4 secretKey)"

definition WriteReadyForQuery :: "byte \<Rightarrow> conn \<Rightarrow> unit result \<times> conn" where
  "WriteReadyForQuery st = conn_Write ([byte_of (CHR ''Z'')] @ be_bytes 4 (5 :: u32) @ [st])"

definition error_body :: "string \<Rightarrow> byte list" where
  "error_body message =
     byte_of (CHR ''S'') # cstring ''ERROR'' @ byte_of (CHR ''V'') # cstring ''ERROR'' @
     byte_of (CHR ''C'') # cstring ''0A000'' @ byte_of (CHR ''M'') # cstring message @ [0]"

definition WriteErrorResponse :: "string \<Rightarrow> conn \<Rightarrow> unit result \<times> conn" where
  "WriteErrorResponse message = conn_Write (frame (CHR ''E'') (error_body message))"

definition WriteCommandComplete :: "string \<Rightarrow> conn \<Rightarrow> unit result \<times> conn" where
  "WriteCommandComplete tag =
     conn_Write ([byte_of (CHR ''C'')] @ be_bytes 4 (of_nat (4 + length tag + 1) :: u32) @ cstring tag)"

definition field_bytes :: "field_description \<Rightarrow> byte list" where
  "field_bytes f =
     cstring (fd_Name f) @ be_bytes 4 (0 :: u32) @ be_bytes 2 (0 :: u16) @ be_bytes 4 (fd_TypeOID f) @
     be_bytes 2 (fd_TypeSize f) @ be_bytes 4 (- 1 :: u32) @ be_bytes 2 (0 :: u16)"

definition description_body :: "field_description list \<Rightarrow> byte list" where
  "description_body fds = be_bytes 2 (of_nat (length fds) :: u16) @ concat (map field_bytes fds)"

definition WriteRowDescription :: "field_description list \<Rightarrow> conn \<Rightarrow> unit result \<times> conn" where
  "WriteRowDescription fds = conn_Write (frame (CHR ''T'') (description_body fds))"

text \<open>The loop over the values: \<open>nulls[i]\<close> panics when there are fewer flags than values.\<close>

fun row_cells :: "string list \<Rightarrow> bool list \<Rightarrow> byte list result" where
  "row_cells [] nulls = Ok []"
| "row_cells (v # vs) [] = Panic"
| "row_cells (v # vs) (b # bs) =
     bind (row_cells vs bs) (\<lambda>cells.
       Ok ((if b then be_bytes 4 (- 1 :: u32) else be_bytes 4 (of_nat (length v) :: u32) @ bytes_of_string v) @ cells))"

definition WriteDataRow :: "string list \<Rightarrow> bool list \<Rightarrow> conn \<Rightarrow> unit result \<times> conn" where
  "WriteDataRow vals nulls c =
     (case row_cells vals nulls of
        Ok cells \<Rightarrow> conn_Write (frame (CHR ''D'') (be_bytes 2 (of_nat (length vals) :: u16) @ cells)) c
      | Err e \<Rightarrow> (Err e, c)
      | Panic \<Rightarrow> (Panic, c))"

section \<open>Reading what was framed\<close>

lemma ReadFull_append:
  "conn_in c = bs @ rs \<Longrightarrow> length bs = n \<Longrightarrow> ReadFull n c = (Ok bs, c\<lparr>conn_in := rs\<rparr>)"
  by (simp add: ReadFull_def)

lemma ReadFull_short: "length (conn_in c) < n \<Longrightarrow> ReadFull n c = (Err ErrReadConn, c\<lparr>conn_in := []\<rparr>)"
  by (simp add: ReadFull_def)

lemma unat_length_field: "4 + n < 2 ^ 32 \<Longrightarrow> unat ((of_nat (4 + n) :: u32) - 4) = n"
  by (simp add: unat_of_nat_small)

lemma ReadMessage_frame:
  assumes "conn_in c = frame ty body @ rs" and "4 + length body < 2 ^ 32"
  shows "ReadMessage c = (Ok (byte_of ty, body), c\<lparr>conn_in := rs\<rparr>)"
proof -
  let ?l = "be_bytes 4 (of_nat (4 + length body) :: u32)"
  have "ReadFull 1 c = (Ok [byte_of ty], c\<lparr>conn_in := ?l @ body @ rs\<rparr>)"
    using assms(1) by (intro ReadFull_append) (simp_all add: frame_def)
  moreover have "ReadFull 4 (c\<lparr>conn_in := ?l @ body @ rs\<rparr>) = (Ok ?l, c\<lparr>conn_in := body @ rs\<rparr>)"
    by (subst ReadFull_append [where bs = ?l and rs = "body @ rs"]) simp_all
  moreover have "ReadFull (length body) (c\<lparr>conn_in := body @ rs\<rparr>) = (Ok body, c\<lparr>conn_in := rs\<rparr>)"
    by (subst ReadFull_append [where bs = body and rs = rs]) simp_all
  moreover have "unat ((be_word ?l :: u32) - 4) = length body"
    using unat_length_field [OF assms(2)] by simp
  ultimately show ?thesis by (simp only: ReadMessage_def cbind.simps nth_Cons_0)
qed

lemma writers_frame:
  "WriteAuthenticationOk = conn_Write (frame (CHR ''R'') (be_bytes 4 (0 :: u32)))"
  "WriteParameterStatus k v = conn_Write (frame (CHR ''S'') (cstring k @ cstring v))"
  "WriteBackendKeyData pid key = conn_Write (frame (CHR ''K'') (be_bytes 4 pid @ be_bytes 4 key))"
  "WriteReadyForQuery st = conn_Write (frame (CHR ''Z'') [st])"
  "WriteErrorResponse t = conn_Write (frame (CHR ''E'') (error_body t))"
  "WriteCommandComplete t = conn_Write (frame (CHR ''C'') (cstring t))"
  "WriteRowDescription fds = conn_Write (frame (CHR ''T'') (description_body fds))"
  by (simp_all add: WriteAuthenticationOk_def WriteParameterStatus_def WriteBackendKeyData_def WriteReadyForQuery_def
      WriteErrorResponse_def WriteCommandComplete_def WriteRowDescription_def frame_def cstring_def add_ac)

lemma conn_Write_ok:
  "\<not> conn_faults c (conn_writes c) \<Longrightarrow>
     conn_Write bs c = (Ok (), c\<lparr>conn_out := conn_out c @ bs, conn_writes := Suc (conn_writes c)\<rparr>)"
  by (simp add: conn_Write_def)

section \<open>Rows and their descriptions\<close>

text \<open>How a client reads the cells of a \<open>DataRow\<close> and the fields of a \<open>RowDescription\<close>.\<close>

fun decode_cells :: "nat \<Rightarrow> byte list \<Rightarrow> string option list option" where
  "decode_cells 0 bs = (if bs = [] then Some [] else None)"
| "decode_cells (Suc n) bs =
     (let len = be_word (take 4 bs) :: u32; bs' = drop 4 bs
      in if len = - 1 then map_option ((#) None) (decode_cells n bs')
         else map_option ((#) (Some (string_of_bytes (take (unat len) bs')))) (decode_cells n (drop (unat len) bs')))"

definition decode_row :: "byte list \<Rightarrow> string option list option" where
  "decode_row payload = decode_cells (unat (be_word (take 2 payload) :: u16)) (drop 2 payload)"

fun decode_fields :: "nat \<Rightarrow> byte list \<Rightarrow> field_description list option" where
  "decode_fields 0 bs = (if bs = [] then Some [] else None)"
| "decode_fields (Suc n) bs =
     (case index_zero bs of
        None \<Rightarrow> None
      | Some i \<Rightarrow>
          (let bs' = drop (Suc i) bs
           in map_option ((#) \<lparr>fd_Name = string_of_bytes (take i bs), fd_TypeOID = be_word (take 4 (drop 6 bs')),
                              fd_TypeSize = be_word (take 2 (drop 10 bs'))\<rparr>)
                (decode_fields n (drop 18 bs'))))"

definition decode_description :: "byte list \<Rightarrow> field_description list option" where
  "decode_description payload = decode_fields (unat (be_word (take 2 payload) :: u16)) (drop 2 payload)"

definition cell :: "string \<Rightarrow> bool \<Rightarrow> string option" where
  "cell v b = (if b then None else Some v)"

lemma unat_minus_1: "unat (- 1 :: u32) = 2 ^ 32 - 1"
  by (simp add: unsigned_minus_1_eq_mask mask_eq_exp_minus_1)

lemma row_cells_decode:
  assumes "length vals = length nulls" and "\<forall>v \<in> set vals. length v < 2 ^ 32 - 1"
  shows "\<exists>cells. row_cells vals nulls = Ok cells \<and> decode_cells (length vals) cells = Some (map2 cell vals nulls) \<and>
     length cells \<le> sum_list (map (\<lambda>v. 4 + length v) vals)"
  using assms
proof (induction vals nulls rule: list_induct2)
  case (Cons v vs b bs)
  then obtain cells where c: "row_cells vs bs = Ok cells" "decode_cells (length vs) cells = Some (map2 cell vs bs)"
    "length cells \<le> sum_list (map (\<lambda>v. 4 + length v) vs)" by auto
  have l: "length v < 2 ^ 32 - 1" using Cons.prems by simp
  then have "unat (of_nat (length v) :: u32) = length v" by (intro unat_of_nat_small) simp
  moreover from this have "(of_nat (length v) :: u32) \<noteq> - 1"
    using l unat_minus_1 by auto
  ultimately show ?case using c by (cases b) (auto simp: cell_def Let_def simp del: be_bytes.simps)
qed simp

lemma index_zero_cstring:
  "CHR 0x00 \<notin> set s \<Longrightarrow> index_zero (bytes_of_string s @ 0 # bs) = Some (length s)"
proof (induction s)
  case (Cons ch s)
  have "(of_char ch :: byte) \<noteq> 0"
  proof
    assume "(of_char ch :: byte) = 0"
    then have "(of_char ch :: nat) = of_char (CHR 0x00)" using unat_of_char_byte [of ch] by simp
    then have "ch = CHR 0x00" by (simp only: of_char_eq_iff)
    then show False using Cons.prems by simp
  qed
  then show ?case using Cons by (simp add: bytes_of_string_def)
qed (simp add: bytes_of_string_def)

lemma decode_fields_bytes:
  "\<forall>f \<in> set fds. CHR 0x00 \<notin> set (fd_Name f) \<Longrightarrow> decode_fields (length fds) (concat (map field_bytes fds)) = Some fds"
proof (induction fds)
  case (Cons f fds)
  let ?t = "be_bytes 4 (0 :: u32) @ be_bytes 2 (0 :: u16) @ be_bytes 4 (fd_TypeOID f) @ be_bytes 2 (fd_TypeSize f) @
     be_bytes 4 (- 1 :: u32) @ be_bytes 2 (0 :: u16)"
  let ?r = "concat (map field_bytes fds)"
  have e: "concat (map field_bytes (f # fds)) = bytes_of_string (fd_Name f) @ 0 # ?t @ ?r"
    by (simp add: field_bytes_def cstring_def)
  have "index_zero (bytes_of_string (fd_Name f) @ 0 # ?t @ ?r) = Some (length (fd_Name f))"
    using Cons.prems by (intro index_zero_cstring) simp
  moreover have "drop (Suc (length (fd_Name f))) (bytes_of_string (fd_Name f) @ 0 # ?t @ ?r) = ?t @ ?r" by simp
  moreover have "take 4 (drop 6 (?t @ ?r)) = be_bytes 4 (fd_TypeOID f)" "take 2 (drop 10 (?t @ ?r)) = be_bytes 2 (fd_TypeSize f)"
    "drop 18 (?t @ ?r) = ?r" by simp_all
  ultimately show ?case
    using Cons unfolding e by (simp add: Let_def del: append_assoc be_bytes.simps)
qed simp

section \<open>Startup\<close>

text \<open>What a client sends: any number of \<open>SSLRequest\<close>s, then its parameters.\<close>

definition ssl_request :: "byte list" where
  "ssl_request = be_bytes 4 (8 :: u32) @ be_bytes 4 SSLRequestCode"

definition params_bytes :: "(string \<times> string) list \<Rightarrow> byte list" where
  "params_bytes params = concat (map (\<lambda>(k, v). cstring k @ cstring v) params) @ [0]"

definition startup_packet :: "(string \<times> string) list \<Rightarrow> byte list" where
  "startup_packet params =
     be_bytes 4 (of_nat (8 + length (params_bytes params)) :: u32) @ be_bytes 4 ProtocolVersion30 @ params_bytes params"

definition params_ok :: "(string \<times> string) list \<Rightarrow> bool" where
  "params_ok params \<longleftrightarrow>
     list_all (\<lambda>(k, v). k \<noteq> [] \<and> list_all (\<lambda>ch. ch \<noteq> CHR 0x00) k \<and> list_all (\<lambda>ch. ch \<noteq> CHR 0x00) v) params \<and>
     8 + length (params_bytes params) < 2 ^ 32"

lemma startup_params_bytes:
  "list_all (\<lambda>(k, v). k \<noteq> [] \<and> list_all (\<lambda>ch. ch \<noteq> CHR 0x00) k \<and> list_all (\<lambda>ch. ch \<noteq> CHR 0x00) v) params \<Longrightarrow>
     startup_params (params_bytes params) m = m ++ map_of (rev params)"
proof (induction params arbitrary: m)
  case Nil
  then show ?case by (simp add: startup_params.simps params_bytes_def)
next
  case (Cons kv params)
  obtain k v where kv: "kv = (k, v)" by (cases kv)
  have k: "k \<noteq> []" "CHR 0x00 \<notin> set k" "CHR 0x00 \<notin> set v" using Cons.prems kv by (auto simp: list_all_iff)
  obtain i where i: "length k = Suc i" using k(1) by (cases k) auto
  let ?r = "bytes_of_string v @ 0 # params_bytes params"
  have e: "params_bytes (kv # params) = bytes_of_string k @ 0 # ?r"
    by (simp add: params_bytes_def kv cstring_def)
  have z: "index_zero (params_bytes (kv # params)) = Some (Suc i)" "index_zero ?r = Some (length v)"
    using index_zero_cstring k i unfolding e by simp_all
  have d: "drop (Suc (Suc i)) (params_bytes (kv # params)) = ?r" "take (Suc i) (params_bytes (kv # params)) = bytes_of_string k"
    "drop (Suc (length v)) ?r = params_bytes params" "take (length v) ?r = bytes_of_string v"
    using i unfolding e by simp_all
  have "startup_params (params_bytes (kv # params)) m = startup_params (params_bytes params) (m(k \<mapsto> v))"
    by (simp add: startup_params.simps [of "params_bytes (kv # params)"] z d del: drop_append take_append)
  then show ?case using Cons kv by (simp add: map_add_def fun_eq_iff split: option.splits)
qed

definition faultless :: "conn \<Rightarrow> bool" where
  "faultless c \<longleftrightarrow> (\<forall>k. \<not> conn_faults c k)"

lemma ReadStartup_params:
  assumes "params_ok params" and "conn_in c = startup_packet params @ rs"
  shows "ReadStartupMessage c =
    (Ok \<lparr>ProtocolVersion = ProtocolVersion30, Parameters = map_of (rev params)\<rparr>, c\<lparr>conn_in := rs\<rparr>)"
proof -
  let ?b = "params_bytes params" let ?l = "be_bytes 4 (of_nat (8 + length ?b) :: u32)" let ?v = "be_bytes 4 ProtocolVersion30"
  have "ReadFull 4 c = (Ok ?l, c\<lparr>conn_in := (?v @ ?b) @ rs\<rparr>)"
    using assms(2) by (intro ReadFull_append) (simp_all add: startup_packet_def)
  moreover have "ReadFull (4 + length ?b) (c\<lparr>conn_in := (?v @ ?b) @ rs\<rparr>) = (Ok (?v @ ?b), c\<lparr>conn_in := rs\<rparr>)"
    by (subst ReadFull_append [where bs = "?v @ ?b" and rs = rs]) simp_all
  moreover have "unat ((be_word ?l :: u32) - 4) = 4 + length ?b"
    using unat_length_field [of "4 + length ?b"] assms(1) by (simp add: params_ok_def)
  moreover have "take 4 (?v @ ?b) = ?v" "drop 4 (?v @ ?b) = ?b" by simp_all
  moreover have "startup_params ?b Map.empty = map_of (rev params)"
    using startup_params_bytes [of params Map.empty] assms(1) by (simp add: params_ok_def)
  ultimately show ?thesis
    by (subst ReadStartupMessage.simps)
       (simp add: Let_def ProtocolVersion30_def SSLRequestCode_def del: append_assoc be_bytes.simps)
qed

lemma ReadStartup_ssl:
  assumes "conn_in c = ssl_request @ rs"
  shows "ReadStartupMessage c = cbind (conn_Write [byte_of (CHR ''N'')] (c\<lparr>conn_in := rs\<rparr>)) (\<lambda>_ c'. ReadStartupMessage c')"
proof -
  let ?l = "be_bytes 4 (8 :: u32)" and ?v = "be_bytes 4 SSLRequestCode"
  have "ReadFull 4 c = (Ok ?l, c\<lparr>conn_in := ?v @ rs\<rparr>)"
    using assms by (intro ReadFull_append) (simp_all add: ssl_request_def)
  moreover have "ReadFull 4 (c\<lparr>conn_in := ?v @ rs\<rparr>) = (Ok ?v, c\<lparr>conn_in := rs\<rparr>)"
    by (subst ReadFull_append [where bs = ?v and rs = rs]) simp_all
  moreover have "unat ((be_word ?l :: u32) - 4) = 4" by simp
  ultimately show ?thesis
    by (subst ReadStartupMessage.simps) (simp add: Let_def del: append_assoc be_bytes.simps)
qed

lemma ReadStartup_all:
  assumes "params_ok params" and "faultless c" and "conn_in c = concat (replicate n ssl_request) @ startup_packet params @ rs"
  shows "ReadStartupMessage c =
    (Ok \<lparr>ProtocolVersion = ProtocolVersion30, Parameters = map_of (rev params)\<rparr>,
     c\<lparr>conn_in := rs, conn_out := conn_out c @ replicate n (byte_of (CHR ''N'')), conn_writes := conn_writes c + n\<rparr>)"
  using assms(2,3)
proof (induction n arbitrary: c)
  case 0
  then show ?case using ReadStartup_params [OF assms(1)] by simp
next
  case (Suc n)
  let ?rs = "concat (replicate n ssl_request) @ startup_packet params @ rs"
  let ?c = "c\<lparr>conn_in := ?rs, conn_out := conn_out c @ [byte_of (CHR ''N'')], conn_writes := Suc (conn_writes c)\<rparr>"
  have "ReadStartupMessage c = ReadStartupMessage ?c"
    using ReadStartup_ssl [of c ?rs] Suc.prems by (simp add: conn_Write_ok faultless_def)
  also have "\<dots> = (Ok \<lparr>ProtocolVersion = ProtocolVersion30, Parameters = map_of (rev params)\<rparr>,
     ?c\<lparr>conn_in := rs, conn_out := conn_out ?c @ replicate n (byte_of (CHR ''N'')), conn_writes := conn_writes ?c + n\<rparr>)"
    using Suc.prems(1) by (intro Suc.IH) (simp_all add: faultless_def)
  finally show ?case by simp
qed

section \<open>Properties\<close>

text \<open>The connection on which a client reads what it was sent.\<close>

definition reading :: "byte list \<Rightarrow> conn" where
  "reading bs = \<lparr>conn_in = bs, conn_out = [], conn_faults = (\<lambda>_. False), conn_writes = 0\<rparr>"

text \<open>C27. The startup handshake: after any number of SSL requests, each declined with one \<open>N\<close>, the server reads the client's parameters exactly (the last value of a repeated key counts) and leaves the bytes behind the packet unread.\<close>

theorem protocol_startup:
  assumes "params_ok params" and "faultless c"
    and "conn_in c = concat (replicate n ssl_request) @ startup_packet params @ rs"
  shows "\<exists>c'. ReadStartupMessage c = (Ok \<lparr>ProtocolVersion = ProtocolVersion30, Parameters = map_of (rev params)\<rparr>, c') \<and>
    conn_in c' = rs \<and> conn_out c' = conn_out c @ replicate n (byte_of (CHR ''N''))"
  using ReadStartup_all [OF assms] by simp

theorem protocol_startup_witness:
  "let params = [(''user'', ''postgres''), (''database'', ''postgres'')];
       c = reading (ssl_request @ startup_packet params @ [88])
   in \<exists>c'. ReadStartupMessage c = (Ok \<lparr>ProtocolVersion = ProtocolVersion30, Parameters = map_of (rev params)\<rparr>, c') \<and>
        conn_in c' = [88] \<and> conn_out c' = [78]"
proof -
  let ?params = "[(''user'', ''postgres''), (''database'', ''postgres'')]"
  let ?c = "reading (ssl_request @ startup_packet ?params @ [88])"
  have "params_ok ?params" by (simp add: params_ok_def params_bytes_def cstring_def)
  moreover have "faultless ?c" by (simp add: faultless_def reading_def)
  moreover have "conn_in ?c = concat (replicate 1 ssl_request) @ startup_packet ?params @ [88]" by (simp add: reading_def)
  moreover have "conn_out ?c @ replicate 1 (byte_of (CHR ''N'')) = [78]" by (simp add: reading_def byte_of_def)
  ultimately show ?thesis using protocol_startup [of ?params ?c 1 "[88]"] by (simp only: Let_def)
qed

text \<open>C28. Every message the server writes is one frame with a right length field: whoever reads the stream with \<open>ReadMessage\<close> gets the type byte and the body, and is left at the start of the next message.\<close>

theorem protocol_messages:
  assumes "msg \<in> {(WriteAuthenticationOk, CHR ''R'', be_bytes 4 (0 :: u32)), (WriteParameterStatus k v, CHR ''S'', cstring k @ cstring v),
      (WriteBackendKeyData pid key, CHR ''K'', be_bytes 4 pid @ be_bytes 4 key), (WriteReadyForQuery st, CHR ''Z'', [st]),
      (WriteErrorResponse t, CHR ''E'', error_body t), (WriteCommandComplete t, CHR ''C'', cstring t),
      (WriteRowDescription fds, CHR ''T'', description_body fds)}"
    and "msg = (write, ty, body)" and "4 + length body < 2 ^ 32" and "\<not> conn_faults c (conn_writes c)"
  shows "\<exists>bs c'. write c = (Ok (), c') \<and> conn_out c' = conn_out c @ bs \<and>
    ReadMessage (reading (bs @ rs)) = (Ok (byte_of ty, body), reading rs)"
proof -
  have "write = conn_Write (frame ty body)" using assms(1,2) by (auto simp: writers_frame)
  then have "write c = (Ok (), c\<lparr>conn_out := conn_out c @ frame ty body, conn_writes := Suc (conn_writes c)\<rparr>)"
    using assms(4) by (simp add: conn_Write_ok)
  moreover have "ReadMessage (reading (frame ty body @ rs)) = (Ok (byte_of ty, body), reading rs)"
    using ReadMessage_frame [OF _ assms(3), of "reading (frame ty body @ rs)" ty rs] by (simp add: reading_def)
  ultimately show ?thesis by auto
qed

theorem protocol_messages_witness:
  "\<exists>bs c'. WriteCommandComplete ''BEGIN'' (reading []) = (Ok (), c') \<and> conn_out c' = bs \<and>
    ReadMessage (reading (bs @ [1, 2])) = (Ok (byte_of (CHR ''C''), cstring ''BEGIN''), reading [1, 2])"
  using protocol_messages [where msg = "(WriteCommandComplete ''BEGIN'', CHR ''C'', cstring ''BEGIN'')" and t = "''BEGIN''"
      and c = "reading []" and rs = "[1, 2]"]
  by (simp add: reading_def cstring_def)

text \<open>C26. Result sets reach the client intact: it reads the cells of a \<open>DataRow\<close>, \<open>NULL\<close>s apart from empty strings, and the names, type OIDs and sizes of a \<open>RowDescription\<close> as the server had them.\<close>

theorem protocol_rows:
  assumes "length vals = length nulls" and "length vals < 2 ^ 16" and "sum_list (map (\<lambda>v. 4 + length v) vals) < 2 ^ 32 - 6"
    and "length fds < 2 ^ 16" and "\<forall>f \<in> set fds. CHR 0x00 \<notin> set (fd_Name f)"
    and "faultless c"
  shows "(\<exists>bs c' payload. WriteDataRow vals nulls c = (Ok (), c') \<and> conn_out c' = conn_out c @ bs \<and>
      ReadMessage (reading bs) = (Ok (byte_of (CHR ''D''), payload), reading []) \<and>
      decode_row payload = Some (map2 cell vals nulls)) \<and>
    decode_description (description_body fds) = Some fds"
proof
  have "v \<in> set vals \<Longrightarrow> length v < 2 ^ 32 - 1" for v
    using assms(3) member_le_sum_list [of "4 + length v" "map (\<lambda>v. 4 + length v) vals"] by fastforce
  then obtain cells where c: "row_cells vals nulls = Ok cells" "decode_cells (length vals) cells = Some (map2 cell vals nulls)"
    "length cells \<le> sum_list (map (\<lambda>v. 4 + length v) vals)"
    using row_cells_decode [OF assms(1)] by blast
  let ?b = "be_bytes 2 (of_nat (length vals) :: u16) @ cells"
  have w: "WriteDataRow vals nulls c =
      (Ok (), c\<lparr>conn_out := conn_out c @ frame (CHR ''D'') ?b, conn_writes := Suc (conn_writes c)\<rparr>)"
    using c(1) assms(6) by (simp add: WriteDataRow_def conn_Write_ok faultless_def)
  have "4 + length ?b < 2 ^ 32" using c(3) assms(3) by simp
  from ReadMessage_frame [OF _ this, of "reading (frame (CHR ''D'') ?b)" "CHR ''D''" "[]"]
  have r: "ReadMessage (reading (frame (CHR ''D'') ?b)) = (Ok (byte_of (CHR ''D''), ?b), reading [])" by (simp add: reading_def)
  have "unat (of_nat (length vals) :: u16) = length vals" using assms(2) by (intro unat_of_nat_small) simp
  then have d: "decode_row ?b = Some (map2 cell vals nulls)" using c(2) by (simp add: decode_row_def del: be_bytes.simps)
  show "\<exists>bs c' payload. WriteDataRow vals nulls c = (Ok (), c') \<and> conn_out c' = conn_out c @ bs \<and>
      ReadMessage (reading bs) = (Ok (byte_of (CHR ''D''), payload), reading []) \<and>
      decode_row payload = Some (map2 cell vals nulls)"
    using w r d by auto
  have "unat (of_nat (length fds) :: u16) = length fds" using assms(4) by (intro unat_of_nat_small) simp
  then show "decode_description (description_body fds) = Some fds"
    using decode_fields_bytes [OF assms(5)] by (simp add: decode_description_def description_body_def del: be_bytes.simps)
qed

theorem protocol_rows_witness:
  "decode_description (description_body [\<lparr>fd_Name = ''id'', fd_TypeOID = 23, fd_TypeSize = 4\<rparr>]) =
     Some [\<lparr>fd_Name = ''id'', fd_TypeOID = 23, fd_TypeSize = 4\<rparr>] \<and>
   (\<exists>bs c' payload. WriteDataRow [''7'', ''''] [False, True] (reading []) = (Ok (), c') \<and> conn_out c' = bs \<and>
      ReadMessage (reading bs) = (Ok (byte_of (CHR ''D''), payload), reading []) \<and>
      decode_row payload = Some [Some ''7'', None])"
  using protocol_rows [of "[''7'', '''']" "[False, True]" "[\<lparr>fd_Name = ''id'', fd_TypeOID = 23, fd_TypeSize = 4\<rparr>]" "reading []"]
  by (simp add: reading_def faultless_def cell_def)

text \<open>C29. A startup packet that declares a length from 4 to 7 makes the server panic (the handler's \<open>recover\<close> drops the connection), and a message whose declared length is below 4 wraps around: the server waits for more than four billion bytes and fails when the client sends fewer.\<close>

theorem protocol_bad_lengths:
  assumes "4 \<le> len" and "len < 8" and "conn_in c = be_bytes 4 (of_nat len :: u32) @ body @ rs" and "length body = len - 4"
    and "bad < 4" and "conn_in m = ty # be_bytes 4 (of_nat bad :: u32) @ us" and "length us < 2 ^ 32 - 4 + bad"
  shows "fst (ReadStartupMessage c) = Panic \<and> fst (ReadMessage m) = Err ErrReadConn"
proof
  let ?l = "be_bytes 4 (of_nat len :: u32)" let ?m = "be_bytes 4 (of_nat bad :: u32)"
  have "ReadFull 4 c = (Ok ?l, c\<lparr>conn_in := body @ rs\<rparr>)"
    using assms(3) by (intro ReadFull_append) simp_all
  moreover have "ReadFull (len - 4) (c\<lparr>conn_in := body @ rs\<rparr>) = (Ok body, c\<lparr>conn_in := rs\<rparr>)"
    using assms(4) by (subst ReadFull_append [where bs = body and rs = rs]) simp_all
  moreover have "unat ((be_word ?l :: u32) - 4) = len - 4"
    using unat_length_field [of "len - 4"] assms(1,2) by (simp add: of_nat_diff)
  moreover have "length body < 4" using assms(2,4) by simp
  ultimately show "fst (ReadStartupMessage c) = Panic"
    by (subst ReadStartupMessage.simps) (simp add: Let_def del: be_bytes.simps)
  have "ReadFull 1 m = (Ok [ty], m\<lparr>conn_in := ?m @ us\<rparr>)"
    using assms(6) by (intro ReadFull_append) simp_all
  moreover have "ReadFull 4 (m\<lparr>conn_in := ?m @ us\<rparr>) = (Ok ?m, m\<lparr>conn_in := us\<rparr>)"
    by (subst ReadFull_append [where bs = ?m and rs = us]) simp_all
  moreover have "unat ((be_word ?m :: u32) - 4) = 2 ^ 32 - 4 + bad"
  proof -
    have "bad \<in> {0, 1, 2, 3}" using assms(5) by auto
    then show ?thesis by (elim insertE emptyE) (simp_all add: unat_minus_1)
  qed
  ultimately show "fst (ReadMessage m) = Err ErrReadConn"
    using assms(7) by (simp add: ReadMessage_def ReadFull_short del: be_bytes.simps)
qed

theorem protocol_bad_lengths_witness:
  "fst (ReadStartupMessage (reading [0, 0, 0, 5, 9])) = Panic \<and> fst (ReadMessage (reading [81, 0, 0, 0, 0, 65])) = Err ErrReadConn"
  by (rule protocol_bad_lengths [where len = 5 and bad = 0 and body = "[9]" and rs = "[]" and ty = 81 and us = "[65]"])
     (simp_all add: reading_def be_bytes_numeral)

end
