(* ===== verification/Server.thy ===== *)
theory Server
  imports Database Safety SqlPrint Protocol
begin

text \<open>
  The connection handler of \<open>internal/server/server.go\<close>. \<open>handle_query\<close> is the case \<open>'Q'\<close> of the
  message switch, \<open>handle_message\<close> the switch, \<open>message_loop\<close> the loop around it and
  \<open>handleConnection\<close> the whole goroutine with its deferred calls. \<open>error_text\<close> stands for the
  text of an \<open>error\<close>, which the model keeps as a value of \<open>go_error\<close>, and \<open>secret\<close> for the
  random number of \<open>rand.Int32\<close>. The outcome \<open>Ok True\<close> of a message is the next iteration,
  \<open>Ok False\<close> the return, and \<open>Panic\<close> a panic, which ends the goroutine through \<open>recover\<close>.
\<close>

section \<open>Replies\<close>

definition txnStatusByte :: "txn_state \<Rightarrow> byte" where
  "txnStatusByte st =
     (case st of TxnInTransaction \<Rightarrow> byte_of (CHR ''T'') | TxnFailed \<Rightarrow> byte_of (CHR ''E'') | TxnIdle \<Rightarrow> byte_of (CHR ''I''))"

text \<open>The fields of a \<open>RowDescription\<close>; \<open>t.Size\<close> of a missing type is a nil dereference.\<close>

fun result_fields :: "column_def list \<Rightarrow> field_description list result" where
  "result_fields [] = Ok []"
| "result_fields (col # cols) =
     (case TypeByOID (col_TypeOID col) of
        None \<Rightarrow> Panic
      | Some t \<Rightarrow>
          bind (result_fields cols) (\<lambda>fs.
            Ok (\<lparr>fd_Name = col_Name col, fd_TypeOID = col_TypeOID col, fd_TypeSize = word_of_int (type_Size t)\<rparr> # fs)))"

text \<open>The texts and null flags of a row; an error of \<open>TextEncode\<close> is dropped and leaves the empty string.\<close>

fun row_text :: "column_def list \<Rightarrow> any list \<Rightarrow> (string list \<times> bool list) result" where
  "row_text cols [] = Ok ([], [])"
| "row_text cols (None # row) = bind (row_text (tl cols) row) (\<lambda>(vals, nulls). Ok ([] # vals, True # nulls))"
| "row_text [] (Some v # row) = Panic"
| "row_text (col # cols) (Some v # row) =
     (case TypeByOID (col_TypeOID col) of
        None \<Rightarrow> Panic
      | Some t \<Rightarrow>
          (case TextEncode t (Some v) of
             Panic \<Rightarrow> Panic
           | r \<Rightarrow>
               bind (row_text cols row) (\<lambda>(vals, nulls).
                 Ok ((case r of Ok s \<Rightarrow> s | _ \<Rightarrow> []) # vals, False # nulls))))"

text \<open>A write whose error the caller drops.\<close>

definition ignoring :: "(conn \<Rightarrow> unit result \<times> conn) \<Rightarrow> conn \<Rightarrow> unit result \<times> conn" where
  "ignoring w c = (case w c of (Panic, c') \<Rightarrow> (Panic, c') | (_, c') \<Rightarrow> (Ok (), c'))"

fun send_rows :: "column_def list \<Rightarrow> any list list \<Rightarrow> conn \<Rightarrow> unit result \<times> conn" where
  "send_rows cols [] c = (Ok (), c)"
| "send_rows cols (row # rows) c =
     (case row_text cols row of
        Ok (vals, nulls) \<Rightarrow> cbind (ignoring (WriteDataRow vals nulls) c) (\<lambda>_ c1. send_rows cols rows c1)
      | Err e \<Rightarrow> (Err e, c)
      | Panic \<Rightarrow> (Panic, c))"

definition send_result :: "exec_result \<Rightarrow> txn_state \<Rightarrow> conn \<Rightarrow> unit result \<times> conn" where
  "send_result res st c =
     cbind (if res_Rows res \<noteq> []
            then (case result_fields (res_Columns res) of
                    Ok fs \<Rightarrow> cbind (ignoring (WriteRowDescription fs) c) (\<lambda>_ c1. send_rows (res_Columns res) (res_Rows res) c1)
                  | Err e \<Rightarrow> (Err e, c)
                  | Panic \<Rightarrow> (Panic, c))
            else (Ok (), c)) (\<lambda>_ c2.
     cbind (ignoring (WriteCommandComplete (res_Tag res)) c2) (\<lambda>_ c3.
       ignoring (WriteReadyForQuery (txnStatusByte st)) c3))"

definition send_error :: "string \<Rightarrow> txn_state \<Rightarrow> conn \<Rightarrow> unit result \<times> conn" where
  "send_error text st c =
     cbind (ignoring (WriteErrorResponse text) c) (\<lambda>_ c1. ignoring (WriteReadyForQuery (txnStatusByte st)) c1)"

definition send_complete :: "string \<Rightarrow> txn_state \<Rightarrow> conn \<Rightarrow> unit result \<times> conn" where
  "send_complete tag st c =
     cbind (ignoring (WriteCommandComplete tag) c) (\<lambda>_ c1. ignoring (WriteReadyForQuery (txnStatusByte st)) c1)"

section \<open>One message\<close>

text \<open>\<open>parser.NewParser(sql).Parse()\<close>; the parser always returns, so the last case is never taken.\<close>

definition Parse :: "string \<Rightarrow> statement result" where
  "Parse sql = (case parse_sql sql of Some r \<Rightarrow> r | None \<Rightarrow> Panic)"

definition fail_state :: "conn_transaction \<Rightarrow> conn_transaction" where
  "fail_state ct = (if ct_State ct = TxnInTransaction then ct\<lparr>ct_State := TxnFailed\<rparr> else ct)"

definition idle_txn :: conn_transaction where
  "idle_txn = \<lparr>ct_State = TxnIdle, ct_XID = 0\<rparr>"

type_synonym handled = "bool result \<times> conn_transaction \<times> db \<times> conn"

definition continue :: "conn_transaction \<Rightarrow> db \<Rightarrow> unit result \<times> conn \<Rightarrow> handled" where
  "continue ct d out = (case out of (r, c) \<Rightarrow> (bind r (\<lambda>_. Ok True), ct, d, c))"

definition handle_begin :: "conn_transaction \<Rightarrow> db \<Rightarrow> conn \<Rightarrow> handled" where
  "handle_begin ct d c =
     (if ct_State ct = TxnInTransaction
      then continue ct d (cbind (ignoring (WriteErrorResponse ''WARNING: Already in transaction'') c) (\<lambda>_ c1.
             send_complete ''BEGIN'' (ct_State ct) c1))
      else (case NextXID (db_txn d) of (xid, tm) \<Rightarrow>
              continue \<lparr>ct_State = TxnInTransaction, ct_XID = xid\<rparr> (d\<lparr>db_txn := tm\<rparr>)
                (send_complete ''BEGIN'' TxnInTransaction c)))"

definition handle_commit :: "conn_transaction \<Rightarrow> db \<Rightarrow> conn \<Rightarrow> handled" where
  "handle_commit ct d c =
     (let d' = (if ct_State ct = TxnInTransaction then d\<lparr>db_txn := Commit (ct_XID ct) (db_txn d)\<rparr>
                else if ct_State ct = TxnFailed then d\<lparr>db_txn := Abort (ct_XID ct) (db_txn d)\<rparr> else d)
      in continue idle_txn d' (send_complete ''COMMIT'' TxnIdle c))"

definition handle_rollback :: "conn_transaction \<Rightarrow> db \<Rightarrow> conn \<Rightarrow> handled" where
  "handle_rollback ct d c =
     (let d' = (if ct_State ct = TxnInTransaction \<or> ct_State ct = TxnFailed
                then d\<lparr>db_txn := Abort (ct_XID ct) (db_txn d)\<rparr> else d)
      in continue idle_txn d' (send_complete ''ROLLBACK'' TxnIdle c))"

definition handle_execute :: "(go_error \<Rightarrow> string) \<Rightarrow> statement \<Rightarrow> conn_transaction \<Rightarrow> db \<Rightarrow> conn \<Rightarrow> handled" where
  "handle_execute error_text st ct d c =
     (if ct_State ct = TxnFailed then continue ct d (send_error ''ERROR: Transaction failed'' (ct_State ct) c)
      else (case Execute \<lparr>ex_txnXID = ct_XID ct, ex_snapShot = TakeSnapshot (db_txn d)\<rparr> st d of
              (Ok res, d') \<Rightarrow> continue ct d' (send_result res (ct_State ct) c)
            | (Err e, d') \<Rightarrow> continue (fail_state ct) d' (send_error (error_text e) (ct_State (fail_state ct)) c)
            | (Panic, d') \<Rightarrow> (Panic, ct, d', c)))"

definition handle_query :: "(go_error \<Rightarrow> string) \<Rightarrow> string \<Rightarrow> conn_transaction \<Rightarrow> db \<Rightarrow> conn \<Rightarrow> handled" where
  "handle_query error_text sql ct d c =
     (case Parse sql of
        Err e \<Rightarrow> continue (fail_state ct) d (send_error (error_text e) (ct_State (fail_state ct)) c)
      | Panic \<Rightarrow> (Panic, ct, d, c)
      | Ok st \<Rightarrow>
          (case st of
             BeginStatement \<Rightarrow> handle_begin ct d c
           | CommitStatement \<Rightarrow> handle_commit ct d c
           | RollbackStatement \<Rightarrow> handle_rollback ct d c
           | _ \<Rightarrow> handle_execute error_text st ct d c))"

definition handle_message ::
    "(go_error \<Rightarrow> string) \<Rightarrow> byte \<Rightarrow> byte list \<Rightarrow> conn_transaction \<Rightarrow> db \<Rightarrow> conn \<Rightarrow> handled" where
  "handle_message error_text ty message ct d c =
     (if ty = byte_of (CHR ''Q'')
      then if message = [] then (Panic, ct, d, c)
           else handle_query error_text (string_of_bytes (butlast message)) ct d c
      else if ty = byte_of (CHR ''X'') then (Ok False, ct, d, c)
      else continue ct d (send_error ''Unsupported message type'' (ct_State ct) c))"

section \<open>The goroutine of a connection\<close>

lemma conn_in_ignoring: "conn_in (snd (ignoring w c)) = conn_in (snd (w c))"
  by (auto simp: ignoring_def split: prod.splits result.splits)

lemma conn_in_Write [simp]: "conn_in (snd (conn_Write bs c)) = conn_in c"
  by (simp add: conn_Write_def)

lemma conn_in_cbind:
  "conn_in (snd m) = k \<Longrightarrow> (\<And>x c. conn_in (snd (f x c)) = conn_in c) \<Longrightarrow> conn_in (snd (cbind m f)) = k"
  by (cases m; cases "fst m") auto

lemma conn_in_continue: "conn_in (snd (snd (snd (continue ct d out)))) = conn_in (snd out)"
  by (simp add: continue_def split: prod.splits)

lemma conn_in_send:
  "conn_in (snd (send_error msg st c)) = conn_in c" "conn_in (snd (send_complete tag st c)) = conn_in c"
  by (simp_all add: send_error_def send_complete_def writers_frame conn_in_cbind conn_in_ignoring)

lemma conn_in_send_rows: "conn_in (snd (send_rows cols rows c)) = conn_in c"
proof (induction rows arbitrary: c)
  case (Cons row rows)
  have "conn_in (snd (ignoring (WriteDataRow vals nulls) c)) = conn_in c" for vals nulls
    by (simp add: conn_in_ignoring WriteDataRow_def split: result.splits)
  then show ?case using Cons by (auto intro!: conn_in_cbind split: result.splits)
qed simp

lemma conn_in_send_result: "conn_in (snd (send_result res st c)) = conn_in c"
  by (auto simp: send_result_def conn_in_send_rows conn_in_ignoring writers_frame intro!: conn_in_cbind split: result.splits)

lemma handle_message_in: "conn_in (snd (snd (snd (handle_message et ty msg ct d c)))) = conn_in c"
proof -
  have b: "conn_in (snd (snd (snd (handle_begin ct d c)))) = conn_in c"
    by (auto simp: handle_begin_def conn_in_continue conn_in_send conn_in_ignoring writers_frame intro!: conn_in_cbind split: prod.splits)
  have e: "conn_in (snd (snd (snd (handle_execute et st ct d c)))) = conn_in c" for st
    by (auto simp: handle_execute_def conn_in_continue conn_in_send conn_in_send_result split: prod.splits result.splits)
  show ?thesis
    using b e by (auto simp: handle_message_def handle_query_def handle_commit_def handle_rollback_def Let_def conn_in_continue conn_in_send
        split: result.splits statement.splits)
qed

lemma handle_message_in_eq: "(r, ct', d', c') = handle_message et ty msg ct d c \<Longrightarrow> conn_in c' = conn_in c"
  using handle_message_in [of et ty msg ct d c] by (metis snd_conv)

lemma ReadMessage_shrinks: "ReadMessage c = (Ok m, c') \<Longrightarrow> length (conn_in c') < length (conn_in c)"
proof -
  assume a: "ReadMessage c = (Ok m, c')"
  obtain r1 c1 where 1: "ReadFull 1 c = (r1, c1)" by (cases "ReadFull 1 c")
  then obtain tb where tb: "r1 = Ok tb" using a by (cases r1) (auto simp: ReadMessage_def)
  obtain r2 c2 where 2: "ReadFull 4 c1 = (r2, c2)" by (cases "ReadFull 4 c1")
  then obtain lb where lb: "r2 = Ok lb" using a 1 tb by (cases r2) (auto simp: ReadMessage_def)
  let ?n = "unat ((be_word lb :: u32) - 4)"
  obtain r3 c3 where 3: "ReadFull ?n c2 = (r3, c3)" by (cases "ReadFull ?n c2")
  then obtain p where p: "r3 = Ok p" "c' = c3" using a 1 2 tb lb by (cases r3) (auto simp: ReadMessage_def)
  show ?thesis
    using ReadFull_shrinks [of 1 c tb c1] ReadFull_shrinks [of 4 c1 lb c2] ReadFull_shrinks [of ?n c2 p c3] 1 2 3 tb lb p by simp
qed

function message_loop ::
    "(go_error \<Rightarrow> string) \<Rightarrow> conn_transaction \<Rightarrow> db \<Rightarrow> conn \<Rightarrow> unit result \<times> conn_transaction \<times> db \<times> conn" where
  "message_loop error_text ct d c =
     (case ReadMessage c of
        (Err e, c1) \<Rightarrow> (Ok (), ct, d, c1)
      | (Panic, c1) \<Rightarrow> (Panic, ct, d, c1)
      | (Ok (ty, message), c1) \<Rightarrow>
          (case handle_message error_text ty message ct d c1 of
             (Ok True, ct', d', c') \<Rightarrow> message_loop error_text ct' d' c'
           | (Ok False, ct', d', c') \<Rightarrow> (Ok (), ct', d', c')
           | (Err e, ct', d', c') \<Rightarrow> (Err e, ct', d', c')
           | (Panic, ct', d', c') \<Rightarrow> (Panic, ct', d', c')))"
  by pat_completeness auto
termination
  by (relation "measure (\<lambda>(et, ct, d, c). length (conn_in c))")
     (auto dest!: handle_message_in_eq ReadMessage_shrinks [OF sym])

declare message_loop.simps [simp del]

record server =
  srv_db :: db
  srv_activeConn :: int
  srv_nextConnID :: u32

definition greeting_params :: "(string \<times> string) list" where
  "greeting_params =
     [(''server_version'', ''16.0''), (''client_encoding'', ''UTF8''), (''server_encoding'', ''UTF8''),
      (''DateStyle'', ''ISO, MDY''), (''integer_datetimes'', ''on'')]"

fun write_params :: "(string \<times> string) list \<Rightarrow> conn \<Rightarrow> unit result \<times> conn" where
  "write_params [] c = (Ok (), c)"
| "write_params ((k, v) # params) c = cbind (WriteParameterStatus k v c) (\<lambda>_ c1. write_params params c1)"

text \<open>The greeting: unlike the replies it stops at the first write that fails.\<close>

definition greet :: "u32 \<Rightarrow> u32 \<Rightarrow> conn \<Rightarrow> unit result \<times> conn" where
  "greet connID secret c =
     cbind (WriteAuthenticationOk c) (\<lambda>_ c1.
     cbind (write_params greeting_params c1) (\<lambda>_ c2.
     cbind (WriteBackendKeyData connID secret c2) (\<lambda>_ c3.
       WriteReadyForQuery (byte_of (CHR ''I'')) c3)))"

text \<open>
  The goroutine: the count goes up at its start and down at its end, however it ends, and no
  other client's message comes in between its own.
\<close>

definition handleConnection :: "(go_error \<Rightarrow> string) \<Rightarrow> u32 \<Rightarrow> server \<Rightarrow> conn \<Rightarrow> server \<times> conn" where
  "handleConnection error_text secret s c =
     (let s1 = s\<lparr>srv_activeConn := srv_activeConn s + 1, srv_nextConnID := srv_nextConnID s + 1\<rparr>;
          leave = (\<lambda>s. s\<lparr>srv_activeConn := srv_activeConn s - 1\<rparr>)
      in case ReadStartupMessage c of
           (Ok m, c1) \<Rightarrow>
             (case greet (srv_nextConnID s1) secret c1 of
                (Ok _, c2) \<Rightarrow>
                  (case message_loop error_text idle_txn (srv_db s1) c2 of
                     (_, _, d, c3) \<Rightarrow> (leave (s1\<lparr>srv_db := d\<rparr>), c3))
              | (_, c2) \<Rightarrow> (leave s1, c2))
         | (_, c1) \<Rightarrow> (leave s1, c1))"

section \<open>What a reply sends\<close>

text \<open>
  \<open>sends w ms\<close>: the writer succeeds, reads nothing, and on a connection whose writes succeed it
  sends exactly the messages \<open>ms\<close>, each a type and a body.
\<close>

definition stream :: "(char \<times> byte list) list \<Rightarrow> byte list" where
  "stream ms = concat (map (\<lambda>(ty, body). frame ty body) ms)"

definition sends :: "(conn \<Rightarrow> unit result \<times> conn) \<Rightarrow> (char \<times> byte list) list \<Rightarrow> bool" where
  "sends w ms \<longleftrightarrow>
     (\<forall>c. fst (w c) = Ok () \<and> conn_in (snd (w c)) = conn_in c \<and> conn_faults (snd (w c)) = conn_faults c \<and>
        (faultless c \<longrightarrow> conn_out (snd (w c)) = conn_out c @ stream ms))"

lemma stream_append [simp]: "stream (ms @ ns) = stream ms @ stream ns"
  by (simp add: stream_def)

lemma sends_write: "sends (ignoring (conn_Write (frame ty body))) [(ty, body)]"
  by (auto simp: sends_def ignoring_def conn_Write_def stream_def faultless_def)

lemma sends_nothing: "sends (\<lambda>c. (Ok (), c)) []"
  by (simp add: sends_def stream_def)

lemma sends_seq:
  assumes "sends w ms" and "sends v ns"
  shows "sends (\<lambda>c. cbind (w c) (\<lambda>_ c1. v c1)) (ms @ ns)"
  unfolding sends_def
proof
  fix c
  obtain c1 where w: "w c = (Ok (), c1)" "conn_in c1 = conn_in c" "conn_faults c1 = conn_faults c"
    "faultless c \<longrightarrow> conn_out c1 = conn_out c @ stream ms"
    using assms(1) by (cases "w c") (auto simp: sends_def dest: spec [of _ c])
  then show "fst (cbind (w c) (\<lambda>_ c1. v c1)) = Ok () \<and> conn_in (snd (cbind (w c) (\<lambda>_ c1. v c1))) = conn_in c \<and>
      conn_faults (snd (cbind (w c) (\<lambda>_ c1. v c1))) = conn_faults c \<and>
      (faultless c \<longrightarrow> conn_out (snd (cbind (w c) (\<lambda>_ c1. v c1))) = conn_out c @ stream (ms @ ns))"
    using assms(2) by (auto simp: sends_def faultless_def dest: spec [of _ c1])
qed

definition ready :: "txn_state \<Rightarrow> char \<times> byte list" where
  "ready st = (CHR ''Z'', [txnStatusByte st])"

lemma sends_ready: "sends (ignoring (WriteReadyForQuery (txnStatusByte st))) [ready st]"
  unfolding writers_frame ready_def by (rule sends_write)

lemma sends_error: "sends (send_error text st) [(CHR ''E'', error_body text), ready st]"
  unfolding send_error_def [abs_def] writers_frame(5)
  using sends_seq [OF sends_write sends_ready] by simp

lemma sends_complete: "sends (send_complete tag st) [(CHR ''C'', cstring tag), ready st]"
  unfolding send_complete_def [abs_def] writers_frame(6)
  using sends_seq [OF sends_write sends_ready] by simp

lemma TextEncode_no_panic: "TypeByOID oid = Some t \<Longrightarrow> TextEncode t v \<noteq> Panic"
  by (auto simp: TypeByOID_eq type_defs split: if_splits option.splits gvalue.splits)

lemma result_fields_ok: "typed cols \<Longrightarrow> \<exists>fs. result_fields cols = Ok fs"
  by (induction cols) (auto simp: typed_def)

lemma row_text_ok:
  "typed cols \<Longrightarrow> length row = length cols \<Longrightarrow>
     \<exists>vals nulls. row_text cols row = Ok (vals, nulls) \<and> length vals = length row \<and> length nulls = length row"
proof (induction cols arbitrary: row)
  case (Cons col cols)
  obtain v row' where row: "row = v # row'" using Cons.prems(2) by (cases row) auto
  obtain t where t: "TypeByOID (col_TypeOID col) = Some t" using Cons.prems(1) by (auto simp: typed_def)
  obtain vals nulls where "row_text cols row' = Ok (vals, nulls)" "length vals = length row'" "length nulls = length row'"
    using Cons.IH [of row'] Cons.prems row by (auto simp: typed_def)
  then show ?case
    using row t TextEncode_no_panic [OF t] by (cases v) (auto split: result.splits)
qed simp

lemma row_cells_ok: "length vals = length nulls \<Longrightarrow> \<exists>cells. row_cells vals nulls = Ok cells"
  by (induction vals nulls rule: list_induct2) auto

lemma sends_rows:
  assumes "typed cols" and "\<forall>row \<in> set rows. length row = length cols"
  shows "\<exists>bs. length bs = length rows \<and> sends (send_rows cols rows) (map (Pair (CHR ''D'')) bs)"
  using assms(2)
proof (induction rows)
  case Nil
  have "send_rows cols [] = (\<lambda>c. (Ok (), c))" by (rule ext) simp
  then show ?case using sends_nothing by simp
next
  case (Cons row rows)
  obtain vals nulls where r: "row_text cols row = Ok (vals, nulls)" "length vals = length row" "length nulls = length row"
    using row_text_ok [OF assms(1), of row] Cons.prems by auto
  obtain cells where c: "row_cells vals nulls = Ok cells" using row_cells_ok [of vals nulls] r by auto
  let ?b = "be_bytes 2 (of_nat (length vals) :: u16) @ cells"
  have w: "WriteDataRow vals nulls = conn_Write (frame (CHR ''D'') ?b)"
    by (rule ext) (simp add: WriteDataRow_def c)
  have e: "send_rows cols (row # rows) = (\<lambda>c. cbind (ignoring (conn_Write (frame (CHR ''D'') ?b)) c) (\<lambda>_ c1. send_rows cols rows c1))"
    by (rule ext) (simp add: r(1) w)
  obtain bs where "length bs = length rows" "sends (send_rows cols rows) (map (Pair (CHR ''D'')) bs)"
    using Cons by auto
  then show ?case
    using sends_seq [OF sends_write [of "CHR ''D''" ?b]] unfolding e by (intro exI [of _ "?b # bs"]) fastforce
qed

text \<open>A result: the description and the rows when there are any, then the tag.\<close>

lemma sends_tag: "sends (\<lambda>c. cbind (ignoring (WriteCommandComplete tag) c) (\<lambda>_ c1. ignoring (WriteReadyForQuery (txnStatusByte st)) c1))
    [(CHR ''C'', cstring tag), ready st]"
  using sends_seq [OF sends_write [of "CHR ''C''" "cstring tag"] sends_ready [of st]] by (simp add: writers_frame(6))

lemma sends_result_empty:
  "res_Rows res = [] \<Longrightarrow> sends (send_result res st) [(CHR ''C'', cstring (res_Tag res)), ready st]"
  using sends_tag by (simp add: send_result_def [abs_def])

lemma sends_result_rows:
  assumes "res_Rows res \<noteq> []" and "result_fields (res_Columns res) = Ok fs" and "sends (send_rows (res_Columns res) (res_Rows res)) ms"
  shows "sends (send_result res st) ((CHR ''T'', description_body fs) # ms @ [(CHR ''C'', cstring (res_Tag res)), ready st])"
proof -
  have "sends (\<lambda>c. cbind (ignoring (WriteRowDescription fs) c) (\<lambda>_ c1. send_rows (res_Columns res) (res_Rows res) c1))
      ((CHR ''T'', description_body fs) # ms)"
    using sends_seq [OF sends_write [of "CHR ''T''" "description_body fs"] assms(3)] by (simp add: writers_frame(7))
  from sends_seq [OF this sends_tag [of "res_Tag res" st]] show ?thesis
    using assms(1) by (simp add: send_result_def [abs_def] assms(2))
qed

text \<open>The types of the messages of a result: nothing but the tag when there are no rows.\<close>

definition result_shape :: "exec_result \<Rightarrow> (char \<times> byte list) list \<Rightarrow> bool" where
  "result_shape res ms \<longleftrightarrow>
     map fst ms = (if res_Rows res = [] then [] else CHR ''T'' # replicate (length (res_Rows res)) (CHR ''D'')) @ [CHR ''C''] \<and>
     last ms = (CHR ''C'', cstring (res_Tag res))"

lemma sends_result:
  assumes "rows_fit res"
  shows "\<exists>ms. sends (send_result res st) (ms @ [ready st]) \<and> result_shape res ms"
proof (cases "res_Rows res = []")
  case True
  then show ?thesis
    using sends_result_empty [OF True, of st] by (intro exI [of _ "[(CHR ''C'', cstring (res_Tag res))]"]) (simp add: result_shape_def)
next
  case False
  obtain fs where fs: "result_fields (res_Columns res) = Ok fs" using result_fields_ok assms by (auto simp: rows_fit_def)
  obtain bs where bs: "length bs = length (res_Rows res)" "sends (send_rows (res_Columns res) (res_Rows res)) (map (Pair (CHR ''D'')) bs)"
    using sends_rows [of "res_Columns res" "res_Rows res"] assms by (auto simp: rows_fit_def)
  have "map fst (map (Pair (CHR ''D'')) bs) = replicate (length (res_Rows res)) (CHR ''D'')"
    by (rule nth_equalityI) (simp_all add: bs(1))
  with sends_result_rows [OF False fs bs(2), of st] False show ?thesis
    by (intro exI [of _ "(CHR ''T'', description_body fs) # map (Pair (CHR ''D'')) bs @ [(CHR ''C'', cstring (res_Tag res))]"])
       (simp add: result_shape_def)
qed

section \<open>One message\<close>

definition answered :: "conn \<Rightarrow> (char \<times> byte list) list \<Rightarrow> conn \<Rightarrow> bool" where
  "answered c ms c' \<longleftrightarrow>
     conn_in c' = conn_in c \<and> conn_faults c' = conn_faults c \<and> (faultless c \<longrightarrow> conn_out c' = conn_out c @ stream ms)"

lemma continue_sends: "sends w ms \<Longrightarrow> \<exists>c'. continue ct d (w c) = (Ok True, ct, d, c') \<and> answered c ms c'"
  by (cases "w c") (auto simp: sends_def continue_def answered_def dest: spec [of _ c])

text \<open>What a message may do to its connection's transaction and to the transaction manager.\<close>

definition txn_move :: "conn_transaction \<Rightarrow> txn_manager \<Rightarrow> conn_transaction \<Rightarrow> txn_manager \<Rightarrow> bool" where
  "txn_move ct tm ct' tm' \<longleftrightarrow>
     ct' \<in> {ct, fail_state ct} \<and> txn_effect (ct_XID ct) tm tm' \<or>
     ct_State ct \<noteq> TxnInTransaction \<and> (\<exists>x. NextXID tm = (x, tm') \<and> ct' = \<lparr>ct_State = TxnInTransaction, ct_XID = x\<rparr>) \<or>
     ct' = idle_txn \<and> (tm' = tm \<or> ct_State ct \<noteq> TxnIdle \<and> tm' \<in> {Commit (ct_XID ct) tm, Abort (ct_XID ct) tm})"

text \<open>The protocol of a transaction block as a state machine.\<close>

datatype event = EvBegin | EvCommit | EvRollback | EvDone | EvError

fun txn_next :: "txn_state \<Rightarrow> event \<Rightarrow> txn_state" where
  "txn_next s EvBegin = TxnInTransaction"
| "txn_next s EvCommit = TxnIdle"
| "txn_next s EvRollback = TxnIdle"
| "txn_next s EvDone = s"
| "txn_next s EvError = (if s = TxnInTransaction then TxnFailed else s)"

definition query_event :: "string \<Rightarrow> conn_transaction \<Rightarrow> db \<Rightarrow> event" where
  "query_event sql ct d =
     (case Parse sql of
        Ok BeginStatement \<Rightarrow> EvBegin
      | Ok CommitStatement \<Rightarrow> EvCommit
      | Ok RollbackStatement \<Rightarrow> EvRollback
      | Ok st \<Rightarrow>
          (if ct_State ct = TxnFailed then EvError
           else case fst (Execute (session (ct_XID ct) d) st d) of Ok _ \<Rightarrow> EvDone | _ \<Rightarrow> EvError)
      | _ \<Rightarrow> EvError)"

text \<open>What a query is answered with before the \<open>ReadyForQuery\<close>: an error or a completion, never neither.\<close>

definition query_reply :: "(go_error \<Rightarrow> string) \<Rightarrow> string \<Rightarrow> conn_transaction \<Rightarrow> db \<Rightarrow> (char \<times> byte list) list \<Rightarrow> bool" where
  "query_reply error_text sql ct d ms =
     (case Parse sql of
        Ok BeginStatement \<Rightarrow>
          ms = (if ct_State ct = TxnInTransaction then [(CHR ''E'', error_body ''WARNING: Already in transaction'')] else []) @
               [(CHR ''C'', cstring ''BEGIN'')]
      | Ok CommitStatement \<Rightarrow> ms = [(CHR ''C'', cstring ''COMMIT'')]
      | Ok RollbackStatement \<Rightarrow> ms = [(CHR ''C'', cstring ''ROLLBACK'')]
      | Ok st \<Rightarrow>
          (if ct_State ct = TxnFailed then ms = [(CHR ''E'', error_body ''ERROR: Transaction failed'')]
           else case fst (Execute (session (ct_XID ct) d) st d) of
                  Ok res \<Rightarrow> result_shape res ms
                | Err e \<Rightarrow> ms = [(CHR ''E'', error_body (error_text e))]
                | Panic \<Rightarrow> False)
      | Err e \<Rightarrow> ms = [(CHR ''E'', error_body (error_text e))]
      | Panic \<Rightarrow> False)"

text \<open>\<open>replied\<close>: the loop goes on, and a reply of the shape \<open>R\<close> is followed by the only \<open>ReadyForQuery\<close>, with the state after.\<close>

definition replied ::
    "conn_transaction \<Rightarrow> db \<Rightarrow> conn \<Rightarrow> ((char \<times> byte list) list \<Rightarrow> bool) \<Rightarrow> event \<Rightarrow> handled \<Rightarrow> bool" where
  "replied ct d c R ev out \<longleftrightarrow>
     (\<exists>ct' d' c' ms. out = (Ok True, ct', d', c') \<and> answered c (ms @ [ready (ct_State ct')]) c' \<and> R ms \<and>
        db_safe d' \<and> txn_move ct (db_txn d) ct' (db_txn d') \<and> ct_State ct' = txn_next (ct_State ct) ev)"

lemma replied_continue:
  assumes "sends w (ms @ [ready (ct_State ct')])" and "R ms"
    and "db_safe d'" and "txn_move ct (db_txn d) ct' (db_txn d')" and "ct_State ct' = txn_next (ct_State ct) ev"
  shows "replied ct d c R ev (continue ct' d' (w c))"
  using continue_sends [OF assms(1), of ct' d' c] assms(2-) unfolding replied_def by blast

lemma fail_state_next: "ct_State (fail_state ct) = txn_next (ct_State ct) EvError"
  by (simp add: fail_state_def)

lemma replied_error:
  assumes "db_safe d'" and "txn_effect (ct_XID ct) (db_txn d) (db_txn d')"
  shows "replied ct d c (\<lambda>ms. ms = [(CHR ''E'', error_body msg)]) EvError
    (continue (fail_state ct) d' (send_error msg (ct_State (fail_state ct)) c))"
  by (rule replied_continue [where ms = "[(CHR ''E'', error_body msg)]"])
     (use sends_error [of msg "ct_State (fail_state ct)"] assms fail_state_next [of ct] in \<open>auto simp: txn_move_def\<close>)

lemma handle_begin_replied:
  assumes "db_safe d"
  shows "replied ct d c (\<lambda>ms. ms = (if ct_State ct = TxnInTransaction then [(CHR ''E'', error_body ''WARNING: Already in transaction'')] else []) @
      [(CHR ''C'', cstring ''BEGIN'')]) EvBegin (handle_begin ct d c)"
proof (cases "ct_State ct = TxnInTransaction")
  case True
  let ?w = "\<lambda>c. cbind (ignoring (WriteErrorResponse ''WARNING: Already in transaction'') c) (\<lambda>_ c1. send_complete ''BEGIN'' (ct_State ct) c1)"
  let ?ms = "[(CHR ''E'', error_body ''WARNING: Already in transaction''), (CHR ''C'', cstring ''BEGIN'')]"
  have "sends ?w (?ms @ [ready (ct_State ct)])"
    using sends_seq [OF sends_write sends_complete [of "''BEGIN''" "ct_State ct"]] by (simp add: writers_frame(5))
  from replied_continue [OF this, of "\<lambda>ms. ms = ?ms" d ct d EvBegin c] show ?thesis
    using True assms by (simp add: handle_begin_def txn_move_def txn_effect_def)
next
  case False
  obtain x tm where n: "NextXID (db_txn d) = (x, tm)" by (cases "NextXID (db_txn d)")
  have "replied ct d c (\<lambda>ms. ms = [(CHR ''C'', cstring ''BEGIN'')]) EvBegin
      (continue \<lparr>ct_State = TxnInTransaction, ct_XID = x\<rparr> (d\<lparr>db_txn := tm\<rparr>) (send_complete ''BEGIN'' TxnInTransaction c))"
    by (rule replied_continue [where ms = "[(CHR ''C'', cstring ''BEGIN'')]"])
       (use sends_complete [of "''BEGIN''" TxnInTransaction] assms n False in \<open>auto simp: txn_move_def\<close>)
  then show ?thesis using False n by (simp add: handle_begin_def)
qed

lemma replied_end:
  assumes "db_safe d'" and "txn_move ct (db_txn d) idle_txn (db_txn d')" and "ev = EvCommit \<or> ev = EvRollback"
  shows "replied ct d c (\<lambda>ms. ms = [(CHR ''C'', cstring tag)]) ev (continue idle_txn d' (send_complete tag TxnIdle c))"
  by (rule replied_continue [where ms = "[(CHR ''C'', cstring tag)]"])
     (use sends_complete [of tag TxnIdle] assms in \<open>auto simp: idle_txn_def\<close>)

lemma handle_commit_replied: "db_safe d \<Longrightarrow> replied ct d c (\<lambda>ms. ms = [(CHR ''C'', cstring ''COMMIT'')]) EvCommit (handle_commit ct d c)"
  unfolding handle_commit_def Let_def by (rule replied_end) (auto simp: txn_move_def)

lemma handle_rollback_replied:
  "db_safe d \<Longrightarrow> replied ct d c (\<lambda>ms. ms = [(CHR ''C'', cstring ''ROLLBACK'')]) EvRollback (handle_rollback ct d c)"
  unfolding handle_rollback_def Let_def by (rule replied_end) (auto simp: txn_move_def)

lemma handle_execute_replied:
  assumes "db_safe d" and "db_small d"
  shows "replied ct d c
      (\<lambda>ms. if ct_State ct = TxnFailed then ms = [(CHR ''E'', error_body ''ERROR: Transaction failed'')]
        else case fst (Execute (session (ct_XID ct) d) st d) of
               Ok res \<Rightarrow> result_shape res ms | Err e \<Rightarrow> ms = [(CHR ''E'', error_body (et e))] | Panic \<Rightarrow> False)
      (if ct_State ct = TxnFailed then EvError
       else case fst (Execute (session (ct_XID ct) d) st d) of Ok _ \<Rightarrow> EvDone | _ \<Rightarrow> EvError)
      (handle_execute et st ct d c)"
proof (cases "ct_State ct = TxnFailed")
  case True
  then have "fail_state ct = ct" by (simp add: fail_state_def)
  then show ?thesis
    using replied_error [of d ct d c "''ERROR: Transaction failed''"] True assms
    by (simp add: handle_execute_def txn_effect_def)
next
  case False
  obtain r d' where e: "Execute (session (ct_XID ct) d) st d = (r, d')" by (cases "Execute (session (ct_XID ct) d) st d")
  have s: "r \<noteq> Panic" "db_safe d'" "txn_effect (ct_XID ct) (db_txn d) (db_txn d')" "\<And>res. r = Ok res \<Longrightarrow> rows_fit res"
    using Execute_sound [OF assms(1,2), of "session (ct_XID ct) d" st] e by (auto simp: sound_def session_def)
  show ?thesis
  proof (cases r)
    case (Ok res)
    obtain ms where m: "sends (send_result res (ct_State ct)) (ms @ [ready (ct_State ct)])" "result_shape res ms"
      using sends_result [OF s(4) [OF Ok], of "ct_State ct"] by blast
    have "replied ct d c (result_shape res) EvDone (continue ct d' (send_result res (ct_State ct) c))"
      by (rule replied_continue [where ms = ms]) (use m s in \<open>auto simp: txn_move_def\<close>)
    then show ?thesis using Ok False e by (simp add: handle_execute_def session_def)
  next
    case (Err err)
    then show ?thesis
      using replied_error [OF s(2,3), of c "et err"] False e by (simp add: handle_execute_def session_def)
  qed (use s in simp)
qed

lemma Parse_no_panic: "Parse sql \<noteq> Panic"
  using parse_sql_total [of sql] by (auto simp: Parse_def)

lemma handle_query_replied:
  assumes "db_safe d" and "db_small d"
  shows "replied ct d c (query_reply et sql ct d) (query_event sql ct d) (handle_query et sql ct d c)"
proof (cases "Parse sql")
  case (Ok st)
  then show ?thesis
    using handle_begin_replied [OF assms(1)] handle_commit_replied [OF assms(1)] handle_rollback_replied [OF assms(1)]
      handle_execute_replied [OF assms, where ct = ct and c = c and et = et]
    by (cases st) (simp_all add: handle_query_def query_event_def query_reply_def [abs_def] del: Execute.simps if_split)
next
  case (Err e)
  then show ?thesis
    using replied_error [OF assms(1), of ct d c "et e"] by (simp add: handle_query_def query_event_def query_reply_def [abs_def] txn_effect_def)
qed (use Parse_no_panic in simp)

text \<open>A failed block: the statements that the code still accepts are \<open>BEGIN\<close>, \<open>COMMIT\<close> and \<open>ROLLBACK\<close>.\<close>

definition ends_or_begins :: "statement \<Rightarrow> bool" where
  "ends_or_begins st \<longleftrightarrow> st \<in> {BeginStatement, CommitStatement, RollbackStatement}"

lemma handle_query_failed:
  assumes "ct_State ct = TxnFailed" and "handle_query et sql ct d c = (r, ct', d', c')"
  shows "Parse sql = Ok st \<Longrightarrow> \<not> ends_or_begins st \<Longrightarrow> ct' = ct \<and> d' = d"
    and "Parse sql = Err e \<Longrightarrow> ct' = ct \<and> d' = d"
    and "Parse sql \<in> {Ok CommitStatement, Ok RollbackStatement} \<Longrightarrow> ct' = idle_txn \<and> d' = d\<lparr>db_txn := Abort (ct_XID ct) (db_txn d)\<rparr>"
    and "Parse sql = Ok BeginStatement \<Longrightarrow> (ct_XID ct', db_txn d') = NextXID (db_txn d)"
proof -
  show "Parse sql = Ok st \<Longrightarrow> \<not> ends_or_begins st \<Longrightarrow> ct' = ct \<and> d' = d"
    using assms by (cases st) (auto simp: handle_query_def ends_or_begins_def handle_execute_def continue_def split: prod.splits)
  show "Parse sql = Err e \<Longrightarrow> ct' = ct \<and> d' = d"
    using assms by (auto simp: handle_query_def fail_state_def continue_def split: prod.splits)
  show "Parse sql \<in> {Ok CommitStatement, Ok RollbackStatement} \<Longrightarrow> ct' = idle_txn \<and> d' = d\<lparr>db_txn := Abort (ct_XID ct) (db_txn d)\<rparr>"
    using assms by (auto simp: handle_query_def handle_commit_def handle_rollback_def continue_def Let_def split: prod.splits)
  show "Parse sql = Ok BeginStatement \<Longrightarrow> (ct_XID ct', db_txn d') = NextXID (db_txn d)"
    using assms by (auto simp: handle_query_def handle_begin_def continue_def split: prod.splits)
qed

lemma handle_message_sound:
  assumes "db_safe d" and "db_small d" and "handle_message et ty msg ct d c = (r, ct', d', c')"
  shows "r = Panic \<longleftrightarrow> ty = byte_of (CHR ''Q'') \<and> msg = []" and "r \<noteq> Err e" and "db_safe d'"
    and "txn_move ct (db_txn d) ct' (db_txn d')" and "conn_in c' = conn_in c" and "conn_faults c' = conn_faults c"
proof -
  have stay: "txn_move ct (db_txn d) ct (db_txn d)" by (simp add: txn_move_def txn_effect_def)
  have "(r = Panic \<longleftrightarrow> ty = byte_of (CHR ''Q'') \<and> msg = []) \<and> (\<forall>e. r \<noteq> Err e) \<and> db_safe d' \<and> txn_move ct (db_txn d) ct' (db_txn d') \<and>
    conn_in c' = conn_in c \<and> conn_faults c' = conn_faults c"
  proof (cases "ty = byte_of (CHR ''Q'')")
    case True
    show ?thesis
    proof (cases "msg = []")
      case False
      then show ?thesis
        using handle_query_replied [OF assms(1,2), of ct c et "string_of_bytes (butlast msg)"] assms(3) True
        by (auto simp: handle_message_def replied_def answered_def)
    qed (use assms True stay in \<open>auto simp: handle_message_def\<close>)
  next
    case False
    obtain c1 where "continue ct d (send_error ''Unsupported message type'' (ct_State ct) c) = (Ok True, ct, d, c1)"
      "answered c [(CHR ''E'', error_body ''Unsupported message type''), ready (ct_State ct)] c1"
      using continue_sends [OF sends_error] by blast
    then show ?thesis
      using False assms stay by (auto simp: handle_message_def answered_def split: if_splits)
  qed
  then show "r = Panic \<longleftrightarrow> ty = byte_of (CHR ''Q'') \<and> msg = []" "r \<noteq> Err e" "db_safe d'"
    "txn_move ct (db_txn d) ct' (db_txn d')" "conn_in c' = conn_in c" "conn_faults c' = conn_faults c" by blast+
qed

section \<open>Properties\<close>

text \<open>C11. Every query is answered: the handler goes on to the next message after sending the reply \<open>query_reply\<close> (an error and nothing else when the text does not parse or the statement fails or the block has failed; otherwise the rows if there are any and exactly one command tag; \<open>BEGIN\<close> inside a block both) and exactly one \<open>ReadyForQuery\<close> with the state of the block after the query, which follows \<open>txn_next\<close>. This is what the code does, and it is more permissive than README 5.1, by which a failed block rejects everything but \<open>ROLLBACK\<close>: every other statement is refused and changes nothing, but \<open>COMMIT\<close> is accepted and rolls the block back, and \<open>BEGIN\<close> is accepted and opens a new block, leaving the transaction of the failed one undecided.\<close>

theorem server_answers_query:
  assumes "db_safe d" and "db_small d" and "faultless c"
  shows "\<exists>ct' d' c' ms. handle_query error_text sql ct d c = (Ok True, ct', d', c') \<and> conn_in c' = conn_in c \<and>
    conn_out c' = conn_out c @ stream (ms @ [(CHR ''Z'', [txnStatusByte (ct_State ct')])]) \<and> query_reply error_text sql ct d ms \<and>
    ct_State ct' = txn_next (ct_State ct) (query_event sql ct d) \<and>
    (ct_State ct = TxnFailed \<longrightarrow>
      (case Parse sql of
         Ok BeginStatement \<Rightarrow> (ct_XID ct', db_txn d') = NextXID (db_txn d)
       | Ok CommitStatement \<Rightarrow> ct' = idle_txn \<and> d' = d\<lparr>db_txn := Abort (ct_XID ct) (db_txn d)\<rparr>
       | Ok RollbackStatement \<Rightarrow> ct' = idle_txn \<and> d' = d\<lparr>db_txn := Abort (ct_XID ct) (db_txn d)\<rparr>
       | _ \<Rightarrow> ct' = ct \<and> d' = d))"
proof -
  obtain ct' d' c' ms where h: "handle_query error_text sql ct d c = (Ok True, ct', d', c')"
    "answered c (ms @ [ready (ct_State ct')]) c'" "query_reply error_text sql ct d ms" "ct_State ct' = txn_next (ct_State ct) (query_event sql ct d)"
    using handle_query_replied [OF assms(1,2), of ct c error_text sql] unfolding replied_def by blast
  have "ct_State ct = TxnFailed \<longrightarrow> (case Parse sql of
         Ok BeginStatement \<Rightarrow> (ct_XID ct', db_txn d') = NextXID (db_txn d)
       | Ok CommitStatement \<Rightarrow> ct' = idle_txn \<and> d' = d\<lparr>db_txn := Abort (ct_XID ct) (db_txn d)\<rparr>
       | Ok RollbackStatement \<Rightarrow> ct' = idle_txn \<and> d' = d\<lparr>db_txn := Abort (ct_XID ct) (db_txn d)\<rparr>
       | _ \<Rightarrow> ct' = ct \<and> d' = d)"
    using handle_query_failed [OF _ h(1)] Parse_no_panic [of sql] by (auto simp: ends_or_begins_def split: result.splits statement.splits)
  then show ?thesis using h assms(3) unfolding answered_def ready_def by blast
qed

theorem server_answers_query_witness:
  "\<exists>ct' d' c'. handle_query (\<lambda>_. ''bad'') ''SELEC'' \<lparr>ct_State = TxnInTransaction, ct_XID = 1\<rparr> shipped_db (reading []) = (Ok True, ct', d', c') \<and>
     conn_out c' = stream [(CHR ''E'', error_body ''bad''), (CHR ''Z'', [69])] \<and> ct_State ct' = TxnFailed"
proof -
  let ?ct = "\<lparr>ct_State = TxnInTransaction, ct_XID = 1\<rparr>"
  have "faultless (reading [])" by (simp add: faultless_def reading_def)
  from server_answers_query [OF shipped_disk(4,3) this, of "\<lambda>_. ''bad''" "''SELEC''" ?ct]
  obtain ct' d' c' ms where h: "handle_query (\<lambda>_. ''bad'') ''SELEC'' ?ct shipped_db (reading []) = (Ok True, ct', d', c')"
    "conn_out c' = stream (ms @ [(CHR ''Z'', [txnStatusByte (ct_State ct')])])" "query_reply (\<lambda>_. ''bad'') ''SELEC'' ?ct shipped_db ms"
    "ct_State ct' = txn_next TxnInTransaction (query_event ''SELEC'' ?ct shipped_db)"
    by (auto simp: reading_def)
  have p: "Parse ''SELEC'' = Err (ErrUnexpectedToken ''SELEC'')" by code_simp
  then have "ct_State ct' = TxnFailed" "ms = [(CHR ''E'', error_body ''bad'')]" using h(3,4) by (simp_all add: query_event_def query_reply_def)
  then show ?thesis using h(1,2) by (auto simp: txnStatusByte_def byte_of_def)
qed

text \<open>C25. The only message that makes the handler panic is a query with an empty body (its terminator is missing): any other message, of any type, with any bytes as SQL and on heap files with any tuples, is handled without a panic and leaves well-formed heap files. The lexer, the tuple codec, the pages and the row encoder all have panic branches for their indices and slices, which are shown unreachable here.\<close>

theorem server_message_safe:
  assumes "db_safe d" and "db_small d" and "handle_message error_text ty msg ct d c = (r, ct', d', c')"
  shows "(r = Panic \<longleftrightarrow> ty = byte_of (CHR ''Q'') \<and> msg = []) \<and> db_safe d'"
  using handle_message_sound [OF assms] by blast

theorem server_message_safe_witness:
  "fst (handle_message (\<lambda>_. []) 81 [] idle_txn shipped_db (reading [])) = Panic \<and>
   fst (handle_message (\<lambda>_. []) 81 (cstring ''SELECT * FROM t'') idle_txn shipped_db (reading [])) \<noteq> Panic"
proof -
  have q: "byte_of (CHR ''Q'') = 81" by (simp add: byte_of_def)
  let ?m = "cstring ''SELECT * FROM t''"
  obtain r ct' d' c' where a: "handle_message (\<lambda>_. []) 81 [] idle_txn shipped_db (reading []) = (r, ct', d', c')"
    by (cases "handle_message (\<lambda>_. []) 81 [] idle_txn shipped_db (reading [])")
  obtain r2 ct2 d2 c2 where b: "handle_message (\<lambda>_. []) 81 ?m idle_txn shipped_db (reading []) = (r2, ct2, d2, c2)"
    by (cases "handle_message (\<lambda>_. []) 81 ?m idle_txn shipped_db (reading [])")
  have "?m \<noteq> []" by (simp add: cstring_def)
  then show ?thesis
    using server_message_safe [OF shipped_disk(4,3) a] server_message_safe [OF shipped_disk(4,3) b] a b by (simp add: q)
qed

end
