(* ===== verification/Wire.thy ===== *)
theory Wire
  imports Server
begin

text \<open>
  A query from the bytes a client sends to the bytes it gets: the frame is read, the text is
  parsed, the statement executed, and the reply framed. The lemmas join the parser's, the
  executor's and the protocol's; the properties that follow from them are in the root theory.
\<close>

section \<open>One query on the wire\<close>

definition query_message :: "string \<Rightarrow> byte list" where
  "query_message sql = frame (CHR ''Q'') (cstring sql)"

lemma butlast_cstring: "string_of_bytes (butlast (cstring sql)) = sql" "cstring sql \<noteq> []"
  by (simp_all add: cstring_def)

lemma message_loop_query:
  assumes "conn_in c = query_message sql @ rs" and "length sql < 2 ^ 32 - 5"
    and "handle_query et sql ct d (c\<lparr>conn_in := rs\<rparr>) = (Ok True, ct', d', c')"
  shows "message_loop et ct d c = message_loop et ct' d' c'"
proof -
  have "4 + length (cstring sql) < 2 ^ 32" using assms(2) by (simp add: cstring_def)
  from ReadMessage_frame [OF assms(1) [unfolded query_message_def] this]
  have "ReadMessage c = (Ok (byte_of (CHR ''Q''), cstring sql), c\<lparr>conn_in := rs\<rparr>)" .
  then show ?thesis
    by (subst message_loop.simps) (simp add: handle_message_def butlast_cstring assms(3))
qed

lemma Parse_text: "statement_printable st \<Longrightarrow> Parse (sql_text st) = Ok st"
  using parse_sql_text [of st "[]"] by (simp add: Parse_def tokens_Nil ends_statement_def tok_is_def)

lemma handle_query_execute:
  assumes "Parse sql = Ok st" and "target st \<noteq> None \<or> (\<exists>cs t w. st = SelectStatement cs t w)"
    and "Execute (session 0 d) st d = (Ok res, d')" and "sends (send_result res TxnIdle) ms"
  shows "\<exists>c'. handle_query et sql idle_txn d c = (Ok True, idle_txn, d', c') \<and> answered c ms c'"
proof -
  have "handle_query et sql idle_txn d c = handle_execute et st idle_txn d c"
    using assms(1,2) by (cases st) (simp_all add: handle_query_def)
  also have "\<dots> = continue idle_txn d' (send_result res TxnIdle c)"
    using assms(3) by (simp add: handle_execute_def session_def idle_txn_def)
  finally show ?thesis using continue_sends [OF assms(4)] by simp
qed

section \<open>The rows of a result on the wire\<close>

definition cell_text :: "column_def \<Rightarrow> any \<Rightarrow> string option" where
  "cell_text col v =
     (case v of
        None \<Rightarrow> None
      | Some x \<Rightarrow>
          (case TypeByOID (col_TypeOID col) of
             None \<Rightarrow> None
           | Some t \<Rightarrow> Some (case TextEncode t (Some x) of Ok s \<Rightarrow> s | _ \<Rightarrow> [])))"

definition row_small :: "column_def list \<Rightarrow> any list \<Rightarrow> bool" where
  "row_small cols row \<longleftrightarrow> list_all (\<lambda>s. case s of None \<Rightarrow> True | Some s \<Rightarrow> length s < 2 ^ 32 - 1) (map2 cell_text cols row)"

lemma row_text_cells:
  assumes "typed cols" and "length row = length cols" and "row_small cols row"
  shows "\<exists>vals nulls. row_text cols row = Ok (vals, nulls) \<and> length vals = length cols \<and> length nulls = length cols \<and>
    map2 cell vals nulls = map2 cell_text cols row \<and> (\<forall>v \<in> set vals. length v < 2 ^ 32 - 1)"
  using assms
proof (induction cols arbitrary: row)
  case (Cons col cols)
  obtain v row' where row: "row = v # row'" using Cons.prems(2) by (cases row) auto
  obtain t where t: "TypeByOID (col_TypeOID col) = Some t" using Cons.prems(1) by (auto simp: typed_def)
  obtain vals nulls where ih: "row_text cols row' = Ok (vals, nulls)" "length vals = length cols" "length nulls = length cols"
    "map2 cell vals nulls = map2 cell_text cols row'" "\<forall>v \<in> set vals. length v < 2 ^ 32 - 1"
    using Cons.IH [of row'] Cons.prems row by (auto simp: typed_def row_small_def)
  show ?case
  proof (cases v)
    case None
    then show ?thesis using row ih by (simp add: cell_def cell_text_def)
  next
    case (Some x)
    let ?s = "case TextEncode t (Some x) of Ok s \<Rightarrow> s | _ \<Rightarrow> []"
    have "length ?s < 2 ^ 32 - 1" using Cons.prems(3) row Some t by (simp add: row_small_def cell_text_def)
    moreover have "row_text (col # cols) row = Ok (?s # vals, False # nulls)"
      using row Some t ih(1) TextEncode_no_panic [OF t, of "Some x"] by (cases "TextEncode t (Some x)") auto
    ultimately show ?thesis using row ih Some t by (simp add: cell_def cell_text_def)
  qed
qed simp

lemma sends_rows_decoded:
  assumes "typed cols" and "length cols < 2 ^ 16" and "\<forall>row \<in> set rows. length row = length cols \<and> row_small cols row"
  shows "\<exists>bs. sends (send_rows cols rows) (map (Pair (CHR ''D'')) bs) \<and> map decode_row bs = map (\<lambda>row. Some (map2 cell_text cols row)) rows"
  using assms(3)
proof (induction rows)
  case Nil
  have "send_rows cols [] = (\<lambda>c. (Ok (), c))" by (rule ext) simp
  then show ?case using sends_nothing by simp
next
  case (Cons row rows)
  obtain vals nulls where r: "row_text cols row = Ok (vals, nulls)" "length vals = length cols" "length nulls = length cols"
    "map2 cell vals nulls = map2 cell_text cols row" "\<forall>v \<in> set vals. length v < 2 ^ 32 - 1"
    using row_text_cells [OF assms(1), of row] Cons.prems by auto
  obtain cells where c: "row_cells vals nulls = Ok cells" "decode_cells (length vals) cells = Some (map2 cell vals nulls)"
    using row_cells_decode [of vals nulls] r by auto
  let ?b = "be_bytes 2 (of_nat (length vals) :: u16) @ cells"
  have e: "send_rows cols (row # rows) = (\<lambda>c. cbind (ignoring (conn_Write (frame (CHR ''D'') ?b)) c) (\<lambda>_ c1. send_rows cols rows c1))"
  proof -
    have "WriteDataRow vals nulls = conn_Write (frame (CHR ''D'') ?b)" by (rule ext) (simp add: WriteDataRow_def c)
    then show ?thesis by (intro ext) (simp add: r(1))
  qed
  have "unat (of_nat (length vals) :: u16) = length vals" using r(2) assms(2) by (intro unat_of_nat_small) simp
  then have d: "decode_row ?b = Some (map2 cell_text cols row)" using c(2) r(4) by (simp add: decode_row_def del: be_bytes.simps)
  obtain bs where bs: "sends (send_rows cols rows) (map (Pair (CHR ''D'')) bs)" "map decode_row bs = map (\<lambda>row. Some (map2 cell_text cols row)) rows"
    using Cons by auto
  show ?case
    using sends_seq [OF sends_write [of "CHR ''D''" ?b] bs(1)] d bs(2) unfolding e by (intro exI [of _ "?b # bs"]) simp
qed

text \<open>What a client gets for a result: the fields and the cells of every row, then the tag.\<close>

lemma sends_result_decoded:
  assumes "typed (res_Columns res)" and "length (res_Columns res) < 2 ^ 16" and "res_Rows res \<noteq> []"
    and "\<forall>row \<in> set (res_Rows res). length row = length (res_Columns res) \<and> row_small (res_Columns res) row"
  shows "\<exists>fs bs. result_fields (res_Columns res) = Ok fs \<and>
    sends (send_result res st) ((CHR ''T'', description_body fs) # map (Pair (CHR ''D'')) bs @ [(CHR ''C'', cstring (res_Tag res)), ready st]) \<and>
    map decode_row bs = map (\<lambda>row. Some (map2 cell_text (res_Columns res) row)) (res_Rows res)"
proof -
  obtain fs where fs: "result_fields (res_Columns res) = Ok fs" using result_fields_ok [OF assms(1)] by blast
  obtain bs where bs: "sends (send_rows (res_Columns res) (res_Rows res)) (map (Pair (CHR ''D'')) bs)"
    "map decode_row bs = map (\<lambda>row. Some (map2 cell_text (res_Columns res) row)) (res_Rows res)"
    using sends_rows_decoded [OF assms(1,2,4)] by blast
  from sends_result_rows [OF assms(3) fs bs(1), of st] show ?thesis using fs bs(2) by auto
qed

lemma result_fields_names:
  "result_fields cols = Ok fs \<Longrightarrow> map fd_Name fs = map col_Name cols \<and> map fd_TypeOID fs = map col_TypeOID cols"
  by (induction cols arbitrary: fs) (auto simp: result_iff split: option.splits)

end
