(* ===== verification/Scripts.thy ===== *)
theory Scripts
  imports Wire
begin

text \<open>
  Sequences of statements. The abstract database is the function from table names to the rows
  that \<open>SELECT *\<close> returns; a script outside a transaction refines the composition of the
  specifications, a script inside a transaction changes nothing before the commit and nothing
  after a rollback. The second part follows a script and a whole transaction block through the
  connection: query messages in, command tags and transaction states out.
\<close>

section \<open>Scripts on the database\<close>

text \<open>
  The abstract database: the rows of every table, as \<open>select_all\<close> returns them. A statement acts
  on it through its specification.
\<close>

type_synonym tables = "string \<Rightarrow> any list list option"

definition statement_scope :: "catalog \<Rightarrow> statement \<Rightarrow> tables \<Rightarrow> (string \<times> table_def \<times> any list list) option" where
  "statement_scope cat st T =
     (case target st of
        None \<Rightarrow> None
      | Some n \<Rightarrow> (case GetTable ''public'' n cat of Ok t \<Rightarrow> map_option (\<lambda>rows. (n, t, rows)) (T n) | _ \<Rightarrow> None))"

definition spec_step :: "catalog \<Rightarrow> statement \<Rightarrow> tables \<Rightarrow> tables" where
  "spec_step cat st T =
     (case statement_scope cat st T of None \<Rightarrow> T | Some (n, t, rows) \<Rightarrow> T(n \<mapsto> spec_rows t st rows))"

definition step_tag :: "catalog \<Rightarrow> statement \<Rightarrow> tables \<Rightarrow> string" where
  "step_tag cat st T = (case statement_scope cat st T of None \<Rightarrow> [] | Some (n, t, rows) \<Rightarrow> spec_tag t st rows)"

fun spec_tags :: "catalog \<Rightarrow> statement list \<Rightarrow> tables \<Rightarrow> string list" where
  "spec_tags cat [] T = []"
| "spec_tags cat (st # sts) T = step_tag cat st T # spec_tags cat sts (spec_step cat st T)"

fun run_script :: "u64 \<Rightarrow> statement list \<Rightarrow> db \<Rightarrow> db" where
  "run_script x [] d = d"
| "run_script x (st # sts) d = run_script x sts (snd (Execute (session x d) st d))"

text \<open>
  When a statement applies, and how many pages it may add. A script outside a transaction is
  judged on the tables its statements leave; inside a transaction every statement sees the
  tables as they were at the start.
\<close>

definition applies :: "catalog \<Rightarrow> tables \<Rightarrow> statement \<Rightarrow> bool" where
  "applies cat T st = (case statement_scope cat st T of None \<Rightarrow> False | Some (n, t, rows) \<Rightarrow> spec_ok t st rows)"

definition weight :: "catalog \<Rightarrow> tables \<Rightarrow> statement \<Rightarrow> nat" where
  "weight cat T st = (case statement_scope cat st T of None \<Rightarrow> 0 | Some (n, t, rows) \<Rightarrow> Suc (length rows))"

fun script_ok :: "catalog \<Rightarrow> statement list \<Rightarrow> tables \<Rightarrow> bool" where
  "script_ok cat [] T = True"
| "script_ok cat (st # sts) T = (applies cat T st \<and> script_ok cat sts (spec_step cat st T))"

fun script_weight :: "catalog \<Rightarrow> statement list \<Rightarrow> tables \<Rightarrow> nat" where
  "script_weight cat [] T = 0"
| "script_weight cat (st # sts) T = weight cat T st + script_weight cat sts (spec_step cat st T)"

definition roomy :: "nat \<Rightarrow> nat \<Rightarrow> db \<Rightarrow> bool" where
  "roomy k m d \<longleftrightarrow> unat (nextXID (db_txn d)) + k + 2 < 2 ^ 64 \<and> (\<forall>oid. unat (PageCount (file_of d oid)) + m < 2 ^ 32)"

lemma roomy_grows: "roomy (k + a) (m + b) d \<Longrightarrow> grows_by a b d d' \<Longrightarrow> roomy k m d'"
proof -
  assume r: "roomy (k + a) (m + b) d" and g: "grows_by a b d d'"
  have "unat (PageCount (file_of d' oid)) + m < 2 ^ 32" for oid
    using r g unfolding roomy_def grows_by_def by (auto dest!: spec [of _ oid])
  moreover have "unat (nextXID (db_txn d')) + k + 2 < 2 ^ 64" using r g unfolding roomy_def grows_by_def by simp
  ultimately show "roomy k m d'" by (simp add: roomy_def)
qed

lemma roomy_rooms: "roomy k (Suc (length rows) + m) d \<Longrightarrow> xid_room (db_txn d) \<and> file_room d t rows"
  unfolding roomy_def xid_room_def file_room_def by (auto dest: spec [of _ "tbl_OID t"])

lemma statement_scope_Some:
  "statement_scope cat st T = Some (n, t, rows) \<longleftrightarrow> target st = Some n \<and> GetTable ''public'' n cat = Ok t \<and> T n = Some rows"
  by (auto simp: statement_scope_def split: option.splits result.splits)

text \<open>One statement of a script outside a transaction.\<close>

lemma script_step:
  assumes "db_inv d" and "applies (db_catalog d) (select_all d) st" and "roomy (Suc k) (weight (db_catalog d) (select_all d) st + m) d"
  obtains d' where "Execute (session 0 d) st d = (Ok (tag_only (step_tag (db_catalog d) st (select_all d))), d')"
    and "db_inv d'" and "db_catalog d' = db_catalog d" and "select_all d' = spec_step (db_catalog d) st (select_all d)"
    and "roomy k m d'"
proof -
  obtain n t rows where s: "statement_scope (db_catalog d) st (select_all d) = Some (n, t, rows)" and ok: "spec_ok t st rows"
    using assms(2) by (auto simp: applies_def split: option.splits)
  note sc = s [unfolded statement_scope_Some]
  have w: "roomy (k + 1) (m + Suc (length rows)) d" using assms(3) by (simp add: weight_def s ac_simps)
  have room: "xid_room (db_txn d)" "file_room d t rows" using roomy_rooms [of "Suc k" rows m d t] assms(3) by (simp_all add: weight_def s)
  obtain d' where d': "Execute (session 0 d) st d = (Ok (tag_only (spec_tag t st rows)), d')" "db_inv d'"
    "select_all d' n = Some (spec_rows t st rows)" "\<forall>m. m \<noteq> n \<longrightarrow> select_all d' m = select_all d m"
    "db_catalog d' = db_catalog d" "grows_by 1 (Suc (length rows)) d d'"
    using autocommit_rows [OF assms(1) room(1) _ _ _ ok room(2)] sc by blast
  have "select_all d' = spec_step (db_catalog d) st (select_all d)" using d'(3,4) by (auto simp: spec_step_def s)
  then show thesis using that [of d'] d'(1,2,5) roomy_grows [OF w d'(6)] by (simp add: step_tag_def s)
qed

lemma script_refines:
  assumes "db_inv d" and "script_ok (db_catalog d) sts (select_all d)"
    and "roomy (length sts) (script_weight (db_catalog d) sts (select_all d)) d"
  shows "select_all (run_script 0 sts d) = fold (spec_step (db_catalog d)) sts (select_all d) \<and> db_inv (run_script 0 sts d)"
  using assms
proof (induction sts arbitrary: d)
  case (Cons st sts)
  obtain d' where e: "Execute (session 0 d) st d = (Ok (tag_only (step_tag (db_catalog d) st (select_all d))), d')"
    and d': "db_inv d'" "db_catalog d' = db_catalog d" "select_all d' = spec_step (db_catalog d) st (select_all d)"
      "roomy (length sts) (script_weight (db_catalog d) sts (spec_step (db_catalog d) st (select_all d))) d'"
    using script_step [OF Cons.prems(1)] Cons.prems(2,3) by (metis length_Cons script_ok.simps(2) script_weight.simps(2))
  show ?case using Cons.IH [OF d'(1)] Cons.prems(2) d'(2-4) e by simp
qed simp

text \<open>A script of an open transaction: nothing shows, and every statement reads the tables as they were at the start.\<close>

definition open_script_ok :: "statement list \<Rightarrow> db \<Rightarrow> bool" where
  "open_script_ok sts d \<longleftrightarrow>
     list_all (applies (db_catalog d) (select_all d)) sts \<and> roomy 0 (sum_list (map (weight (db_catalog d) (select_all d)) sts)) d"

lemma open_script_step:
  assumes "db_inv d" and "runs_under x d" and "x \<noteq> 0" and "open_script_ok (st # sts) d"
  obtains d' where "Execute (session x d) st d = (Ok (tag_only (step_tag (db_catalog d) st (select_all d))), d')"
    and "db_inv d'" and "runs_under x d'" and "db_catalog d' = db_catalog d" and "select_all d' = select_all d" and "open_script_ok sts d'"
proof -
  let ?m = "sum_list (map (weight (db_catalog d) (select_all d)) sts)"
  obtain n t rows where s: "statement_scope (db_catalog d) st (select_all d) = Some (n, t, rows)" and ok: "spec_ok t st rows"
    using assms(4) by (auto simp: open_script_ok_def applies_def split: option.splits)
  note sc = s [unfolded statement_scope_Some]
  have w: "roomy 0 (Suc (length rows) + ?m) d" using assms(4) by (simp add: open_script_ok_def weight_def s)
  note room = conjunct1 [OF roomy_rooms [OF w]] conjunct2 [OF roomy_rooms [OF w]]
  obtain hvs where h: "db_table d n t hvs" "below (db_txn d) hvs" "rows_of (db_txn d) hvs = rows"
    using db_inv_table [OF assms(1)] sc by metis
  obtain d' where d': "Execute (session x d) st d = (Ok (tag_only (spec_tag t st rows)), d')" "db_inv d'" "db_txn d' = db_txn d"
    "db_catalog d' = db_catalog d" "\<And>m. select_all d' m = select_all d m" "grows_by 0 (Suc (length rows)) d d'"
    using open_step [OF assms(1) room(1) assms(2,3) h(1,2) h(3) [symmetric] _ ok room(2)] sc by metis
  have v: "select_all d' = select_all d" using d'(5) by auto
  have "roomy 0 ?m d'" using roomy_grows [OF _ d'(6), of 0 ?m] w by (simp add: ac_simps)
  then show thesis using that [of d'] d' v assms(2,4) by (simp add: step_tag_def s runs_under_def open_script_ok_def)
qed

text \<open>What the tables will read as once the transaction \<open>x\<close> commits.\<close>

definition committed_view :: "u64 \<Rightarrow> db \<Rightarrow> tables" where
  "committed_view x d = select_all (d\<lparr>db_txn := Commit x (db_txn d)\<rparr>)"

fun is_insert :: "statement \<Rightarrow> bool" where
  "is_insert (InsertStatement tname names exprs) = True"
| "is_insert st = False"

lemma committed_view_begin:
  assumes "db_inv d" and "xid_room (db_txn d)" and "begin_txn d = (x, d1)"
  shows "committed_view x d1 = select_all d"
proof
  fix n
  note b = begin_txn [OF assms]
  obtain tm where d1: "d1 = d\<lparr>db_txn := tm\<rparr>" using assms(3) by (auto simp: begin_txn_def split: prod.splits)
  have "select_all (d1\<lparr>db_txn := Commit x (db_txn d1)\<rparr>) n = select_all d1 n"
    using db_inv_exists [OF assms(1), of n] b(5,6) by (intro commit_frame [OF b(1-3)]) (fastforce simp: d1)
  then show "committed_view x d1 n = select_all d n" using b(4) by (simp add: committed_view_def)
qed

lemma insert_view:
  assumes "db_inv d" and "runs_under x d" and "x \<noteq> 0" and "open_script_ok (st # sts) d" and "is_insert st"
    and "db_inv (snd (Execute (session x d) st d))"
  shows "committed_view x (snd (Execute (session x d) st d)) = spec_step (db_catalog d) st (committed_view x d)"
proof -
  obtain n names exprs where st: "st = InsertStatement n names exprs" using assms(5) by (cases st) auto
  obtain t rows where s: "statement_scope (db_catalog d) st (select_all d) = Some (n, t, rows)"
    and ok: "spec_ok t st rows" and w: "roomy 0 (Suc (length rows) + sum_list (map (weight (db_catalog d) (select_all d)) sts)) d"
    using assms(4) by (auto simp: open_script_ok_def applies_def weight_def statement_scope_Some st split: option.splits)
  note sc = s [unfolded statement_scope_Some]
  obtain hvs where h: "db_table d n t hvs" using db_inv_exists [OF assms(1)] sc by blast
  obtain vals where v: "insert_values t names exprs = Ok (tbl_Columns t, vals)" "tuple_fits vals (tbl_Columns t)"
    using ok by (auto simp: st split: result.splits)
  have g: "getAutoCommitWithXID (session x d) (db_txn d) = (x, False, db_txn d)"
    using assms(3) by (simp add: getAutoCommitWithXID_def session_def)
  let ?new = "[(\<lparr>Xmin = x, Xmax = 0\<rparr>, stored_row vals)]"
  have p: "unat (PageCount (file_of d (tbl_OID t))) + 1 < 2 ^ 32" using roomy_rooms [OF w, of t] by (simp add: file_room_def)
  obtain d' where e: "snd (Execute (session x d) st d) = d'" and post: "dml_post 1 d n t (db_txn d) (hvs @ ?new) d'"
    using executeInsert_rep [OF h v p g] by (auto simp: st after_txn_def)
  have u: "runs_under x d'" using assms(2) post by (simp add: runs_under_def dml_post_def)
  note c = commit_select [OF assms(1-3)] and c' = commit_select [OF assms(6) [unfolded e] u assms(3)]
  have t: "db_txn d' = db_txn d" "db_catalog d' = db_catalog d" "db_table d' n t (hvs @ ?new)"
    using post by (simp_all add: dml_post_def)
  have "\<not> committed (db_txn d) 0" using txn_inv_committed [OF db_inv_parts(2) [OF assms(1)], of 0] by auto
  then have "rows_of (Commit x (db_txn d)) ?new = [stored_row vals]"
    using c(3) assms(3) by (simp add: rows_of_def live_def)
  then have own: "committed_view x d n = Some (rows_of (Commit x (db_txn d)) hvs)"
    "committed_view x d' n = Some (rows_of (Commit x (db_txn d)) hvs @ [stored_row vals])"
    using c(2) [OF h] c'(2) [OF t(3)] t(1) by (simp_all add: committed_view_def)
  have "committed_view x d' m = committed_view x d m" if "m \<noteq> n" for m
  proof (rule GetTable_cases [of "''public''" m "db_catalog d"])
    fix u assume "GetTable ''public'' m (db_catalog d) = Ok u"
    then obtain gvs where m: "db_table d m u gvs" using db_inv_exists [OF assms(1)] by blast
    show ?thesis
      using c(2) [OF m] c'(2) [OF dml_post_other [OF db_inv_parts(1) [OF assms(1)] post that m]] t(1) by (simp add: committed_view_def)
  qed (simp add: committed_view_def select_all_missing t(2))
  then show ?thesis
    unfolding e using own sc v(1) by (auto simp: spec_step_def statement_scope_def st)
qed

lemma open_script:
  assumes "db_inv d" and "runs_under x d" and "x \<noteq> 0" and "open_script_ok sts d"
  shows "db_inv (run_script x sts d) \<and> runs_under x (run_script x sts d) \<and> select_all (run_script x sts d) = select_all d \<and>
    (list_all is_insert sts \<longrightarrow> committed_view x (run_script x sts d) = fold (spec_step (db_catalog d)) sts (committed_view x d))"
  using assms
proof (induction sts arbitrary: d)
  case (Cons st sts)
  obtain d' where e: "Execute (session x d) st d = (Ok (tag_only (step_tag (db_catalog d) st (select_all d))), d')"
    and d': "db_inv d'" "runs_under x d'" "db_catalog d' = db_catalog d" "select_all d' = select_all d" "open_script_ok sts d'"
    using open_script_step [OF Cons.prems] by metis
  have "is_insert st \<Longrightarrow> committed_view x d' = spec_step (db_catalog d) st (committed_view x d)"
    using insert_view [OF Cons.prems] e d'(1) by simp
  then show ?case using Cons.IH [OF d'(1,2) Cons.prems(3) d'(5)] d'(3,4) e by simp
qed simp

section \<open>Scripts on the wire\<close>

definition sendable :: "statement \<Rightarrow> bool" where
  "sendable st \<longleftrightarrow> statement_printable st \<and> length (sql_text st) < 2 ^ 32 - 5"

definition script_bytes :: "statement list \<Rightarrow> byte list" where
  "script_bytes sts = concat (map (query_message \<circ> sql_text) sts)"

definition tag_replies :: "txn_state \<Rightarrow> string list \<Rightarrow> byte list" where
  "tag_replies s tags = concat (map (\<lambda>tag. stream [(CHR ''C'', cstring tag), (CHR ''Z'', [txnStatusByte s])]) tags)"

text \<open>\<open>exchanged\<close>: the loop goes on with another state, having read and written the given bytes.\<close>

definition exchanged :: "(go_error \<Rightarrow> string) \<Rightarrow> conn_transaction \<times> db \<times> conn \<Rightarrow> byte list \<Rightarrow> byte list \<Rightarrow> conn_transaction \<times> db \<times> conn \<Rightarrow> bool" where
  "exchanged et s read out s' \<longleftrightarrow>
     (case (s, s') of ((ct, d, c), (ct', d', c')) \<Rightarrow>
        message_loop et ct d c = message_loop et ct' d' c' \<and> conn_in c = read @ conn_in c' \<and> conn_out c' = conn_out c @ out \<and> faultless c')"

lemma exchanged_refl: "faultless (snd (snd s)) \<Longrightarrow> exchanged et s [] [] s"
  by (cases s) (simp add: exchanged_def)

lemma exchanged_trans: "exchanged et s r1 o1 s1 \<Longrightarrow> exchanged et s1 r2 o2 s2 \<Longrightarrow> exchanged et s (r1 @ r2) (o1 @ o2) s2"
  by (cases s; cases s1; cases s2) (simp add: exchanged_def)

lemma exchanged_query:
  assumes "sendable st" and "faultless c" and "conn_in c = query_message (sql_text st) @ rs"
    and "\<And>c. \<exists>c'. handle_query et (sql_text st) ct d c = (Ok True, ct', d', c') \<and> answered c ms c'"
  obtains c' where "exchanged et (ct, d, c) (query_message (sql_text st)) (stream ms) (ct', d', c')" and "conn_in c' = rs" and "faultless c'"
proof -
  obtain c' where h: "handle_query et (sql_text st) ct d (c\<lparr>conn_in := rs\<rparr>) = (Ok True, ct', d', c')" and a: "answered (c\<lparr>conn_in := rs\<rparr>) ms c'"
    using assms(4) by blast
  have l: "length (sql_text st) < 2 ^ 32 - 5" using assms(1) by (simp add: sendable_def)
  show thesis
    using that [of c'] message_loop_query [OF assms(3) l h] a assms(2,3) by (auto simp: exchanged_def answered_def faultless_def)
qed

lemma handle_query_dml:
  assumes "statement_printable st" and "target st \<noteq> None" and "ct_State ct \<noteq> TxnFailed"
    and "Execute (session (ct_XID ct) d) st d = (Ok (tag_only tag), d')"
  shows "\<exists>c'. handle_query et (sql_text st) ct d c = (Ok True, ct, d', c') \<and> answered c [(CHR ''C'', cstring tag), (CHR ''Z'', [txnStatusByte (ct_State ct)])] c'"
proof -
  have "handle_query et (sql_text st) ct d c = handle_execute et st ct d c"
    using Parse_text [OF assms(1)] assms(2) by (cases st) (simp_all add: handle_query_def)
  also have "\<dots> = continue ct d' (send_result (tag_only tag) (ct_State ct) c)"
    using assms(3,4) by (simp add: handle_execute_def session_def)
  finally show ?thesis
    using continue_sends [OF sends_result_empty [of "tag_only tag" "ct_State ct"], of ct d' c] by (simp add: tag_only_def ready_def)
qed

lemma handle_query_block:
  "\<exists>c'. handle_query et (sql_text BeginStatement) idle_txn d c =
      (Ok True, \<lparr>ct_State = TxnInTransaction, ct_XID = fst (begin_txn d)\<rparr>, snd (begin_txn d), c') \<and>
    answered c [(CHR ''C'', cstring ''BEGIN''), (CHR ''Z'', [txnStatusByte TxnInTransaction])] c'"
  "\<exists>c'. handle_query et (sql_text CommitStatement) \<lparr>ct_State = TxnInTransaction, ct_XID = x\<rparr> d c =
      (Ok True, idle_txn, d\<lparr>db_txn := Commit x (db_txn d)\<rparr>, c') \<and>
    answered c [(CHR ''C'', cstring ''COMMIT''), (CHR ''Z'', [txnStatusByte TxnIdle])] c'"
  "\<exists>c'. handle_query et (sql_text RollbackStatement) \<lparr>ct_State = TxnInTransaction, ct_XID = x\<rparr> d c =
      (Ok True, idle_txn, d\<lparr>db_txn := Abort x (db_txn d)\<rparr>, c') \<and>
    answered c [(CHR ''C'', cstring ''ROLLBACK''), (CHR ''Z'', [txnStatusByte TxnIdle])] c'"
  using continue_sends [OF sends_complete, of "\<lparr>ct_State = TxnInTransaction, ct_XID = fst (begin_txn d)\<rparr>" "snd (begin_txn d)" "''BEGIN''" TxnInTransaction c]
    continue_sends [OF sends_complete, of idle_txn "d\<lparr>db_txn := Commit x (db_txn d)\<rparr>" "''COMMIT''" TxnIdle c]
    continue_sends [OF sends_complete, of idle_txn "d\<lparr>db_txn := Abort x (db_txn d)\<rparr>" "''ROLLBACK''" TxnIdle c]
  by (auto simp: handle_query_def Parse_text handle_begin_def handle_commit_def handle_rollback_def begin_txn_def
      idle_txn_def ready_def Let_def split: prod.splits)


lemma exchanged_dml:
  assumes "sendable st" and "target st \<noteq> None" and "ct_State ct \<noteq> TxnFailed"
    and "Execute (session (ct_XID ct) d) st d = (Ok (tag_only tag), d')" and "faultless c" and "conn_in c = script_bytes (st # sts) @ rs"
  obtains c' where "exchanged et (ct, d, c) (query_message (sql_text st)) (tag_replies (ct_State ct) [tag]) (ct, d', c')"
    and "conn_in c' = script_bytes sts @ rs" and "faultless c'"
proof -
  have p: "statement_printable st" using assms(1) by (simp add: sendable_def)
  have i: "conn_in c = query_message (sql_text st) @ script_bytes sts @ rs" using assms(6) by (simp add: script_bytes_def)
  show thesis
    by (rule exchanged_query [OF assms(1,5) i handle_query_dml [OF p assms(2-4)], of et]) (rule that, simp_all add: tag_replies_def)
qed

text \<open>A script, statement after statement, on one connection.\<close>

lemma exchanged_script:
  assumes "db_inv d" and "script_ok (db_catalog d) sts (select_all d)"
    and "roomy (length sts) (script_weight (db_catalog d) sts (select_all d)) d" and "list_all sendable sts" and "faultless c" and "conn_in c = script_bytes sts @ rs"
  shows "\<exists>c'. exchanged et (idle_txn, d, c) (script_bytes sts) (tag_replies TxnIdle (spec_tags (db_catalog d) sts (select_all d)))
    (idle_txn, run_script 0 sts d, c')"
  using assms
proof (induction sts arbitrary: d c)
  case Nil
  then show ?case using exchanged_refl [of "(idle_txn, d, c)" et] by (auto simp: script_bytes_def tag_replies_def)
next
  case (Cons st sts)
  obtain d' where e: "Execute (session 0 d) st d = (Ok (tag_only (step_tag (db_catalog d) st (select_all d))), d')"
    and d': "db_inv d'" "db_catalog d' = db_catalog d" "select_all d' = spec_step (db_catalog d) st (select_all d)"
      "roomy (length sts) (script_weight (db_catalog d) sts (spec_step (db_catalog d) st (select_all d))) d'"
    using script_step [OF Cons.prems(1)] Cons.prems(2,3) by (metis length_Cons script_ok.simps(2) script_weight.simps(2))
  have st: "sendable st" "target st \<noteq> None" using Cons.prems(2,4) by (auto simp: applies_def statement_scope_def split: option.splits)
  have ct: "ct_State idle_txn = TxnIdle" "ct_XID idle_txn = 0" by (simp_all add: idle_txn_def)
  obtain c1 where x: "exchanged et (idle_txn, d, c) (query_message (sql_text st))
      (tag_replies TxnIdle [step_tag (db_catalog d) st (select_all d)]) (idle_txn, d', c1)"
    and c1: "conn_in c1 = script_bytes sts @ rs" "faultless c1"
    using exchanged_dml [OF st _ _ Cons.prems(5,6), of idle_txn d _ d' et] e ct by auto
  obtain c' where "exchanged et (idle_txn, d', c1) (script_bytes sts) (tag_replies TxnIdle (spec_tags (db_catalog d) sts (select_all d')))
      (idle_txn, run_script 0 sts d', c')"
    using Cons.IH [OF d'(1) _ _ _ c1(2,1)] Cons.prems(2,4) d'(2-4) by auto
  from exchanged_trans [OF x this] show ?case using e d'(3) by (auto simp: script_bytes_def tag_replies_def)
qed

lemma exchanged_open_script:
  assumes "db_inv d" and "runs_under x d" and "x \<noteq> 0" and "open_script_ok sts d" and "list_all sendable sts" and "faultless c"
    and "conn_in c = script_bytes sts @ rs" and "ct = \<lparr>ct_State = TxnInTransaction, ct_XID = x\<rparr>"
  shows "\<exists>c'. exchanged et (ct, d, c) (script_bytes sts) (tag_replies TxnInTransaction (map (\<lambda>st. step_tag (db_catalog d) st (select_all d)) sts))
    (ct, run_script x sts d, c')"
  using assms
proof (induction sts arbitrary: d c)
  case Nil
  then show ?case using exchanged_refl [of "(ct, d, c)" et] by (auto simp: script_bytes_def tag_replies_def)
next
  case (Cons st sts)
  obtain d' where e: "Execute (session x d) st d = (Ok (tag_only (step_tag (db_catalog d) st (select_all d))), d')"
    and d': "db_inv d'" "runs_under x d'" "db_catalog d' = db_catalog d" "select_all d' = select_all d" "open_script_ok sts d'"
    using open_script_step [OF Cons.prems(1-4)] by metis
  have st: "sendable st" "target st \<noteq> None" using Cons.prems(4,5) by (auto simp: open_script_ok_def applies_def statement_scope_def split: option.splits)
  obtain c1 where x: "exchanged et (ct, d, c) (query_message (sql_text st))
      (tag_replies TxnInTransaction [step_tag (db_catalog d) st (select_all d)]) (ct, d', c1)"
    and c1: "conn_in c1 = script_bytes sts @ rs" "faultless c1"
    using exchanged_dml [OF st _ _ Cons.prems(6,7), of ct d _ d' et] e Cons.prems(8) by auto
  obtain c' where "exchanged et (ct, d', c1) (script_bytes sts)
      (tag_replies TxnInTransaction (map (\<lambda>st. step_tag (db_catalog d') st (select_all d')) sts)) (ct, run_script x sts d', c')"
    using Cons.IH [OF d'(1,2) Cons.prems(3) d'(5) _ c1(2,1) Cons.prems(8)] Cons.prems(5) by auto
  from exchanged_trans [OF x this] show ?case using e d'(3,4) by (auto simp: script_bytes_def tag_replies_def)
qed

text \<open>A whole transaction block.\<close>

definition block_bytes :: "statement list \<Rightarrow> statement \<Rightarrow> byte list" where
  "block_bytes sts fin = query_message (sql_text BeginStatement) @ script_bytes sts @ query_message (sql_text fin)"

lemma sendable_block: "fin \<in> {BeginStatement, CommitStatement, RollbackStatement} \<Longrightarrow> sendable fin"
proof -
  have "length (sql_text BeginStatement) < 100" "length (sql_text CommitStatement) < 100" "length (sql_text RollbackStatement) < 100"
    by code_simp+
  then show "fin \<in> {BeginStatement, CommitStatement, RollbackStatement} \<Longrightarrow> sendable fin" by (auto simp: sendable_def)
qed

definition decide :: "statement \<Rightarrow> u64 \<Rightarrow> db \<Rightarrow> db" where
  "decide fin x d = d\<lparr>db_txn := (if fin = CommitStatement then Commit else Abort) x (db_txn d)\<rparr>"

lemma exchanged_block:
  assumes "db_inv d" and "xid_room (db_txn d)" and "begin_txn d = (x, d1)" and "open_script_ok sts d1" and "list_all sendable sts"
    and "faultless c" and "conn_in c = block_bytes sts fin @ rs" and "fin \<in> {CommitStatement, RollbackStatement}"
  shows "\<exists>c'. exchanged et (idle_txn, d, c) (block_bytes sts fin)
    (tag_replies TxnInTransaction (''BEGIN'' # map (\<lambda>st. step_tag (db_catalog d) st (select_all d)) sts) @
     tag_replies TxnIdle [if fin = CommitStatement then ''COMMIT'' else ''ROLLBACK''])
    (idle_txn, decide fin x (run_script x sts d1), c')"
proof -
  note b = begin_txn [OF assms(1-3)]
  have s: "select_all d1 = select_all d" using b(4) by auto
  let ?ct = "\<lparr>ct_State = TxnInTransaction, ct_XID = x\<rparr>" and ?q = "query_message (sql_text fin)" and ?tag = "if fin = CommitStatement then ''COMMIT'' else ''ROLLBACK''"
  have i: "conn_in c = query_message (sql_text BeginStatement) @ script_bytes sts @ ?q @ rs" using assms(7) by (simp add: block_bytes_def)
  have hb: "\<exists>c'. handle_query et (sql_text BeginStatement) idle_txn d c = (Ok True, ?ct, d1, c') \<and>
      answered c [(CHR ''C'', cstring ''BEGIN''), (CHR ''Z'', [txnStatusByte TxnInTransaction])] c'" for c
    using handle_query_block(1) [of et d c] assms(3) by simp
  obtain c1 where x1: "exchanged et (idle_txn, d, c) (query_message (sql_text BeginStatement))
      (tag_replies TxnInTransaction [''BEGIN'']) (?ct, d1, c1)"
    and c1: "conn_in c1 = script_bytes sts @ ?q @ rs" "faultless c1"
    by (rule exchanged_query [OF sendable_block assms(6) i hb]) (auto simp: tag_replies_def)
  obtain c2 where x2: "exchanged et (?ct, d1, c1) (script_bytes sts)
      (tag_replies TxnInTransaction (map (\<lambda>st. step_tag (db_catalog d) st (select_all d)) sts)) (?ct, run_script x sts d1, c2)"
    using exchanged_open_script [OF b(1-3) assms(4,5) c1(2,1) refl, of et, unfolded b(5) s] by blast
  then have c2: "conn_in c2 = ?q @ rs" "faultless c2" using c1(1) by (simp_all add: exchanged_def)
  have hf: "\<exists>c'. handle_query et (sql_text fin) ?ct d' c = (Ok True, idle_txn, decide fin x d', c') \<and>
      answered c [(CHR ''C'', cstring ?tag), (CHR ''Z'', [txnStatusByte TxnIdle])] c'" for c d'
    using assms(8) handle_query_block(2,3) by (auto simp: decide_def)
  obtain c3 where x3: "exchanged et (?ct, run_script x sts d1, c2) ?q (tag_replies TxnIdle [?tag]) (idle_txn, decide fin x (run_script x sts d1), c3)"
    by (rule exchanged_query [OF sendable_block c2(2,1) hf]) (use assms(8) in \<open>auto simp: tag_replies_def\<close>)
  from exchanged_trans [OF exchanged_trans [OF x1 x2] x3] show ?thesis by (auto simp: block_bytes_def tag_replies_def)
qed

lemma block_rows:
  assumes "db_inv d" and "xid_room (db_txn d)" and "begin_txn d = (x, d1)" and "open_script_ok sts d1"
  shows "db_inv (decide fin x (run_script x sts d1))" and "select_all (run_script x sts d1) = select_all d"
    and "fin \<noteq> CommitStatement \<Longrightarrow> select_all (decide fin x (run_script x sts d1)) = select_all d"
    and "list_all is_insert sts \<Longrightarrow> select_all (decide CommitStatement x (run_script x sts d1)) = fold (spec_step (db_catalog d)) sts (select_all d)"
proof -
  note b = begin_txn [OF assms(1-3)]
  have s: "select_all d1 = select_all d" using b(4) by auto
  note o = open_script [OF b(1-3) assms(4), unfolded s]
  show "select_all (run_script x sts d1) = select_all d" using o by simp
  show "db_inv (decide fin x (run_script x sts d1))"
    using o abort_select(2) [OF _ _ b(3)] commit_select(1) [OF _ _ b(3)] by (simp add: decide_def)
  show "fin \<noteq> CommitStatement \<Longrightarrow> select_all (decide fin x (run_script x sts d1)) = select_all d"
    using o abort_select(1) [OF _ _ b(3)] by (auto simp: decide_def)
  show "list_all is_insert sts \<Longrightarrow> select_all (decide CommitStatement x (run_script x sts d1)) = fold (spec_step (db_catalog d)) sts (select_all d)"
    using o committed_view_begin [OF assms(1-3)] b(5) by (simp add: decide_def committed_view_def)
qed

section \<open>A small script\<close>

lemma demo_script:
  "script_ok (db_catalog demo_db) [demo_insert] (select_all demo_db)"
  "roomy (length [demo_insert]) (script_weight (db_catalog demo_db) [demo_insert] (select_all demo_db)) demo_db"
  "begin_txn demo_db = (x, d1) \<Longrightarrow> open_script_ok [demo_insert] d1" "list_all sendable [demo_insert]"
  "script_bytes [demo_insert] = query_message (sql_text demo_insert)"
  "spec_tags (db_catalog demo_db) [demo_insert] (select_all demo_db) = [''INSERT 0 1'']"
  "fold (spec_step (db_catalog demo_db)) [demo_insert] (select_all demo_db) ''t'' = Some [[Some (VInt32 7), Some (VString ''ab'')]]"
proof -
  have s: "statement_scope (db_catalog demo_db) demo_insert (select_all demo_db) = Some (''t'', demo_table, [])"
    using demo_db demo_insert(1) by (simp add: statement_scope_Some)
  show "script_ok (db_catalog demo_db) [demo_insert] (select_all demo_db)" using s demo_insert(2) by (simp add: applies_def)
  have f: "PageCount (file_of demo_db oid) = 0" "nextXID (db_txn demo_db) = 0" for oid
    by (simp_all add: demo_db_eq db_init_def file_of_def PageCount_def NewTxnManager_def)
  show "roomy (length [demo_insert]) (script_weight (db_catalog demo_db) [demo_insert] (select_all demo_db)) demo_db"
    using s f by (simp add: roomy_def weight_def)
  show "spec_tags (db_catalog demo_db) [demo_insert] (select_all demo_db) = [''INSERT 0 1'']"
    "fold (spec_step (db_catalog demo_db)) [demo_insert] (select_all demo_db) ''t'' = Some [[Some (VInt32 7), Some (VString ''ab'')]]"
    using s demo_insert by (simp_all add: step_tag_def spec_step_def)
  have "statement_printable demo_insert" "length (sql_text demo_insert) < 100" by code_simp+
  then show "list_all sendable [demo_insert]" by (simp add: sendable_def)
  show "script_bytes [demo_insert] = query_message (sql_text demo_insert)" by (simp add: script_bytes_def)
  assume b: "begin_txn demo_db = (x, d1)"
  then have d1: "db_catalog d1 = db_catalog demo_db" "select_all d1 = select_all demo_db" "db_files d1 = db_files demo_db" "nextXID (db_txn d1) = 1"
    using begin_txn(4,5) [OF demo_db(1) demo_rooms(1) b] by (auto simp: begin_txn_def NextXID_def f(2))
  then show "open_script_ok [demo_insert] d1"
    using s f demo_insert(2) by (simp add: open_script_ok_def applies_def weight_def roomy_def file_of_def)
qed

end
