(* ===== verification/Conflicts.thy ===== *)
theory Conflicts
  imports Database
begin

text \<open>
  Where the versions of \<open>internal/executor/executor.go\<close> and the visibility rules of
  \<open>internal/txn/txn.go\<close> fall short of isolation: transactions that write the same rows, and
  a transaction that writes its own rows twice. \<open>IsVisible\<close> has no case for the transaction
  itself, and nothing checks \<open>Xmax\<close> before it is overwritten.
\<close>

section \<open>Two transactions delete the same rows\<close>

text \<open>The later delete overwrites the mark of the earlier one.\<close>

lemma mark_mark:
  assumes "\<not> committed tm x" and "\<And>hv. matches snap tm cols wh hv \<longleftrightarrow> live tm hv \<and> where_true cols wh (snd hv)"
  shows "mark snap tm cols wh y (mark snap tm cols wh x hv) = mark snap tm cols wh y hv"
proof -
  have "matches snap tm cols wh (mark snap tm cols wh x hv) = matches snap tm cols wh hv"
    using live_mark [OF assms(1), of snap tm cols wh hv] assms(2) by simp
  then show ?thesis by (auto simp: mark_def)
qed

lemma rows_of_lost_mark:
  assumes "\<And>z. committed tm' z \<longleftrightarrow> z = x \<or> committed tm z" and "\<not> committed tm y" and "y \<noteq> x"
    and "\<forall>hv \<in> set hvs. Xmin (fst hv) \<noteq> x \<and> Xmax (fst hv) \<noteq> x"
    and "\<And>hv. matches snap tm cols wh hv \<longleftrightarrow> live tm hv \<and> where_true cols wh (snd hv)"
  shows "rows_of tm' (map (mark snap tm cols wh y) hvs) = rows_of tm hvs"
proof -
  have "rows_of tm' (map (mark snap tm cols wh y) hvs) = rows_of tm' hvs"
  proof -
    have "live tm' (mark snap tm cols wh y hv) = live tm' hv" if "hv \<in> set hvs" for hv
      using assms that by (auto simp: mark_def live_def)
    then show ?thesis unfolding rows_of_def filter_map map_map by (auto simp: o_def intro!: arg_cong [where f = "map snd"] filter_cong)
  qed
  also have "\<dots> = rows_of tm hvs" using assms(1,4) by (rule rows_of_commit_frame)
  finally show ?thesis .
qed

lemma open_xid: "x \<noteq> 0 \<Longrightarrow> getAutoCommitWithXID (session x d) tm = (x, False, tm)"
  by (simp add: getAutoCommitWithXID_def session_def)

lemma begin_twice:
  assumes "db_inv d" and "xid_room (db_txn d)" and "begin_txn d = (x, d1)" and "xid_room (db_txn d1)" and "begin_txn d1 = (y, d2)"
  shows "\<not> committed (db_txn d2) x" and "\<not> committed (db_txn d2) y" and "x \<noteq> y" and "0 < x" and "x \<le> nextXID (db_txn d2)"
    and "0 < y" and "y \<le> nextXID (db_txn d2)"
proof -
  note b1 = begin_txn [OF assms(1-3)] and b2 = begin_txn [OF begin_txn(1) [OF assms(1-3)] assms(4,5)]
  obtain tm where t: "NextXID (db_txn d1) = (y, tm)" "d2 = d1\<lparr>db_txn := tm\<rparr>"
    using assms(5) by (auto simp: begin_txn_def split: prod.splits)
  have x: "x \<le> nextXID (db_txn d1)" "\<not> committed (db_txn d1) x" using b1(2) by (simp_all add: runs_under_def)
  note f = NextXID_fresh [OF db_inv_parts(2) [OF b1(1)] t(1)]
  show "x \<noteq> y" using f(3) [of x] x(1) by simp
  show "\<not> committed (db_txn d2) x" using x(2) committed_NextXID [of "db_txn d1" x] t by simp
  show "\<not> committed (db_txn d2) y" "y \<le> nextXID (db_txn d2)" using b2(2) by (simp_all add: runs_under_def)
  show "0 < x" "0 < y" using b1(3) b2(3) by (simp_all add: word_gt_0)
  have "nextXID (db_txn d1) \<le> y"
    using unat_Suc_nextXID [OF db_inv_parts(2) [OF b1(1)]] t(1) by (auto simp: NextXID_def Let_def word_le_nat_alt)
  then show "x \<le> nextXID (db_txn d2)" using x(1) f(2) t(2) by simp
qed

lemma open_delete:
  assumes "db_table d tname table hvs" and "txn_inv (db_txn d)" and "x \<noteq> 0"
    and "\<forall>r \<in> set (rows_of (db_txn d) hvs). where_ok (tbl_Columns table) wh r"
  obtains d' where "Execute (session x d) (DeleteStatement tname wh) d =
      (Ok (tag_only (''DELETE '' @ FormatInt (int (length (filter (where_true (tbl_Columns table) wh) (rows_of (db_txn d) hvs)))))), d')"
    and "db_txn d' = db_txn d" and "db_table d' tname table (map (mark (TakeSnapshot (db_txn d)) (db_txn d) (tbl_Columns table) wh x) hvs)"
proof -
  show thesis using executeDelete_rep [OF assms(1,2,4) open_xid [OF assms(3)]] that by (auto simp: dml_post_def after_txn_def)
qed

text \<open>C17. A committed \<open>DELETE\<close> can be undone by another transaction's rollback. Two open transactions delete the same rows, which both still see; each is told it deleted them. The second writes its identifier over the first one's. When the first commits and the second rolls back, all the rows are visible again.\<close>

theorem lost_delete:
  assumes "db_inv d" and "xid_room (db_txn d)" and "begin_txn d = (x, d1)" and "xid_room (db_txn d1)" and "begin_txn d1 = (y, d2)"
    and "GetTable ''public'' tname (db_catalog d) = Ok table" and "select_all d tname = Some rows"
    and "list_all (where_ok (tbl_Columns table) wh) rows" and "del = DeleteStatement tname wh"
  shows "\<exists>d3 d4. Execute (session x d2) del d2 = (Ok (tag_only (spec_tag table del rows)), d3) \<and>
    Execute (session y d3) del d3 = (Ok (tag_only (spec_tag table del rows)), d4) \<and>
    select_all (d4\<lparr>db_txn := Abort y (Commit x (db_txn d4))\<rparr>) tname = Some rows"
proof -
  note b1 = begin_txn [OF assms(1-3)] and b2 = begin_txn [OF begin_txn(1) [OF assms(1-3)] assms(4,5)]
  let ?tm = "db_txn d2" and ?cols = "tbl_Columns table"
  let ?m = "mark (TakeSnapshot ?tm) ?tm ?cols wh"
  obtain hvs where h: "db_table d tname table hvs" "below (db_txn d) hvs" using db_inv_exists [OF assms(1,6)] by blast
  have h2: "db_table d2 tname table hvs"
    using h(1) assms(3,5) by (auto simp: begin_txn_def split: prod.splits)
  note i = db_inv_parts(2) [OF b2(1)]
  have r: "rows_of ?tm hvs = rows" using select_all_rows [OF h2 i] b1(4) b2(4) assms(7) by simp
  note u = begin_twice [OF assms(1-5)]
  have m: "matches (TakeSnapshot ?tm) ?tm ?cols wh hv \<longleftrightarrow> live ?tm hv \<and> where_true ?cols wh (snd hv)" for hv
    using scan_now(1) [OF i open_xid [OF b1(3)]] .
  obtain d3 where d3: "Execute (session x d2) del d2 = (Ok (tag_only (spec_tag table del rows)), d3)"
    "db_txn d3 = ?tm" "db_table d3 tname table (map (?m x) hvs)"
    using open_delete [OF h2 i b1(3), of wh] assms(8,9) r by (auto simp: list_all_iff)
  have r3: "rows_of ?tm (map (?m x) hvs) = rows" unfolding r [symmetric] using m by (intro rows_of_mark [OF u(1)]) simp
  obtain d4 where d4: "Execute (session y d3) del d3 = (Ok (tag_only (spec_tag table del rows)), d4)"
    "db_txn d4 = ?tm" "db_table d4 tname table (map (?m y) hvs)"
    using open_delete [OF d3(3), of y wh] d3(2) i b2(3) assms(8,9) r3 mark_mark [OF u(1) m, of y] by (auto simp: list_all_iff o_def)
  have "txn_inv (Abort y (Commit x ?tm))" unfolding Abort_def Commit_def using i u by (intro txn_inv_SetStatus) simp_all
  from select_all_txn [OF d4(3) this]
  have "select_all (d4\<lparr>db_txn := Abort y (Commit x ?tm)\<rparr>) tname = Some (rows_of (Abort y (Commit x ?tm)) (map (?m y) hvs))" .
  moreover have "rows_of (Abort y (Commit x ?tm)) (map (?m y) hvs) = rows"
    unfolding r [symmetric] using u b1(6) [OF h(2)] m
    by (intro rows_of_lost_mark) (auto simp: Abort_def Commit_def committed_SetStatus)
  ultimately show ?thesis using d3(1) d4(1,2) by auto
qed


section \<open>A transaction updates the same rows twice\<close>

text \<open>The versions that an update of an uncommitted transaction leaves, as lists.\<close>

definition update_versions :: "txn_manager \<Rightarrow> string \<Rightarrow> set_clause list \<Rightarrow> column_def list \<Rightarrow> expression option \<Rightarrow> u64 \<Rightarrow> version list \<Rightarrow> version list" where
  "update_versions tm tname sets cols wh x hvs =
     map (mark (TakeSnapshot tm) tm cols wh x) hvs @
     map (updated tname sets cols x) (filter (\<lambda>hv. live tm hv \<and> where_true cols wh (snd hv)) hvs)"

text \<open>An update of an open transaction in terms of the versions it leaves.\<close>

lemma open_update:
  assumes "db_table d tname table hvs" and "txn_inv (db_txn d)" and "x \<noteq> 0" and "\<not> committed (db_txn d) x"
    and "spec_ok table (UpdateStatement tname sets wh) (rows_of (db_txn d) hvs)" and "file_room d table (rows_of (db_txn d) hvs)"
  obtains d' where "Execute (session x d) (UpdateStatement tname sets wh) d =
      (Ok (tag_only (spec_tag table (UpdateStatement tname sets wh) (rows_of (db_txn d) hvs))), d')"
    and "db_txn d' = db_txn d"
    and "db_table d' tname table (update_versions (db_txn d) tname sets (tbl_Columns table) wh x hvs)"
    and "unat (PageCount (file_of d' (tbl_OID table))) \<le> unat (PageCount (file_of d (tbl_OID table))) + length (rows_of (db_txn d) hvs)"
proof -
  have w: "\<forall>r \<in> set (rows_of (db_txn d) hvs). where_ok (tbl_Columns table) wh r"
    and u: "\<forall>hv \<in> set hvs. live (db_txn d) hv \<and> where_true (tbl_Columns table) wh (snd hv) \<longrightarrow> update_ok tname sets (tbl_Columns table) hv"
    using assms(5) by (auto simp: rows_of_def update_ok_def set_ok_def list_all_iff)
  have p: "unat (PageCount (file_of d (tbl_OID table))) + length (rows_of (db_txn d) hvs) < 2 ^ 32"
    using assms(6) by (simp add: file_room_def)
  show thesis
    using executeUpdate_rep [OF assms(1,2) w u p open_xid [OF assms(3)] assms(4)] that by (auto simp: dml_post_def after_txn_def update_versions_def)
qed

lemma rows_of_updated:
  assumes "committed tm x" and "\<not> committed tm 0"
  shows "rows_of tm (map (updated tname sets cols x) hvs) = map snd (map (updated tname sets cols x) hvs)"
  using rows_of_updated_commit [OF assms] by simp

lemma rows_of_update_versions:
  assumes "\<not> committed tm x" and "\<And>hv. matches (TakeSnapshot tm) tm cols wh hv \<longleftrightarrow> live tm hv \<and> where_true cols wh (snd hv)"
  shows "rows_of tm (update_versions tm tname sets cols wh x hvs) = rows_of tm hvs"
proof -
  let ?new = "map (updated tname sets cols x) (filter (\<lambda>hv. live tm hv \<and> where_true cols wh (snd hv)) hvs)"
  have "rows_of tm ?new = []" using assms(1) by (intro rows_of_new) (auto simp: updated_def)
  then show ?thesis using rows_of_mark [OF assms(1), of "TakeSnapshot tm" tm cols wh hvs] assms(2) by (simp add: update_versions_def)
qed

lemma rows_of_double_update:
  assumes "\<not> committed tm x" and "\<And>hv. matches (TakeSnapshot tm) tm cols wh hv \<longleftrightarrow> live tm hv \<and> where_true cols wh (snd hv)"
    and "\<And>z. committed tm' z \<longleftrightarrow> z = x \<or> committed tm z" and "\<not> committed tm' 0"
    and "\<forall>hv \<in> set hvs. Xmin (fst hv) \<noteq> x \<and> Xmax (fst hv) \<noteq> x"
  shows "rows_of tm' (update_versions tm tname sets2 cols wh x (update_versions tm tname sets1 cols wh x hvs)) =
    filter (\<lambda>r. \<not> where_true cols wh r) (rows_of tm hvs) @
    map (set_row tname sets1 cols) (filter (where_true cols wh) (rows_of tm hvs)) @
    map (set_row tname sets2 cols) (filter (where_true cols wh) (rows_of tm hvs))"
proof -
  let ?m = "mark (TakeSnapshot tm) tm cols wh x"
  let ?new = "map (updated tname sets1 cols x) (filter (\<lambda>hv. live tm hv \<and> where_true cols wh (snd hv)) hvs)"
  let ?hvs1 = "update_versions tm tname sets1 cols wh x hvs"
  have "?m hv = hv" if "hv \<in> set ?new" for hv
    using that assms(1,2) by (auto simp: mark_def updated_def live_def)
  then have "map ?m ?new = ?new" by (rule map_idI)
  moreover have "map ?m (map ?m hvs) = map ?m hvs" using mark_mark [OF assms(1,2)] by simp
  ultimately have "map ?m ?hvs1 = ?hvs1" unfolding update_versions_def map_append by presburger
  moreover have "rows_of tm' ?hvs1 = filter (\<lambda>r. \<not> where_true cols wh r) (rows_of tm hvs) @
      map (set_row tname sets1 cols) (filter (where_true cols wh) (rows_of tm hvs))"
    unfolding update_versions_def rows_of_append using rows_of_mark_commit [OF assms(3,5,2)]
      rows_of_updated [of tm' x] map_snd_updated [of tname sets1 cols x tm wh hvs] assms(3,4) by simp
  ultimately show ?thesis
    unfolding update_versions_def [of tm tname sets2] rows_of_append
    using rows_of_updated [of tm' x] map_snd_updated [of tname sets2 cols x tm wh ?hvs1] rows_of_update_versions [OF assms(1,2)] assms(3,4) by simp
qed

text \<open>C18. A transaction does not see its own writes: a second \<open>UPDATE\<close> of the same rows in one transaction finds the old rows again and reports as many, and after the commit every updated row is there twice, once as each statement made it.\<close>

theorem double_update:
  assumes "db_inv d" and "xid_room (db_txn d)" and "begin_txn d = (x, d1)"
    and "GetTable ''public'' tname (db_catalog d) = Ok table" and "select_all d tname = Some rows"
    and "upd1 = UpdateStatement tname sets1 wh" and "upd2 = UpdateStatement tname sets2 wh"
    and "spec_ok table upd1 rows" and "spec_ok table upd2 rows"
    and "unat (PageCount (file_of d (tbl_OID table))) + 2 * length rows + 1 < 2 ^ 32"
  shows "\<exists>d2 d3. Execute (session x d1) upd1 d1 = (Ok (tag_only (spec_tag table upd1 rows)), d2) \<and>
    Execute (session x d2) upd2 d2 = (Ok (tag_only (spec_tag table upd2 rows)), d3) \<and>
    select_all (d3\<lparr>db_txn := Commit x (db_txn d3)\<rparr>) tname =
      Some (spec_rows table upd1 rows @ map (set_row tname sets2 (tbl_Columns table)) (filter (where_true (tbl_Columns table) wh) rows))"
proof -
  note b = begin_txn [OF assms(1-3)]
  let ?tm = "db_txn d1" and ?cols = "tbl_Columns table"
  let ?upd = "\<lambda>sets. update_versions ?tm tname sets ?cols wh x"
  obtain hvs where h: "db_table d tname table hvs" "below (db_txn d) hvs" using db_inv_exists [OF assms(1,4)] by blast
  have d1: "db_table d1 tname table hvs" "file_room d1 table rows" "file_of d1 = file_of d"
    using h(1) assms(3,10) by (auto simp: begin_txn_def file_room_def file_of_def split: prod.splits)
  note i = db_inv_parts(2) [OF b(1)]
  have r: "rows_of ?tm hvs = rows" using select_all_rows [OF d1(1) i] b(4) assms(5) by simp
  have u: "\<not> committed ?tm x" using b(2) by (simp add: runs_under_def)
  have m: "matches (TakeSnapshot ?tm) ?tm ?cols wh hv \<longleftrightarrow> live ?tm hv \<and> where_true ?cols wh (snd hv)" for hv
    using scan_now(1) [OF i open_xid [OF b(3)]] .
  obtain d2 where e1: "Execute (session x d1) upd1 d1 = (Ok (tag_only (spec_tag table upd1 rows)), d2)" "db_txn d2 = ?tm"
    "db_table d2 tname table (?upd sets1 hvs)"
    and "unat (PageCount (file_of d2 (tbl_OID table))) \<le> unat (PageCount (file_of d1 (tbl_OID table))) + length rows"
    using open_update [OF d1(1) i b(3) u, of sets1 wh] assms(6,8) d1(2) unfolding r by metis
  then have f2: "file_room d2 table rows" using assms(10) d1(3) by (simp add: file_room_def)
  have r2: "rows_of ?tm (?upd sets1 hvs) = rows" using rows_of_update_versions [OF u m] r by simp
  obtain d3 where e2: "Execute (session x d2) upd2 d2 = (Ok (tag_only (spec_tag table upd2 rows)), d3)" "db_txn d3 = ?tm"
    "db_table d3 tname table (?upd sets2 (?upd sets1 hvs))"
    using open_update [OF e1(3), of x sets2 wh] i b(3) u assms(7,9) f2 unfolding e1(2) r2 by metis
  have c: "committed (Commit x ?tm) z \<longleftrightarrow> z = x \<or> committed ?tm z" for z by (simp add: Commit_def committed_SetStatus)
  have z: "\<not> committed (Commit x ?tm) 0" using c b(3) txn_inv_committed [OF i, of 0] by auto
  have "txn_inv (Commit x ?tm)"
    unfolding Commit_def using i b(2,3) by (intro txn_inv_SetStatus) (auto simp: runs_under_def word_gt_0)
  from select_all_txn [OF e2(3) this] show ?thesis
    using e1(1) e2(1,2) rows_of_double_update [OF u m c z b(6) [OF h(2)], of tname sets2 sets1] r assms(6) by auto
qed


section \<open>A table with one row\<close>

lemma demo_db1_rooms:
  "unat (nextXID (db_txn demo_db1)) \<le> 1" "unat (PageCount (file_of demo_db1 oid)) \<le> 1"
proof -
  have "grows_by 1 1 demo_db demo_db1"
    using autocommit_rows [OF demo_db(1) demo_rooms(1) demo_db(2) demo_insert(1) demo_db(3) demo_insert(2) demo_rooms(2)]
    by (auto simp: demo_db1_def)
  moreover have "PageCount (file_of demo_db oid) = 0" "nextXID (db_txn demo_db) = 0" for oid
    by (simp_all add: demo_db_eq db_init_def file_of_def PageCount_def NewTxnManager_def)
  ultimately show "unat (nextXID (db_txn demo_db1)) \<le> 1" "unat (PageCount (file_of demo_db1 oid)) \<le> 1"
    by (simp_all add: grows_by_def)
qed

theorem lost_delete_witness:
  "\<exists>x y d1 d2 d3 d4. begin_txn demo_db1 = (x, d1) \<and> begin_txn d1 = (y, d2) \<and>
     Execute (session x d2) (DeleteStatement ''t'' None) d2 = (Ok (tag_only ''DELETE 1''), d3) \<and>
     Execute (session y d3) (DeleteStatement ''t'' None) d3 = (Ok (tag_only ''DELETE 1''), d4) \<and>
     select_all (d4\<lparr>db_txn := Abort y (Commit x (db_txn d4))\<rparr>) ''t'' = Some [[Some (VInt32 7), Some (VString ''ab'')]]"
proof -
  let ?rows = "[[Some (VInt32 7), Some (VString ''ab'')]]"
  obtain x d1 where b: "begin_txn demo_db1 = (x, d1)" by (cases "begin_txn demo_db1")
  obtain y d2 where b': "begin_txn d1 = (y, d2)" by (cases "begin_txn d1")
  have r: "xid_room (db_txn demo_db1)" using demo_db1_rooms(1) by (simp add: xid_room_def)
  have "unat (nextXID (db_txn d1)) \<le> 2"
    using b unat_Suc_nextXID [OF db_inv_parts(2) [OF demo_db1(1)]] demo_db1_rooms(1) by (auto simp: begin_txn_def NextXID_def Let_def)
  then have r1: "xid_room (db_txn d1)" by (simp add: xid_room_def)
  have w: "list_all (where_ok (tbl_Columns demo_table) None) ?rows" by (simp add: where_ok_def)
  have t: "spec_tag demo_table (DeleteStatement ''t'' None) ?rows = ''DELETE 1''" by code_simp
  show ?thesis using lost_delete [OF demo_db1(1) r b r1 b' demo_db1(2,3) w refl] b b' unfolding t by blast
qed

theorem double_update_witness:
  "\<exists>x d1 d2 d3. begin_txn demo_db1 = (x, d1) \<and>
     Execute (session x d1) (UpdateStatement ''t'' [\<lparr>set_Column = ''id'', set_Value = IntegerLiteral 8\<rparr>] None) d1 = (Ok (tag_only ''UPDATE 1''), d2) \<and>
     Execute (session x d2) (UpdateStatement ''t'' [\<lparr>set_Column = ''id'', set_Value = IntegerLiteral 9\<rparr>] None) d2 = (Ok (tag_only ''UPDATE 1''), d3) \<and>
     select_all (d3\<lparr>db_txn := Commit x (db_txn d3)\<rparr>) ''t'' =
       Some [[Some (VInt32 8), Some (VString ''ab'')], [Some (VInt32 9), Some (VString ''ab'')]]"
proof -
  let ?rows = "[[Some (VInt32 7), Some (VString ''ab'')]]"
  let ?upd = "\<lambda>i. UpdateStatement ''t'' [\<lparr>set_Column = ''id'', set_Value = IntegerLiteral i\<rparr>] None"
  obtain x d1 where b: "begin_txn demo_db1 = (x, d1)" by (cases "begin_txn demo_db1")
  have r: "xid_room (db_txn demo_db1)" using demo_db1_rooms(1) by (simp add: xid_room_def)
  have ok: "spec_ok demo_table (?upd 8) ?rows" "spec_ok demo_table (?upd 9) ?rows" by code_simp+
  have p: "unat (PageCount (file_of demo_db1 (tbl_OID demo_table))) + 2 * length ?rows + 1 < 2 ^ 32"
    using demo_db1_rooms(2) [of "tbl_OID demo_table"] by simp
  have t: "spec_tag demo_table (?upd 8) ?rows = ''UPDATE 1''" "spec_tag demo_table (?upd 9) ?rows = ''UPDATE 1''"
    "spec_rows demo_table (?upd 8) ?rows = [[Some (VInt32 8), Some (VString ''ab'')]]"
    "map (set_row ''t'' [\<lparr>set_Column = ''id'', set_Value = IntegerLiteral 9\<rparr>] (tbl_Columns demo_table)) (filter (where_true (tbl_Columns demo_table) None) ?rows) =
       [[Some (VInt32 9), Some (VString ''ab'')]]" by code_simp+
  show ?thesis using double_update [OF demo_db1(1) r b demo_db1(2,3) refl refl ok p] b unfolding t append.simps by blast
qed

end
