(* ===== verification/HeapRace.thy ===== *)
theory HeapRace
  imports HeapFile
begin

text \<open>
  The calls of \<open>internal/storage/heap.go\<close> that write, taken apart into their uses of the file:
  two goroutines have the same file open and nothing serialises them. The operations of
  \<open>HeapFile\<close> are the runs of one call alone.
\<close>

section \<open>Calls in steps\<close>

text \<open>
  A step of a call ends where the code has used the file: after \<open>PageCount\<close>, after \<open>ReadPage\<close>,
  after \<open>WritePage\<close>; what it computes in between is its own. \<open>call_alone\<close> shows that the
  steps of a call together are the call.
\<close>

datatype heap_op = Insert "byte list" | UpdateHeader u32 u16 tuple_header

type_synonym op_value = "(u32 \<times> u16) option"

datatype call_state =
    Called heap_op
  | Counted "byte list" u32
  | Loaded "byte list" u32 page
  | Writing u32 page op_value
  | Returned "op_value result"

definition new_page :: "byte list \<Rightarrow> u32 \<Rightarrow> call_state" where
  "new_page data pageCount =
     (case AddTuple data (InitPage (replicate PageSize 0)) of
        Ok (newPage, itemIndex) \<Rightarrow> Writing pageCount newPage (Some (pageCount, itemIndex))
      | Err e \<Rightarrow> Returned (Err (ErrNewPage e))
      | Panic \<Rightarrow> Returned Panic)"

definition header_page :: "u16 \<Rightarrow> tuple_header \<Rightarrow> page \<Rightarrow> page result" where
  "header_page itemIdx header page =
     (let pointerOffset = of_nat PageHeaderSize + itemIdx * of_nat ItemPointerSize
      in bind (get_u16 pointerOffset page) (\<lambda>tupleOffset.
         bind (put_u64 tupleOffset (Xmin header) page) (\<lambda>p1.
         put_u64 (tupleOffset + 8) (Xmax header) p1)))"

fun call_step :: "call_state \<Rightarrow> heap_bytes \<Rightarrow> call_state \<times> heap_bytes" where
  "call_step (Called (Insert data)) f =
     (if length data + ItemPointerSize > PageSize - PageHeaderSize
      then (Returned (Err (ErrTupleTooLarge (length data))), f)
      else (Counted data (PageCount f), f))"
| "call_step (Called (UpdateHeader pageNum itemIdx header)) f =
     (case ReadPage pageNum f of
        Err e \<Rightarrow> (Returned (Err e), f)
      | Panic \<Rightarrow> (Returned Panic, f)
      | Ok page \<Rightarrow>
          if itemIdx \<ge> GetItemCount page then (Returned (Err (ErrUpdateRange itemIdx)), f)
          else
            (case header_page itemIdx header page of
               Ok p2 \<Rightarrow> (Writing pageNum p2 None, f)
             | Err e \<Rightarrow> (Returned (Err e), f)
             | Panic \<Rightarrow> (Returned Panic, f)))"
| "call_step (Counted data pageCount) f =
     (if pageCount > 0
      then (case ReadPage (pageCount - 1) f of
              Err e \<Rightarrow> (Returned (Err e), f)
            | Panic \<Rightarrow> (Returned Panic, f)
            | Ok page \<Rightarrow> (Loaded data pageCount page, f))
      else (new_page data pageCount, f))"
| "call_step (Loaded data pageCount page) f =
     (case AddTuple data page of
        Ok (page', itemIndex) \<Rightarrow> (Writing (pageCount - 1) page' (Some (pageCount - 1, itemIndex)), f)
      | Err _ \<Rightarrow> (new_page data pageCount, f)
      | Panic \<Rightarrow> (Returned Panic, f))"
| "call_step (Writing pageNum page v) f = (Returned (Ok v), WritePage pageNum page f)"
| "call_step (Returned r) f = (Returned r, f)"

fun heap_call :: "heap_op \<Rightarrow> heap_bytes \<Rightarrow> op_value result \<times> heap_bytes" where
  "heap_call (Insert data) f = (case InsertTuple data f of (r, f') \<Rightarrow> (bind r (\<lambda>loc. Ok (Some loc)), f'))"
| "heap_call (UpdateHeader pageNum itemIdx header) f =
     (case UpdateTupleHeader pageNum itemIdx header f of (r, f') \<Rightarrow> (bind r (\<lambda>_. Ok None), f'))"

text \<open>Two calls on one file; the schedule says whose step is next.\<close>

fun interleave :: "bool list \<Rightarrow> call_state \<times> call_state \<times> heap_bytes \<Rightarrow> call_state \<times> call_state \<times> heap_bytes" where
  "interleave [] s = s"
| "interleave (True # bs) (a, b, f) = (case call_step a f of (a', f') \<Rightarrow> interleave bs (a', b, f'))"
| "interleave (False # bs) (a, b, f) = (case call_step b f of (b', f') \<Rightarrow> interleave bs (a, b', f'))"

section \<open>A call alone\<close>

fun steps :: "nat \<Rightarrow> call_state \<Rightarrow> heap_bytes \<Rightarrow> call_state \<times> heap_bytes" where
  "steps 0 s f = (s, f)"
| "steps (Suc n) s f = (case call_step s f of (s', f') \<Rightarrow> steps n s' f')"

fun page_of :: "heap_op \<Rightarrow> op_value \<Rightarrow> u32 option" where
  "page_of (Insert data) v = map_option fst v"
| "page_of (UpdateHeader n i h) v = Some n"

text \<open>A call first computes, without touching the file, the page that it then writes.\<close>

fun prepared :: "call_state \<Rightarrow> heap_op \<Rightarrow> heap_bytes \<Rightarrow> bool" where
  "prepared (Writing n p v) op f \<longleftrightarrow> length p = PageSize \<and> page_of op v = Some n \<and> heap_call op f = (Ok v, WritePage n p f)"
| "prepared (Returned r) op f \<longleftrightarrow> (\<forall>v. r \<noteq> Ok v) \<and> heap_call op f = (r, f)"
| "prepared s op f \<longleftrightarrow> False"

lemma length_AddTuple: "AddTuple data p = Ok (p', i) \<Longrightarrow> 8 \<le> length p \<Longrightarrow> length p' = length p"
  by (auto simp: AddTuple_def Let_def result_iff copy_into_def put_u16_def setItemCount_def setLowerOffset_def setUpperOffset_def
      split: if_splits)

lemma length_ReadPage: "ReadPage n f = Ok p \<Longrightarrow> length p = PageSize"
  by (auto simp: ReadPage_def Let_def split: if_splits)

lemma prepared_new_page:
  assumes "InsertTuple data f = allocate_page data f"
  shows "prepared (new_page data (PageCount f)) (Insert data) f"
proof -
  have "length (InitPage (replicate PageSize 0)) = PageSize" by (simp add: InitPage_def setItemCount_def setLowerOffset_def setUpperOffset_def Let_def)
  then show ?thesis
    using assms length_AddTuple [of data "InitPage (replicate PageSize 0)"]
    by (auto simp: new_page_def allocate_page_def Let_def split: result.splits)
qed

lemma insert_prepares: "\<exists>k s. steps k (Called (Insert data)) f = (s, f) \<and> prepared s (Insert data) f"
proof (cases "length data + ItemPointerSize > PageSize - PageHeaderSize")
  case True
  then show ?thesis by (intro exI [of _ 1] exI [of _ "Returned (Err (ErrTupleTooLarge (length data)))"]) (simp add: InsertTuple_def)
next
  case small: False
  show ?thesis
  proof (cases "PageCount f > 0")
    case False
    then have "InsertTuple data f = allocate_page data f" using small by (simp add: InsertTuple_def)
    then show ?thesis
      using small False prepared_new_page by (intro exI [of _ 2] exI [of _ "new_page data (PageCount f)"]) (simp add: numeral_2_eq_2)
  next
    case pos: True
    show ?thesis
    proof (cases "ReadPage (PageCount f - 1) f")
      case (Ok page)
      have st: "steps 3 (Called (Insert data)) f = call_step (Loaded data (PageCount f) page) f"
        using small pos Ok by (simp add: numeral_3_eq_3 split: prod.splits)
      have "prepared (fst (call_step (Loaded data (PageCount f) page) f)) (Insert data) f"
      proof (cases "AddTuple data page")
        case Ok': (Ok r)
        then show ?thesis
          using small pos Ok length_ReadPage [OF Ok] length_AddTuple [of data page] by (cases r) (simp add: InsertTuple_def Let_def)
      next
        case (Err e)
        then have "InsertTuple data f = allocate_page data f" using small pos Ok by (simp add: InsertTuple_def Let_def)
        then show ?thesis using Err prepared_new_page by simp
      qed (use small pos Ok in \<open>simp add: InsertTuple_def Let_def\<close>)
      moreover have "snd (call_step (Loaded data (PageCount f) page) f) = f" by (auto split: result.splits)
      ultimately show ?thesis using st by (metis prod.collapse)
    next
      case (Err e)
      then show ?thesis
        using small pos by (intro exI [of _ 2] exI [of _ "Returned (Err e)"]) (simp add: numeral_2_eq_2 InsertTuple_def Let_def)
    next
      case Panic
      then show ?thesis
        using small pos by (intro exI [of _ 2] exI [of _ "Returned Panic"]) (simp add: numeral_2_eq_2 InsertTuple_def Let_def)
    qed
  qed
qed

lemma length_put_u64: "put_u64 off v p = Ok p' \<Longrightarrow> length p' = length p"
  by (auto simp: put_u64_def split: if_splits)

lemma length_header_page: "header_page i h p = Ok p' \<Longrightarrow> length p' = length p"
  by (auto simp: header_page_def Let_def result_iff dest!: length_put_u64)

lemma UpdateTupleHeader_eq:
  "UpdateTupleHeader n i h f =
     (case ReadPage n f of
        Err e \<Rightarrow> (Err e, f)
      | Panic \<Rightarrow> (Panic, f)
      | Ok page \<Rightarrow>
          if i \<ge> GetItemCount page then (Err (ErrUpdateRange i), f)
          else (case header_page i h page of Ok p2 \<Rightarrow> (Ok (), WritePage n p2 f) | Err e \<Rightarrow> (Err e, f) | Panic \<Rightarrow> (Panic, f)))"
  by (simp add: UpdateTupleHeader_def header_page_def Let_def split: result.splits)

lemma update_prepares:
  "\<exists>k s. steps k (Called (UpdateHeader n i h)) f = (s, f) \<and> prepared s (UpdateHeader n i h) f"
proof -
  have "prepared (fst (call_step (Called (UpdateHeader n i h)) f)) (UpdateHeader n i h) f"
    by (auto simp: UpdateTupleHeader_eq dest!: length_header_page length_ReadPage split: result.splits)
  moreover have "snd (call_step (Called (UpdateHeader n i h)) f) = f" by (auto split: result.splits)
  ultimately show ?thesis
    by (cases "call_step (Called (UpdateHeader n i h)) f") (auto simp del: call_step.simps intro!: exI [of _ 1])
qed

lemma call_prepares: "\<exists>k s. steps k (Called op) f = (s, f) \<and> prepared s op f"
  using insert_prepares update_prepares by (cases op) auto

lemma prepared_returns: "prepared s op f \<Longrightarrow> \<exists>r f'. call_step s f = (Returned r, f') \<and> heap_call op f = (r, f')"
  by (cases s) auto

lemma steps_append: "steps (j + k) s f = (case steps j s f of (s', f') \<Rightarrow> steps k s' f')"
  by (induction j arbitrary: s f) (auto split: prod.splits)

lemma call_alone: "\<exists>k. steps k (Called op) f = (case heap_call op f of (r, f') \<Rightarrow> (Returned r, f'))"
proof -
  obtain k s where k: "steps k (Called op) f = (s, f)" "prepared s op f" using call_prepares by blast
  then obtain r f' where "call_step s f = (Returned r, f')" "heap_call op f = (r, f')" using prepared_returns by blast
  then show ?thesis using k steps_append [of k 1] by (intro exI [of _ "k + 1"]) simp
qed

section \<open>Two calls\<close>

lemma interleave_append: "interleave (xs @ ys) s = interleave ys (interleave xs s)"
proof (induction xs arbitrary: s)
  case (Cons x xs)
  then show ?case by (cases s; cases x) (simp_all split: prod.splits)
qed simp

lemma interleave_first: "steps k a f = (a', f') \<Longrightarrow> interleave (replicate k True) (a, b, f) = (a', b, f')"
  by (induction k arbitrary: a f) (auto split: prod.splits)

lemma interleave_second: "steps k b f = (b', f') \<Longrightarrow> interleave (replicate k False) (a, b, f) = (a, b', f')"
  by (induction k arbitrary: b f) (auto split: prod.splits)

lemma WritePage_twice:
  assumes "length p = PageSize" and "length q = PageSize"
  shows "WritePage n p (WritePage n q f) = WritePage n p f"
proof -
  let ?o = "unat n * PageSize" and ?g = "f @ replicate (unat n * PageSize - length f) 0"
  have "?o \<le> length (put_at ?o q ?g)" by (simp add: put_at_def)
  then have "WritePage n p (WritePage n q f) = put_at ?o p (put_at ?o q ?g)" by (simp add: WritePage_def Let_def)
  also have "\<dots> = put_at ?o p ?g" using assms by (simp add: put_at_def)
  finally show ?thesis by (simp add: WritePage_def Let_def)
qed

text \<open>C13. The heap file has no lock, and its calls read a page, change it and write it back. Run one after the other, two calls do what \<open>InsertTuple\<close> and \<open>UpdateTupleHeader\<close> say. But whenever two insertions or header updates that succeed alone would write the same page, some interleaving of their reads and writes lets both report success and leaves the file as if only the second had run: a row, or the mark of a deletion, is lost.\<close>

theorem heap_call_race:
  assumes "heap_call op1 f = (Ok v1, f1)" and "heap_call op2 f = (Ok v2, f2)" and "page_of op1 v1 = page_of op2 v2"
  shows "(\<exists>sched. interleave sched (Called op1, Called op2, f) = (Returned (Ok v1), Returned (Ok v2), f2)) \<and>
    (\<exists>sched. interleave sched (Called op1, Called op2, f) =
       (case heap_call op2 f1 of (r, f12) \<Rightarrow> (Returned (Ok v1), Returned r, f12)))"
proof
  obtain k1 s1 where k1: "steps k1 (Called op1) f = (s1, f)" "prepared s1 op1 f" using call_prepares by blast
  obtain k2 s2 where k2: "steps k2 (Called op2) f = (s2, f)" "prepared s2 op2 f" using call_prepares by blast
  obtain n p where s1: "s1 = Writing n p v1" "length p = PageSize" "f1 = WritePage n p f" "page_of op1 v1 = Some n"
    using k1(2) assms(1) by (cases s1) auto
  obtain q where s2: "s2 = Writing n q v2" "length q = PageSize" "f2 = WritePage n q f"
    using k2(2) assms(2,3) s1(4) by (cases s2) auto
  have "interleave (replicate k1 True @ replicate k2 False @ [True, False]) (Called op1, Called op2, f) =
      (Returned (Ok v1), Returned (Ok v2), f2)"
    unfolding interleave_append interleave_first [OF k1(1)] interleave_second [OF k2(1)]
    using s1 s2 WritePage_twice by simp
  then show "\<exists>sched. interleave sched (Called op1, Called op2, f) = (Returned (Ok v1), Returned (Ok v2), f2)" by blast
  obtain j1 where j1: "steps j1 (Called op1) f = (Returned (Ok v1), f1)" using call_alone [of op1 f] assms(1) by auto
  obtain r f12 where c: "heap_call op2 f1 = (r, f12)" by (cases "heap_call op2 f1")
  then obtain j2 where j2: "steps j2 (Called op2) f1 = (Returned r, f12)" using call_alone [of op2 f1] by auto
  have "interleave (replicate j1 True @ replicate j2 False) (Called op1, Called op2, f) = (Returned (Ok v1), Returned r, f12)"
    unfolding interleave_append interleave_first [OF j1] interleave_second [OF j2] ..
  then show "\<exists>sched. interleave sched (Called op1, Called op2, f) =
      (case heap_call op2 f1 of (r, f12) \<Rightarrow> (Returned (Ok v1), Returned r, f12))" using c by auto
qed

theorem heap_call_race_witness:
  "let a = replicate 20 (1 :: byte); b = replicate 20 (2 :: byte)
   in \<exists>sched f'. interleave sched (Called (Insert a), Called (Insert b), []) = (Returned (Ok (Some (0, 0))), Returned (Ok (Some (0, 0))), f') \<and>
        read_tuple (0, 0) f' = Ok b"
proof -
  have e: "heap_rep [] []" by (simp add: heap_rep_def)
  have i: "\<exists>f'. heap_call (Insert d) [] = (Ok (Some (0, 0)), f') \<and> heap_rep f' [[d]]" if "length d = 20" for d
    using allocate_page_rep [OF e, of d] that by (auto simp: InsertTuple_def PageCount_def)
  let ?a = "replicate 20 (1 :: byte)" and ?b = "replicate 20 (2 :: byte)"
  obtain f1 f2 where "heap_call (Insert ?a) [] = (Ok (Some (0, 0)), f1)" and b: "heap_call (Insert ?b) [] = (Ok (Some (0, 0)), f2)" "heap_rep f2 [[?b]]"
    using i [of ?a] i [of ?b] by auto
  then have "\<exists>sched. interleave sched (Called (Insert ?a), Called (Insert ?b), []) = (Returned (Ok (Some (0, 0))), Returned (Ok (Some (0, 0))), f2)"
    using heap_call_race [of "Insert ?a" "[]" "Some (0, 0)" f1 "Insert ?b" "Some (0, 0)" f2] by simp
  moreover have "read_tuple (0, 0) f2 = Ok ?b" using read_tuple_rep [OF b(2)] by (simp add: tuple_at_def)
  ultimately show ?thesis by (auto simp: Let_def)
qed

end
