(* ===== verification/Concurrency.thy ===== *)
theory Concurrency
  imports Server
begin

text \<open>
  The server of \<open>internal/server/server.go\<close> with all its connections, and the process of
  \<open>cmd/gopostgres/main.go\<close> around it: \<open>Start\<close> listens and accepts, a goroutine handles each
  connection, they share the database, and a signal makes another goroutine call \<open>Shutdown\<close>.
  The state is a \<open>world\<close>; a step is one of \<open>Start\<close>, of \<open>Shutdown\<close>, or the start, a message or
  the end of one connection. The invariant is proved by induction over the reachable states.
\<close>

section \<open>Connections that share the server\<close>

text \<open>
  A connection that \<open>Start\<close> handed to a goroutine is \<open>Spawned\<close> until the goroutine runs its
  first statements, then \<open>Running\<close> with its transaction state, and \<open>Leaving\<close> between its two
  deferred counter updates. One step is one message of one connection, taken as a whole: the
  messages of different connections interleave in any order.
\<close>

datatype phase = Spawned | Running conn_transaction | Leaving

text \<open>
  Where \<open>Start\<close> and \<open>Shutdown\<close> are. \<open>main\<close> runs \<open>Start\<close> and ends the process when it returns;
  a goroutine of its own calls \<open>Shutdown\<close> when a signal arrives, at any time.
\<close>

datatype start_state = Starting | Accepting | Checking nat | ReturnedNil | ReturnedError
datatype listener_state = Unopened | Open | ListenerClosed
datatype shutdown_state = NotCalled | Cancelled | Closed | Waited

record world =
  w_db :: db
  w_activeConn :: int
  w_wg :: int
  w_conns :: "nat \<rightharpoonup> phase"
  w_start :: start_state
  w_listener :: listener_state
  w_shutdown :: shutdown_state

text \<open>
  \<open>NewServer\<close> does not touch the data directory: the heap files are the ones an earlier process
  left there, whatever they hold, beside a catalog and a transaction manager that start afresh.
\<close>

definition world_init :: "(u32 \<rightharpoonup> heap_bytes) \<Rightarrow> world" where
  "world_init files = \<lparr>w_db = start_db files, w_activeConn = 0, w_wg = 0, w_conns = Map.empty,
     w_start = Starting, w_listener = Unopened, w_shutdown = NotCalled\<rparr>"

inductive server_step :: "(go_error \<Rightarrow> string) \<Rightarrow> int \<Rightarrow> world \<Rightarrow> world \<Rightarrow> bool"
  for error_text :: "go_error \<Rightarrow> string" and maxConnections :: int where
  listen: "w_start w = Starting \<Longrightarrow> server_step error_text maxConnections w (w\<lparr>w_start := Accepting, w_listener := Open\<rparr>)"
| listen_error: "w_start w = Starting \<Longrightarrow> server_step error_text maxConnections w (w\<lparr>w_start := ReturnedError\<rparr>)"
| accept: "w_start w = Accepting \<Longrightarrow> w_listener w = Open \<Longrightarrow> w_conns w i = None \<Longrightarrow>
     server_step error_text maxConnections w (w\<lparr>w_start := Checking i\<rparr>)"
| accept_stop: "w_start w = Accepting \<Longrightarrow> w_shutdown w \<noteq> NotCalled \<Longrightarrow>
     server_step error_text maxConnections w (w\<lparr>w_start := ReturnedNil\<rparr>)"
| accept_retry: "w_start w = Accepting \<Longrightarrow> w_shutdown w = NotCalled \<Longrightarrow> server_step error_text maxConnections w w"
| accept_fatal: "w_start w = Accepting \<Longrightarrow> w_shutdown w = NotCalled \<Longrightarrow>
     server_step error_text maxConnections w (w\<lparr>w_start := ReturnedError\<rparr>)"
| refuse: "w_start w = Checking i \<Longrightarrow> maxConnections \<le> w_activeConn w \<Longrightarrow>
     server_step error_text maxConnections w (w\<lparr>w_start := Accepting\<rparr>)"
| spawn: "w_start w = Checking i \<Longrightarrow> w_activeConn w < maxConnections \<Longrightarrow>
     server_step error_text maxConnections w
       (w\<lparr>w_start := Accepting, w_wg := w_wg w + 1, w_conns := (w_conns w)(i \<mapsto> Spawned)\<rparr>)"
| start: "w_conns w i = Some Spawned \<Longrightarrow>
     server_step error_text maxConnections w
       (w\<lparr>w_activeConn := w_activeConn w + 1, w_conns := (w_conns w)(i \<mapsto> Running idle_txn)\<rparr>)"
| message: "w_conns w i = Some (Running ct) \<Longrightarrow>
     handle_message error_text ty msg ct (w_db w) c = (Ok True, ct', d', c') \<Longrightarrow>
     server_step error_text maxConnections w (w\<lparr>w_db := d', w_conns := (w_conns w)(i \<mapsto> Running ct')\<rparr>)"
| leave: "w_conns w i = Some (Running ct) \<Longrightarrow>
     handle_message error_text ty msg ct (w_db w) c = (r, ct', d', c') \<Longrightarrow> r \<noteq> Ok True \<Longrightarrow>
     server_step error_text maxConnections w
       (w\<lparr>w_db := d', w_activeConn := w_activeConn w - 1, w_conns := (w_conns w)(i \<mapsto> Leaving)\<rparr>)"
| lost: "w_conns w i = Some (Running ct) \<Longrightarrow>
     server_step error_text maxConnections w
       (w\<lparr>w_activeConn := w_activeConn w - 1, w_conns := (w_conns w)(i \<mapsto> Leaving)\<rparr>)"
| finish: "w_conns w i = Some Leaving \<Longrightarrow>
     server_step error_text maxConnections w (w\<lparr>w_wg := w_wg w - 1, w_conns := (w_conns w)(i := None)\<rparr>)"
| cancel: "w_shutdown w = NotCalled \<Longrightarrow> server_step error_text maxConnections w (w\<lparr>w_shutdown := Cancelled\<rparr>)"
| close: "w_shutdown w = Cancelled \<Longrightarrow>
     server_step error_text maxConnections w
       (w\<lparr>w_shutdown := Closed, w_listener := (if w_listener w = Open then ListenerClosed else w_listener w)\<rparr>)"
| wait: "w_shutdown w = Closed \<Longrightarrow> w_wg w = 0 \<Longrightarrow> server_step error_text maxConnections w (w\<lparr>w_shutdown := Waited\<rparr>)"

text \<open>Every state in which there were transaction identifiers left and the files were small.\<close>

definition world_room :: "world \<Rightarrow> bool" where
  "world_room w \<longleftrightarrow> db_small (w_db w) \<and> xid_room (db_txn (w_db w))"

inductive reachable :: "(go_error \<Rightarrow> string) \<Rightarrow> int \<Rightarrow> (u32 \<rightharpoonup> heap_bytes) \<Rightarrow> world \<Rightarrow> bool"
  for error_text :: "go_error \<Rightarrow> string" and maxConnections :: int and files :: "u32 \<rightharpoonup> heap_bytes" where
  init: "reachable error_text maxConnections files (world_init files)"
| step: "reachable error_text maxConnections files w \<Longrightarrow> world_room w \<Longrightarrow> server_step error_text maxConnections w w' \<Longrightarrow>
     reachable error_text maxConnections files w'"

text \<open>The configuration that \<open>main\<close> builds, and the states of the process it runs.\<close>

record config =
  Port :: int
  MaxConnections :: int

definition main_config :: config where
  "main_config = \<lparr>Port = 5432, MaxConnections = 100000\<rparr>"

definition main_reachable :: "(go_error \<Rightarrow> string) \<Rightarrow> (u32 \<rightharpoonup> heap_bytes) \<Rightarrow> world \<Rightarrow> bool" where
  "main_reachable error_text files w \<longleftrightarrow> reachable error_text (MaxConnections main_config) files w"

section \<open>The invariant\<close>

definition undecided :: "txn_manager \<Rightarrow> u64 \<Rightarrow> bool" where
  "undecided tm x \<longleftrightarrow> 0 < x \<and> x \<le> nextXID tm \<and> x \<notin> fst ` set (statuses tm)"

definition conn_ok :: "txn_manager \<Rightarrow> conn_transaction \<Rightarrow> bool" where
  "conn_ok tm ct \<longleftrightarrow> (if ct_State ct = TxnIdle then ct_XID ct = 0 else undecided tm (ct_XID ct))"

definition running :: "world \<Rightarrow> nat set" where
  "running w = {i. \<exists>ct. w_conns w i = Some (Running ct)}"

text \<open>
  The counters and the connections; this part holds whatever the files contain. The second part
  relates the connections to the database they share.
\<close>

definition conns_inv :: "world \<Rightarrow> bool" where
  "conns_inv w \<longleftrightarrow>
     finite (dom (w_conns w)) \<and> w_activeConn w = int (card (running w)) \<and> w_wg w = int (card (dom (w_conns w))) \<and>
     (\<forall>i. w_start w = Checking i \<longrightarrow> w_conns w i = None)"

definition world_inv :: "world \<Rightarrow> bool" where
  "world_inv w \<longleftrightarrow>
     db_safe (w_db w) \<and> txn_inv (db_txn (w_db w)) \<and>
     (\<forall>i ct. w_conns w i = Some (Running ct) \<longrightarrow> conn_ok (db_txn (w_db w)) ct) \<and>
     (\<forall>i j ci cj. w_conns w i = Some (Running ci) \<longrightarrow> w_conns w j = Some (Running cj) \<longrightarrow> i \<noteq> j \<longrightarrow>
        ct_XID ci = ct_XID cj \<longrightarrow> ct_XID ci = 0)"

lemma fail_state_simps [simp]: "ct_XID (fail_state ct) = ct_XID ct" "conn_ok tm (fail_state ct) \<longleftrightarrow> conn_ok tm ct"
  by (auto simp: fail_state_def conn_ok_def)

text \<open>A message decides or begins no transaction but its connection's and its own.\<close>

lemma txn_move_effect:
  assumes "txn_inv tm" and "xid_room tm" and "conn_ok tm ct" and "txn_move ct tm ct' tm'"
  shows "txn_inv tm'" and "conn_ok tm' ct'" and "undecided tm x \<Longrightarrow> x \<noteq> ct_XID ct \<Longrightarrow> undecided tm' x \<and> (x = ct_XID ct' \<longrightarrow> ct_XID ct' = 0)"
proof -
  obtain y t where n: "NextXID tm = (y, t)" by (cases "NextXID tm")
  note f = NextXID_fresh [OF assms(1) n]
  have t: "t = tm\<lparr>nextXID := y\<rparr>" using n by (auto simp: NextXID_def Let_def)
  have ti: "txn_inv t" using txn_inv_NextXID [OF assms(1,2)] n by simp
  have le: "nextXID tm \<le> y" using unat_Suc_nextXID [OF assms(1)] n by (auto simp: NextXID_def Let_def word_le_nat_alt)
  have yf: "x \<noteq> y" if "undecided tm x" for x using that f(3) [of x] by (auto simp: undecided_def)
  have ynew: "y \<notin> fst ` set (statuses tm)" using assms(1) f(3) [of y] by (auto simp: txn_inv_def)
  have uy: "undecided t y" using f(1,2) ynew by (simp add: undecided_def t)
  have keep: "undecided t x" if "undecided tm x" for x using that le by (auto simp: undecided_def t)
  have set: "txn_inv (SetStatus y st t)" "undecided tm x \<Longrightarrow> undecided (SetStatus y st t) x" if "st \<noteq> InProgress" for st x
    using txn_inv_SetStatus [OF ti that f(1)] keep yf by (auto simp: t undecided_def SetStatus_def dom_update)
  have own: "txn_inv (SetStatus (ct_XID ct) st tm)" "undecided tm x \<Longrightarrow> x \<noteq> ct_XID ct \<Longrightarrow> undecided (SetStatus (ct_XID ct) st tm) x"
    if "st \<noteq> InProgress" "ct_State ct \<noteq> TxnIdle" for st x
    using that assms(1,3) txn_inv_SetStatus [OF assms(1) that(1), of "ct_XID ct"]
    by (auto simp: conn_ok_def undecided_def SetStatus_def dom_update)
  consider (same) "ct' \<in> {ct, fail_state ct}" "tm' = tm" | (stmt) "ct' \<in> {ct, fail_state ct}" "ct_XID ct = 0" "tm' \<in> {t, Commit y t, Abort y t}"
    | (beg) "tm' = t" "ct' = \<lparr>ct_State = TxnInTransaction, ct_XID = y\<rparr>" | (idle) "ct' = idle_txn" "tm' = tm"
    | (fin) "ct' = idle_txn" "ct_State ct \<noteq> TxnIdle" "tm' \<in> {Commit (ct_XID ct) tm, Abort (ct_XID ct) tm}"
    using assms(4) n unfolding txn_move_def txn_effect_def by fastforce
  then have "txn_inv tm' \<and> conn_ok tm' ct' \<and> (\<forall>x. undecided tm x \<longrightarrow> x \<noteq> ct_XID ct \<longrightarrow> undecided tm' x \<and> (x = ct_XID ct' \<longrightarrow> ct_XID ct' = 0))"
  proof cases
    case same
    then show ?thesis using assms(1,3) by auto
  next
    case stmt
    have "ct_State ct = TxnIdle" using assms(3) stmt(2) by (auto simp: conn_ok_def undecided_def split: if_splits)
    then have "ct' = ct" using stmt(1) by (auto simp: fail_state_def)
    then show ?thesis
      using stmt(2,3) ti keep set \<open>ct_State ct = TxnIdle\<close> by (auto simp: conn_ok_def Commit_def Abort_def)
  next
    case beg
    then show ?thesis using ti keep uy yf by (auto simp: conn_ok_def)
  next
    case idle
    then show ?thesis using assms(1) by (auto simp: conn_ok_def idle_txn_def)
  next
    case fin
    then show ?thesis using own by (auto simp: conn_ok_def idle_txn_def Commit_def Abort_def)
  qed
  then show "txn_inv tm'" "conn_ok tm' ct'" "undecided tm x \<Longrightarrow> x \<noteq> ct_XID ct \<Longrightarrow> undecided tm' x \<and> (x = ct_XID ct' \<longrightarrow> ct_XID ct' = 0)"
    by blast+
qed

lemma world_inv_init: "disk_ok files \<Longrightarrow> world_inv (world_init files)"
  using db_safe_start [of files] by (simp add: world_inv_def world_init_def txn_inv_def start_db_def NewTxnManager_def)

lemma conns_inv_init: "conns_inv (world_init files)"
  by (simp add: conns_inv_def world_init_def running_def)

lemma finite_running: "conns_inv w \<Longrightarrow> finite (running w)"
  by (rule finite_subset [of _ "dom (w_conns w)"]) (auto simp: conns_inv_def running_def)

lemma world_inv_message:
  assumes "world_inv w" and "world_room w" and "w_conns w i = Some (Running ct)"
    and "handle_message et ty msg ct (w_db w) c = (r, ct', d', c')"
  shows "world_inv (w\<lparr>w_db := d', w_conns := (w_conns w)(i \<mapsto> Running ct')\<rparr>)"
proof -
  let ?w = "w\<lparr>w_db := d', w_conns := (w_conns w)(i \<mapsto> Running ct')\<rparr>"
  have sm: "db_small (w_db w)" "xid_room (db_txn (w_db w))" using assms(2) by (auto simp: world_room_def)
  have inv: "db_safe (w_db w)" "txn_inv (db_txn (w_db w))"
    and ok: "\<And>j cj. w_conns w j = Some (Running cj) \<Longrightarrow> conn_ok (db_txn (w_db w)) cj"
    and uniq: "\<And>j k cj ck. w_conns w j = Some (Running cj) \<Longrightarrow> w_conns w k = Some (Running ck) \<Longrightarrow> j \<noteq> k \<Longrightarrow>
        ct_XID cj = ct_XID ck \<Longrightarrow> ct_XID cj = 0"
    using assms(1) unfolding world_inv_def by blast+
  note h = handle_message_sound [OF inv(1) sm(1) assms(4)]
  note m = txn_move_effect [OF inv(2) sm(2) ok [OF assms(3)] h(4)]
  have other: "conn_ok (db_txn d') cj \<and> (ct_XID cj = ct_XID ct' \<longrightarrow> ct_XID cj = 0)" if j: "w_conns w j = Some (Running cj)" "j \<noteq> i" for j cj
  proof (cases "ct_State cj = TxnIdle")
    case True
    then show ?thesis using ok [OF j(1)] by (simp add: conn_ok_def)
  next
    case False
    then have u: "undecided (db_txn (w_db w)) (ct_XID cj)" using ok [OF j(1)] by (simp add: conn_ok_def)
    then have "ct_XID cj \<noteq> ct_XID ct" using uniq [OF j(1) assms(3) j(2)] by (auto simp: undecided_def)
    from m(3) [OF u this] show ?thesis using False by (simp add: conn_ok_def)
  qed
  show ?thesis
    unfolding world_inv_def using inv h(3) m(1,2) other uniq assms(3) by (auto split: if_splits)
qed

text \<open>The effect of the other steps: a handler starts, leaves or is gone.\<close>

lemma world_inv_conns:
  assumes "world_inv w" and "w_db w' = w_db w"
    and "\<And>j ct. w_conns w' j = Some (Running ct) \<Longrightarrow> w_conns w j = Some (Running ct) \<or> ct = idle_txn"
  shows "world_inv w'"
proof -
  have idle: "conn_ok tm idle_txn" "ct_XID idle_txn = 0" for tm by (simp_all add: conn_ok_def idle_txn_def)
  show ?thesis using assms idle unfolding world_inv_def by metis
qed

lemma conns_inv_spawn:
  assumes "conns_inv w" and "w_start w = Checking i"
  shows "conns_inv (w\<lparr>w_start := Accepting, w_wg := w_wg w + 1, w_conns := (w_conns w)(i \<mapsto> Spawned)\<rparr>)"
proof -
  let ?w = "w\<lparr>w_start := Accepting, w_wg := w_wg w + 1, w_conns := (w_conns w)(i \<mapsto> Spawned)\<rparr>"
  have i: "w_conns w i = None" using assms by (simp add: conns_inv_def)
  have r: "running ?w = running w" using i by (auto simp: running_def)
  have "dom (w_conns ?w) = insert i (dom (w_conns w))" "i \<notin> dom (w_conns w)" using i by auto
  then have "int (card (dom (w_conns ?w))) = int (card (dom (w_conns w))) + 1" "finite (dom (w_conns ?w))"
    using assms(1) by (simp_all add: conns_inv_def)
  then show ?thesis using assms(1) unfolding conns_inv_def r by auto
qed

lemma conns_inv_start:
  assumes "conns_inv w" and "w_conns w i = Some Spawned"
  shows "conns_inv (w\<lparr>w_activeConn := w_activeConn w + 1, w_conns := (w_conns w)(i \<mapsto> Running ct)\<rparr>)"
proof -
  let ?w = "w\<lparr>w_activeConn := w_activeConn w + 1, w_conns := (w_conns w)(i \<mapsto> Running ct)\<rparr>"
  have i: "i \<notin> running w" using assms(2) by (auto simp: running_def)
  have r: "running ?w = insert i (running w)" "dom (w_conns ?w) = dom (w_conns w)" using assms(2) by (auto simp: running_def)
  show ?thesis using assms i finite_running [OF assms(1)] unfolding conns_inv_def r by auto
qed

lemma conns_inv_leave:
  assumes "conns_inv w" and "w_conns w i = Some (Running ct)"
  shows "conns_inv (w\<lparr>w_db := d, w_activeConn := w_activeConn w - 1, w_conns := (w_conns w)(i \<mapsto> Leaving)\<rparr>)"
proof -
  let ?w = "w\<lparr>w_db := d, w_activeConn := w_activeConn w - 1, w_conns := (w_conns w)(i \<mapsto> Leaving)\<rparr>"
  have r: "running ?w = running w - {i}" by (auto simp: running_def)
  have i: "i \<in> running w" using assms(2) by (auto simp: running_def)
  have d: "dom (w_conns ?w) = dom (w_conns w)" using assms(2) by auto
  have "int (card (running w - {i})) = int (card (running w)) - 1"
    using finite_running [OF assms(1)] i card_Diff_singleton [OF i] card_gt_0_iff [of "running w"] by (auto simp: of_nat_diff)
  then show ?thesis using assms unfolding conns_inv_def r d by auto
qed

lemma conns_inv_done:
  assumes "conns_inv w" and "w_conns w i = Some Leaving"
  shows "conns_inv (w\<lparr>w_wg := w_wg w - 1, w_conns := (w_conns w)(i := None)\<rparr>)"
proof -
  let ?w = "w\<lparr>w_wg := w_wg w - 1, w_conns := (w_conns w)(i := None)\<rparr>"
  have r: "running ?w = running w" using assms(2) by (auto simp: running_def)
  have i: "i \<in> dom (w_conns w)" "finite (dom (w_conns w))" using assms by (auto simp: conns_inv_def)
  have "int (card (dom (w_conns w) - {i})) = int (card (dom (w_conns w))) - 1"
    using card_Diff_singleton [OF i(1)] i card_gt_0_iff [of "dom (w_conns w)"] by (auto simp: of_nat_diff)
  moreover have "dom (w_conns ?w) = dom (w_conns w) - {i}" by auto
  ultimately show ?thesis using assms(1) unfolding conns_inv_def r by auto
qed

lemma conns_inv_step:
  assumes "server_step et m w w'" and "conns_inv w"
  shows "conns_inv w'"
  using assms(1)
proof (cases rule: server_step.cases)
  case (message i ct ty msg c ct' d' c')
  have "running w' = running w" "dom (w_conns w') = dom (w_conns w)" using message by (auto simp: running_def)
  then show ?thesis using assms(2) message by (auto simp: conns_inv_def)
next
  case (leave i ct ty msg c r ct' d' c')
  then show ?thesis using conns_inv_leave [OF assms(2)] by simp
next
  case (lost i ct)
  then show ?thesis using conns_inv_leave [OF assms(2), of i ct "w_db w"] by simp
next
  case (spawn i)
  then show ?thesis using conns_inv_spawn [OF assms(2)] by simp
next
  case (start i)
  then show ?thesis using conns_inv_start [OF assms(2)] by simp
next
  case (finish i)
  then show ?thesis using conns_inv_done [OF assms(2)] by simp
qed (use assms(2) in \<open>simp_all add: conns_inv_def running_def\<close>)

lemma world_inv_step:
  assumes "server_step et m w w'" and "world_room w" and "world_inv w"
  shows "world_inv w'"
  using assms(1)
proof (cases rule: server_step.cases)
  case (message i ct ty msg c ct' d' c')
  then show ?thesis using world_inv_message [OF assms(3,2)] by simp
next
  case (leave i ct ty msg c r ct' d' c')
  let ?v = "w\<lparr>w_db := d', w_conns := (w_conns w)(i \<mapsto> Running ct')\<rparr>"
  have "world_inv ?v" using world_inv_message [OF assms(3,2) leave(2,3)] .
  then show ?thesis by (rule world_inv_conns) (auto simp: leave(1) split: if_splits)
qed (rule world_inv_conns [OF assms(3)]; simp split: if_splits)+

lemma reachable_conns: "reachable et m files w \<Longrightarrow> conns_inv w"
  by (induction rule: reachable.induct) (auto intro: conns_inv_init conns_inv_step)

lemma reachable_inv: "reachable et m files w \<Longrightarrow> disk_ok files \<Longrightarrow> world_inv w"
  by (induction rule: reachable.induct) (auto intro: world_inv_init world_inv_step)

section \<open>The connection limit\<close>

text \<open>A server that has accepted \<open>n\<close> connections, of which the first \<open>k\<close> run.\<close>

definition crowd :: "(u32 \<rightharpoonup> heap_bytes) \<Rightarrow> nat \<Rightarrow> nat \<Rightarrow> world" where
  "crowd files k n = \<lparr>w_db = start_db files, w_activeConn = int k, w_wg = int n,
     w_conns = (\<lambda>i. if i < k then Some (Running idle_txn) else if i < n then Some Spawned else None),
     w_start = Accepting, w_listener = Open, w_shutdown = NotCalled\<rparr>"

lemma crowd_simps [simp]:
  "w_db (crowd fs k n) = start_db fs" "w_activeConn (crowd fs k n) = int k" "w_start (crowd fs k n) = Accepting" "w_listener (crowd fs k n) = Open"
  "w_shutdown (crowd fs k n) = NotCalled"
  by (simp_all add: crowd_def)

lemma reachable_same_db:
  "db_small (start_db fs) \<Longrightarrow> reachable et m fs w \<Longrightarrow> w_db w = start_db fs \<Longrightarrow> server_step et m w w' \<Longrightarrow> reachable et m fs w'"
  by (erule reachable.step) (simp_all add: world_room_def start_db_def xid_room_def NewTxnManager_def)

lemma crowd_accept:
  assumes sm: "db_small (start_db fs)" and "0 < m" and "reachable et m fs (crowd fs 0 n)"
  shows "reachable et m fs (crowd fs 0 (Suc n))"
proof -
  let ?v = "(crowd fs 0 n)\<lparr>w_start := Checking n\<rparr>"
  have v: "reachable et m fs ?v"
    by (intro reachable_same_db [OF sm assms(3)] server_step.accept) (simp_all add: crowd_def)
  have "server_step et m ?v (?v\<lparr>w_start := Accepting, w_wg := w_wg ?v + 1, w_conns := (w_conns ?v)(n \<mapsto> Spawned)\<rparr>)"
    using assms(2) by (intro server_step.spawn) (simp_all add: crowd_def)
  moreover have "?v\<lparr>w_start := Accepting, w_wg := w_wg ?v + 1, w_conns := (w_conns ?v)(n \<mapsto> Spawned)\<rparr> = crowd fs 0 (Suc n)"
    by (auto simp: crowd_def fun_eq_iff)
  moreover have "w_db ?v = start_db fs" by simp
  ultimately show ?thesis using reachable_same_db [OF sm v] by metis
qed

lemma crowd_start:
  assumes sm: "db_small (start_db fs)" and "reachable et m fs (crowd fs k n)" and "k < n"
  shows "reachable et m fs (crowd fs (Suc k) n)"
proof -
  let ?w = "crowd fs k n"
  have "server_step et m ?w (?w\<lparr>w_activeConn := w_activeConn ?w + 1, w_conns := (w_conns ?w)(k \<mapsto> Running idle_txn)\<rparr>)"
    using assms(3) by (intro server_step.start) (simp add: crowd_def)
  moreover have "?w\<lparr>w_activeConn := w_activeConn ?w + 1, w_conns := (w_conns ?w)(k \<mapsto> Running idle_txn)\<rparr> = crowd fs (Suc k) n"
    using assms(3) by (auto simp: crowd_def fun_eq_iff)
  ultimately show ?thesis using reachable_same_db [OF sm assms(2)] by (metis crowd_simps(1))
qed

lemma crowd_reachable:
  assumes sm: "db_small (start_db fs)" and "0 < m" and "k \<le> n"
  shows "reachable et m fs (crowd fs k n)"
proof -
  have a: "reachable et m fs (crowd fs 0 n)"
  proof (induction n)
    case 0
    have "server_step et m (world_init fs) (crowd fs 0 0)"
      using server_step.listen [of "world_init fs" et m] by (simp add: world_init_def crowd_def)
    then show ?case using reachable_same_db [OF sm reachable.init] by (simp add: world_init_def)
  qed (rule crowd_accept [OF assms(1,2)])
  show ?thesis using assms(3) by (induction k) (auto intro: a crowd_start [OF sm])
qed

section \<open>Shutdown\<close>

text \<open>The end of the process while \<open>n\<close> handlers run: \<open>Shutdown\<close> has closed the listener and \<open>Start\<close> has returned.\<close>

definition exit_crowd :: "(u32 \<rightharpoonup> heap_bytes) \<Rightarrow> nat \<Rightarrow> world" where
  "exit_crowd fs n = (crowd fs n n)\<lparr>w_shutdown := Closed, w_listener := ListenerClosed, w_start := ReturnedNil\<rparr>"

lemma exit_crowd_reachable:
  assumes sm: "db_small (start_db fs)" and "0 < m"
  shows "reachable et m fs (exit_crowd fs n)"
proof -
  let ?a = "(crowd fs n n)\<lparr>w_shutdown := Cancelled\<rparr>" and ?b = "(crowd fs n n)\<lparr>w_shutdown := Closed, w_listener := ListenerClosed\<rparr>"
  have a: "reachable et m fs ?a"
    by (intro reachable_same_db [OF sm crowd_reachable [OF assms order_refl, of et n]] server_step.cancel) simp_all
  have "server_step et m ?a ?b" using server_step.close [of ?a et m] by simp
  then have b: "reachable et m fs ?b" by (intro reachable_same_db [OF sm a]) simp_all
  have "server_step et m ?b (exit_crowd fs n)"
    using server_step.accept_stop [of ?b et m] by (simp add: exit_crowd_def)
  then show ?thesis by (intro reachable_same_db [OF sm b]) simp_all
qed

text \<open>A connection can always be brought to its end, and \<open>Shutdown\<close> with it.\<close>

lemma retire:
  assumes "conns_inv w" and "w_conns w i = Some ph"
  shows "\<exists>w'. (server_step et m)\<^sup>*\<^sup>* w w' \<and> conns_inv w' \<and> w_conns w' = (w_conns w)(i := None) \<and> w_shutdown w' = w_shutdown w"
proof -
  have fin: ?thesis if "(server_step et m)\<^sup>*\<^sup>* w v" "conns_inv v" "w_conns v = (w_conns w)(i \<mapsto> Leaving)" "w_shutdown v = w_shutdown w" for v
  proof -
    let ?v = "v\<lparr>w_wg := w_wg v - 1, w_conns := (w_conns v)(i := None)\<rparr>"
    have "server_step et m v ?v" using that(3) by (intro server_step.finish) simp
    then show ?thesis
      using that conns_inv_done [OF that(2), of i] by (intro exI [of _ ?v]) (auto intro: rtranclp.rtrancl_into_rtrancl)
  qed
  have run: ?thesis if "(server_step et m)\<^sup>*\<^sup>* w v" "conns_inv v" "w_conns v = (w_conns w)(i \<mapsto> Running ct)" "w_shutdown v = w_shutdown w" for v ct
  proof (rule fin)
    let ?v = "v\<lparr>w_activeConn := w_activeConn v - 1, w_conns := (w_conns v)(i \<mapsto> Leaving)\<rparr>"
    have "server_step et m v ?v" using that(3) by (intro server_step.lost) simp
    then show "(server_step et m)\<^sup>*\<^sup>* w ?v" using that(1) by (rule rtranclp.rtrancl_into_rtrancl [rotated])
    show "conns_inv ?v" using conns_inv_leave [OF that(2), of i ct "w_db v"] that(3) by simp
  qed (use that in auto)
  show ?thesis
  proof (cases ph)
    case Spawned
    let ?v = "w\<lparr>w_activeConn := w_activeConn w + 1, w_conns := (w_conns w)(i \<mapsto> Running idle_txn)\<rparr>"
    have "server_step et m w ?v" using assms(2) Spawned by (intro server_step.start) simp
    then show ?thesis using conns_inv_start [OF assms(1), of i] assms(2) Spawned by (intro run [of ?v idle_txn]) auto
  next
    case (Running ct)
    then show ?thesis using assms by (intro run [of w ct]) (auto simp: map_upd_triv)
  next
    case Leaving
    then show ?thesis using assms by (intro fin [of w]) (auto simp: map_upd_triv)
  qed
qed

lemma drain:
  assumes "conns_inv w"
  shows "\<exists>w'. (server_step et m)\<^sup>*\<^sup>* w w' \<and> w_conns w' = Map.empty \<and> w_wg w' = 0 \<and> w_shutdown w' = w_shutdown w"
  using assms
proof (induction "card (dom (w_conns w))" arbitrary: w)
  case 0
  then have "dom (w_conns w) = {}" by (simp add: conns_inv_def)
  then show ?case using 0 by (intro exI [of _ w]) (simp add: conns_inv_def)
next
  case (Suc k)
  then obtain i where i: "i \<in> dom (w_conns w)" by (metis card.empty nat.distinct(1) ex_in_conv)
  then obtain ph where "w_conns w i = Some ph" by blast
  from retire [OF Suc.prems this, of et m] obtain v where v: "(server_step et m)\<^sup>*\<^sup>* w v" "conns_inv v"
    "w_conns v = (w_conns w)(i := None)" "w_shutdown v = w_shutdown w" by blast
  have "k = card (dom (w_conns v))" using Suc.hyps(2) i v(3) by simp
  from Suc.hyps(1) [OF this v(2)] show ?case using v(1,4) by (auto intro: rtranclp_trans)
qed

lemma shutdown_steps:
  assumes "w_wg w = 0"
  shows "\<exists>w'. (server_step et m)\<^sup>*\<^sup>* w w' \<and> w_shutdown w' = Waited"
proof -
  have closed: "\<exists>w'. (server_step et m)\<^sup>*\<^sup>* v w' \<and> w_shutdown w' = Waited" if "w_wg v = 0" "w_shutdown v = Closed" for v
    using server_step.wait [OF that(2,1), of et m] by (intro exI [of _ "v\<lparr>w_shutdown := Waited\<rparr>"]) auto
  have cancelled: "\<exists>w'. (server_step et m)\<^sup>*\<^sup>* v w' \<and> w_shutdown w' = Waited" if "w_wg v = 0" "w_shutdown v = Cancelled" for v
    using server_step.close [OF that(2), of et m] that(1) closed [of "v\<lparr>w_shutdown := Closed, w_listener := _\<rparr>"]
    by (auto intro: converse_rtranclp_into_rtranclp)
  show ?thesis
  proof (cases "w_shutdown w")
    case NotCalled
    then show ?thesis
      using server_step.cancel [OF NotCalled, of et m] cancelled [of "w\<lparr>w_shutdown := Cancelled\<rparr>"] assms
      by (auto intro: converse_rtranclp_into_rtranclp)
  qed (use assms closed cancelled in auto)
qed

section \<open>Properties\<close>

text \<open>C6. The server starts on a data directory whose files are sequences of well-formed pages: an empty one, or one that an earlier process left, with any tuples in it. However the messages of the clients interleave with each other and with \<open>Start\<close> and \<open>Shutdown\<close>: \<open>activeConn\<close> is the number of running handlers, the wait group counts exactly the handlers that \<open>Start\<close> has launched and that have not ended, every connection whose block is open or failed has a transaction identifier of its own that no other connection has and that nobody has committed or aborted, and the heap files are well-formed, so that a process started later on the files of this one is again in such a state.\<close>

theorem server_invariant:
  assumes "disk_ok files" and "reachable error_text maxConnections files w"
  shows "w_activeConn w = int (card (running w)) \<and> w_wg w = int (card (dom (w_conns w))) \<and> db_safe (w_db w) \<and>
    disk_ok (db_files (w_db w)) \<and> db_safe (w_db (world_init (db_files (w_db w)))) \<and>
    (\<forall>i ct. w_conns w i = Some (Running ct) \<and> ct_State ct \<noteq> TxnIdle \<longrightarrow>
       ct_XID ct \<noteq> 0 \<and> GetStatus (ct_XID ct) (db_txn (w_db w)) = InProgress \<and>
       (\<forall>j cj. j \<noteq> i \<and> w_conns w j = Some (Running cj) \<longrightarrow> ct_XID cj \<noteq> ct_XID ct))"
proof (intro conjI allI impI)
  note inv = reachable_inv [OF assms(2,1)]
  show "w_activeConn w = int (card (running w))" "w_wg w = int (card (dom (w_conns w)))"
    using reachable_conns [OF assms(2)] by (auto simp: conns_inv_def)
  show "db_safe (w_db w)" using inv by (simp add: world_inv_def)
  then show "disk_ok (db_files (w_db w))" by (simp add: db_safe_def)
  then show "db_safe (w_db (world_init (db_files (w_db w))))" by (simp add: world_init_def db_safe_start)
  fix i ct assume c: "w_conns w i = Some (Running ct) \<and> ct_State ct \<noteq> TxnIdle"
  then have u: "undecided (db_txn (w_db w)) (ct_XID ct)" using inv by (auto simp: world_inv_def conn_ok_def)
  show x: "ct_XID ct \<noteq> 0" using u by (auto simp: undecided_def)
  have "map_of (statuses (db_txn (w_db w))) (ct_XID ct) = None" using u by (simp add: undecided_def map_of_eq_None_iff)
  then show "GetStatus (ct_XID ct) (db_txn (w_db w)) = InProgress" by (simp add: GetStatus_def)
  fix j cj assume "j \<noteq> i \<and> w_conns w j = Some (Running cj)"
  then show "ct_XID cj \<noteq> ct_XID ct" using inv c x unfolding world_inv_def by metis
qed

theorem server_invariant_witness:
  "let w = crowd shipped_disk 1 2 in
     w_activeConn w = int (card (running w)) \<and> w_wg w = int (card (dom (w_conns w))) \<and> db_safe (w_db w) \<and> db_files (w_db w) 16384 = Some (mk_page [shipped_tuple])"
  using server_invariant [OF shipped_disk(1) crowd_reachable [OF shipped_disk(2), of 1 1 2 "\<lambda>_. []"]] by (simp add: Let_def) (simp add: shipped_disk_def)

text \<open>C22. \<open>Shutdown\<close> waits for the handlers and can always end: when its \<open>Wait\<close> returns, no handler that \<open>Start\<close> has launched is left; and from every reachable state, whatever the connections are doing and whatever the data directory held, there are steps that end them all and let it return.\<close>

theorem shutdown_waits:
  assumes "reachable error_text maxConnections files w"
  shows "(\<forall>w'. server_step error_text maxConnections w w' \<and> w_shutdown w \<noteq> Waited \<and> w_shutdown w' = Waited \<longrightarrow> w_conns w' = Map.empty) \<and>
    (\<exists>w'. (server_step error_text maxConnections)\<^sup>*\<^sup>* w w' \<and> w_shutdown w' = Waited)"
proof (intro conjI allI impI)
  note inv = reachable_conns [OF assms]
  fix w' assume s: "server_step error_text maxConnections w w' \<and> w_shutdown w \<noteq> Waited \<and> w_shutdown w' = Waited"
  then have "w_wg w = 0" "w_conns w' = w_conns w" by (auto elim: server_step.cases)
  then show "w_conns w' = Map.empty" using inv by (auto simp: conns_inv_def)
next
  obtain v where v: "(server_step error_text maxConnections)\<^sup>*\<^sup>* w v" "w_wg v = 0"
    using drain [OF reachable_conns [OF assms], of error_text maxConnections] by blast
  have "\<exists>w'. (server_step error_text maxConnections)\<^sup>*\<^sup>* v w' \<and> w_shutdown w' = Waited"
    using v(2) by (rule shutdown_steps)
  then show "\<exists>w'. (server_step error_text maxConnections)\<^sup>*\<^sup>* w w' \<and> w_shutdown w' = Waited" using v(1) by (auto intro: rtranclp_trans)
qed

theorem shutdown_waits_witness:
  "\<exists>w'. (server_step (\<lambda>_. []) 1)\<^sup>*\<^sup>* (crowd shipped_disk 1 2) w' \<and> w_shutdown w' = Waited"
  using shutdown_waits [OF crowd_reachable [OF shipped_disk(2), of 1 1 2 "\<lambda>_. []"]] by simp

text \<open>C40. The connection limit does not hold: the count is compared when a connection is accepted but raised only when its goroutine runs, so with any positive limit any number of handlers can come to run at once, on an empty data directory or on any with files below 16 GiB.\<close>

theorem connection_limit_race:
  assumes "0 < maxConnections" and "db_small (start_db files)"
  shows "\<exists>w. reachable error_text maxConnections files w \<and> w_activeConn w = int n \<and> card (running w) = n"
proof -
  have r: "reachable error_text maxConnections files (crowd files n n)" using crowd_reachable [OF assms(2,1)] by simp
  have "w_activeConn (crowd files n n) = int (card (running (crowd files n n)))" using reachable_conns [OF r] unfolding conns_inv_def by blast
  then show ?thesis using r by (intro exI [of _ "crowd files n n"]) simp
qed

theorem connection_limit_race_witness:
  "\<exists>w. reachable (\<lambda>_. []) 1 shipped_disk w \<and> w_activeConn w = 3 \<and> card (running w) = 3"
  using connection_limit_race [of 1 shipped_disk "\<lambda>_. []" 3] shipped_disk(2) by simp

text \<open>C23. The process does not shut down gracefully: \<open>main\<close> ends when \<open>Start\<close> returns, and \<open>Start\<close> returns without an error as soon as the listener is closed, while any number of handlers still run and \<open>Shutdown\<close> still waits for them. So on an empty data directory and on any with files below 16 GiB.\<close>

theorem exit_without_waiting:
  assumes "db_small (start_db files)"
  shows "\<exists>w. main_reachable error_text files w \<and> w_start w = ReturnedNil \<and> w_shutdown w = Closed \<and> w_wg w = int n \<and> card (running w) = n"
proof -
  have r: "reachable error_text (MaxConnections main_config) files (exit_crowd files n)"
    using assms by (rule exit_crowd_reachable) (simp add: main_config_def)
  have "w_activeConn (exit_crowd files n) = int (card (running (exit_crowd files n)))" using reachable_conns [OF r] unfolding conns_inv_def by blast
  then show ?thesis using r by (intro exI [of _ "exit_crowd files n"]) (simp add: main_reachable_def exit_crowd_def crowd_def)
qed

theorem exit_without_waiting_witness:
  "(\<exists>w. main_reachable (\<lambda>_. []) Map.empty w \<and> w_start w = ReturnedNil \<and> w_shutdown w = Closed \<and> card (running w) = 7) \<and>
   (\<exists>w. main_reachable (\<lambda>_. []) shipped_disk w \<and> w_start w = ReturnedNil \<and> w_shutdown w = Closed \<and> card (running w) = 7)"
proof -
  have "db_small (start_db Map.empty)" by (simp add: db_small_def)
  then show ?thesis
    using exit_without_waiting [of Map.empty "\<lambda>_. []" 7] exit_without_waiting [OF shipped_disk(2), of "\<lambda>_. []" 7] by blast
qed

end
