(* ===== verification/LoadTest.thy ===== *)
theory LoadTest
  imports Server
begin

text \<open>
  The client of \<open>cmd/loadtest/main.go\<close>: \<open>sendStartup\<close>, \<open>readUntilReady\<close> and \<open>doConnection\<close>, without
  the read deadline, and its handshake with the server's \<open>handleConnection\<close>. The connection that
  \<open>net.DialTimeout\<close> returns is a parameter.
\<close>

section \<open>The client\<close>

definition startup_text :: string where
  "startup_text = ''user'' @ [CHR 0x00] @ ''postgres'' @ [CHR 0x00] @ ''database'' @ [CHR 0x00] @ ''postgres'' @ [CHR 0x00, CHR 0x00]"

definition sendStartup :: "conn \<Rightarrow> unit result \<times> conn" where
  "sendStartup c =
     (let len = (of_nat (4 + 4 + length startup_text) :: u32); buf = replicate (unat len) 0;
          buf1 = put_at 0 (be_bytes 4 len) buf;
          buf2 = put_at 4 (be_bytes 4 (0x00030000 :: u32)) buf1;
          buf3 = put_at 8 (bytes_of_string startup_text) buf2
      in conn_Write buf3 c)"

function readUntilReady :: "conn \<Rightarrow> unit result \<times> conn" where
  "readUntilReady c =
     cbind (ReadFull 5 c) (\<lambda>header c1.
       let msgType = header ! 0; len = be_word (take 4 (drop 1 header)) :: u32
       in cbind (if len > 4 then ReadFull (unat (len - 4)) c1 else (Ok [], c1)) (\<lambda>_ c2.
            if msgType = byte_of (CHR ''Z'') then (Ok (), c2) else readUntilReady c2))"
  by pat_completeness auto
termination
  by (relation "measure (length \<circ> conn_in)") (auto dest!: ReadFull_shrinks split: if_splits)

declare readUntilReady.simps [simp del]

text \<open>\<open>dialled\<close> is what \<open>net.DialTimeout\<close> returned.\<close>

definition doConnection :: "conn result \<Rightarrow> unit result \<times> conn option" where
  "doConnection dialled =
     (case dialled of
        Err e \<Rightarrow> (Err e, None)
      | Panic \<Rightarrow> (Panic, None)
      | Ok conn \<Rightarrow>
          (case cbind (sendStartup conn) (\<lambda>_ c1. readUntilReady c1) of
             (Ok _, c2) \<Rightarrow> (Ok (), Some (snd (conn_Write [byte_of (CHR ''X''), 0, 0, 0, 4] c2)))
           | (Err e, c2) \<Rightarrow> (Err e, Some c2)
           | (Panic, c2) \<Rightarrow> (Panic, Some c2)))"

section \<open>The handshake\<close>

lemma byte_of_inj: "byte_of a = byte_of b \<longleftrightarrow> a = b"
proof
  assume "byte_of a = byte_of b"
  then have "(of_char a :: nat) = of_char b" unfolding byte_of_def by (metis unat_of_char_byte)
  then show "a = b" by simp
qed simp

lemma readUntilReady_frame:
  assumes "conn_in c = frame ty body @ rs" and "4 + length body < 2 ^ 32"
  shows "readUntilReady c = (if ty = CHR ''Z'' then (Ok (), c\<lparr>conn_in := rs\<rparr>) else readUntilReady (c\<lparr>conn_in := rs\<rparr>))"
proof -
  let ?len = "of_nat (4 + length body) :: u32" let ?h = "byte_of ty # be_bytes 4 ?len"
  have h: "ReadFull 5 c = (Ok ?h, c\<lparr>conn_in := body @ rs\<rparr>)"
    using assms(1) by (intro ReadFull_append) (simp_all add: frame_def)
  have l: "unat ?len = 4 + length body" using assms(2) by (intro unat_of_nat_small) simp
  have p: "(if 4 < ?len then ReadFull (unat (?len - 4)) (c\<lparr>conn_in := body @ rs\<rparr>) else (Ok [], c\<lparr>conn_in := body @ rs\<rparr>))
      = (Ok body, c\<lparr>conn_in := rs\<rparr>)"
  proof (cases "body = []")
    case False
    then have "4 < ?len" using l by (simp add: word_less_nat_alt)
    moreover have "ReadFull (unat (?len - 4)) (c\<lparr>conn_in := body @ rs\<rparr>) = (Ok body, c\<lparr>conn_in := rs\<rparr>)"
      using unat_length_field [OF assms(2)] by (subst ReadFull_append [where bs = body and rs = rs]) simp_all
    ultimately show ?thesis by simp
  qed simp
  have w: "be_word (take 4 (drop 1 ?h)) = ?len" "?h ! 0 = byte_of ty" by simp_all
  show ?thesis
    by (subst readUntilReady.simps) (simp only: h cbind.simps Let_def w p byte_of_inj)
qed

lemma readUntilReady_stream:
  assumes "\<forall>(ty, body) \<in> set ms. ty \<noteq> CHR ''Z'' \<and> 4 + length body < 2 ^ 32" and "4 + length body < 2 ^ 32"
    and "conn_in c = stream (ms @ [(CHR ''Z'', body)]) @ rs"
  shows "readUntilReady c = (Ok (), c\<lparr>conn_in := rs\<rparr>)"
  using assms(1,3)
proof (induction ms arbitrary: c)
  case Nil
  then show ?case using readUntilReady_frame [OF _ assms(2), of c "CHR ''Z''" rs] by (simp add: stream_def)
next
  case (Cons m ms)
  obtain ty b where m: "m = (ty, b)" by (cases m)
  let ?rs = "stream (ms @ [(CHR ''Z'', body)]) @ rs"
  have "conn_in c = frame ty b @ ?rs" using Cons.prems(2) m by (simp add: stream_def)
  from readUntilReady_frame [OF this] Cons.prems(1) m have "readUntilReady c = readUntilReady (c\<lparr>conn_in := ?rs\<rparr>)" by auto
  also have "\<dots> = (Ok (), c\<lparr>conn_in := rs\<rparr>)" using Cons.IH [of "c\<lparr>conn_in := ?rs\<rparr>"] Cons.prems(1) by simp
  finally show ?case .
qed

definition greeting :: "u32 \<Rightarrow> u32 \<Rightarrow> (char \<times> byte list) list" where
  "greeting connID secret =
     (CHR ''R'', be_bytes 4 (0 :: u32)) # map (\<lambda>(k, v). (CHR ''S'', cstring k @ cstring v)) greeting_params @
     [(CHR ''K'', be_bytes 4 connID @ be_bytes 4 secret)]"

lemma greet_answered:
  assumes "faultless c"
  shows "\<exists>c'. greet connID secret c = (Ok (), c') \<and> answered c (greeting connID secret @ [(CHR ''Z'', [byte_of (CHR ''I'')])]) c'"
  using assms
  by (simp add: greet_def greeting_params_def writers_frame conn_Write_def faultless_def answered_def greeting_def stream_def
      del: be_bytes.simps)

lemma startup_bytes:
  "sendStartup c = conn_Write (startup_packet [(''user'', ''postgres''), (''database'', ''postgres'')]) c"
proof -
  have "ProtocolVersion30 = 0x00030000" by (simp add: ProtocolVersion30_def)
  then show ?thesis
    by (simp add: sendStartup_def startup_text_def startup_packet_def params_bytes_def cstring_def put_at_def Let_def
        bytes_of_string_def numeral_eq_Suc del: be_bytes.simps)
qed

lemma message_loop_terminate:
  assumes "conn_in c = frame (CHR ''X'') [] @ rs"
  shows "message_loop et ct d c = (Ok (), ct, d, c\<lparr>conn_in := rs\<rparr>)"
proof -
  have "byte_of (CHR ''X'') \<noteq> byte_of (CHR ''Q'')" by (simp add: byte_of_inj)
  then show ?thesis
    by (subst message_loop.simps) (simp add: ReadMessage_frame [OF assms] handle_message_def)
qed

section \<open>Properties\<close>

text \<open>C38. The load generator and the server understand each other: when the client receives the greeting, it finishes its handshake without an error and has read the greeting to the last byte; and when the server receives what the client wrote, it reads the startup packet, sends exactly that greeting, handles the termination message and ends with the database and the connection count as they were.\<close>

theorem handshake_completes:
  "let hello = stream (greeting (srv_nextConnID srv + 1) secret @ [(CHR ''Z'', [byte_of (CHR ''I'')])])
   in \<exists>client. doConnection (Ok (reading hello)) = (Ok (), Some client) \<and> conn_in client = [] \<and>
        (\<exists>c. handleConnection error_text secret srv (reading (conn_out client)) =
               (srv\<lparr>srv_nextConnID := srv_nextConnID srv + 1\<rparr>, c) \<and> conn_out c = hello)"
proof -
  let ?id = "srv_nextConnID srv + 1" let ?g = "greeting ?id secret"
  let ?hello = "stream (?g @ [(CHR ''Z'', [byte_of (CHR ''I'')])])"
  let ?params = "[(''user'', ''postgres''), (''database'', ''postgres'')]"
  let ?sent = "startup_packet ?params @ frame (CHR ''X'') []"
  let ?client = "\<lparr>conn_in = [], conn_out = ?sent, conn_faults = (\<lambda>_. False), conn_writes = 2\<rparr>"
  have small: "\<forall>(ty, body) \<in> set ?g. ty \<noteq> CHR ''Z'' \<and> 4 + length body < 2 ^ 32"
    by (simp add: greeting_def greeting_params_def cstring_def)
  have s: "sendStartup (reading ?hello) = (Ok (), (reading ?hello)\<lparr>conn_out := startup_packet ?params, conn_writes := 1\<rparr>)"
    unfolding startup_bytes by (simp add: conn_Write_def reading_def)
  have r: "readUntilReady ((reading ?hello)\<lparr>conn_out := startup_packet ?params, conn_writes := 1\<rparr>) =
      (Ok (), (reading ?hello)\<lparr>conn_out := startup_packet ?params, conn_writes := 1, conn_in := []\<rparr>)"
    using readUntilReady_stream [OF small, of "[byte_of (CHR ''I'')]" _ "[]"] by (simp add: reading_def)
  have x: "frame (CHR ''X'') [] = [byte_of (CHR ''X''), 0, 0, 0, 4]" by (simp add: frame_def be_bytes_numeral)
  have c: "doConnection (Ok (reading ?hello)) = (Ok (), Some ?client)"
    unfolding doConnection_def using s r by (simp add: conn_Write_def reading_def x)
  have ok: "params_ok ?params" by (simp add: params_ok_def params_bytes_def cstring_def)
  have st: "ReadStartupMessage (reading ?sent) =
      (Ok \<lparr>ProtocolVersion = ProtocolVersion30, Parameters = map_of (rev ?params)\<rparr>, reading (frame (CHR ''X'') []))"
    using ReadStartup_params [OF ok, of "reading ?sent" "frame (CHR ''X'') []"] by (simp add: reading_def)
  have "faultless (reading (frame (CHR ''X'') []))" by (simp add: faultless_def reading_def)
  then obtain c1 where g: "greet ?id secret (reading (frame (CHR ''X'') [])) = (Ok (), c1)"
    "conn_in c1 = frame (CHR ''X'') []" "conn_out c1 = ?hello"
    using greet_answered [of "reading (frame (CHR ''X'') [])" ?id secret] by (auto simp: answered_def reading_def)
  have "message_loop error_text idle_txn d c1 = (Ok (), idle_txn, d, c1\<lparr>conn_in := []\<rparr>)" for d
    using message_loop_terminate [of c1 "[]"] g(2) by simp
  then have "handleConnection error_text secret srv (reading ?sent) = (srv\<lparr>srv_nextConnID := ?id\<rparr>, c1\<lparr>conn_in := []\<rparr>)"
    by (simp add: handleConnection_def st g(1) Let_def)
  then show ?thesis unfolding Let_def using c g(3) by (intro exI [of _ ?client]) simp
qed

end
