(* ===== verification/LoadMain.thy ===== *)
theory LoadMain
  imports LoadTest
begin

text \<open>
  \<open>main\<close> of \<open>cmd/loadtest/main.go\<close>: the workers that connect until the timer fires, the goroutine that
  prints a line every second and the report at the end, as a step relation over their shared counters.
  A step is one access to shared state. The flags are the number of workers; the timer and the ticker
  may fire at any time; the elapsed time and the rate computed from it are not part of the state.
\<close>

section \<open>The goroutines and their counters\<close>

datatype worker = Testing | Connecting | Sending | Sent
datatype ticker = Ticking | Checked | Counted u64 | TickerStopped
datatype reporter = Receiving nat | Loaded u64 | Printed u64 u64

record load =
  l_done :: bool
  l_total :: u64
  l_failed :: u64
  l_workers :: "worker list"
  l_workerDone :: nat
  l_ticker :: ticker
  l_last :: u64
  l_lines :: "(u64 \<times> u64 \<times> u64) list"
  l_main :: reporter

text \<open>\<open>make\<close> panics on a negative capacity of the channel; the workers are started one after the other and have all still to test \<open>done\<close>.\<close>

definition load_init :: "int \<Rightarrow> load result" where
  "load_init workers =
     (if workers < 0 then Panic
      else Ok \<lparr>l_done = False, l_total = 0, l_failed = 0, l_workers = replicate (nat workers) Testing, l_workerDone = 0,
             l_ticker = Ticking, l_last = 0, l_lines = [], l_main = Receiving 0\<rparr>)"

definition work :: "nat \<Rightarrow> worker \<Rightarrow> load \<Rightarrow> load" where
  "work i w s = s\<lparr>l_workers := (l_workers s)[i := w]\<rparr>"

definition at_work :: "load \<Rightarrow> nat \<Rightarrow> worker \<Rightarrow> bool" where
  "at_work s i w \<longleftrightarrow> i < length (l_workers s) \<and> l_workers s ! i = w"

definition tally :: "unit result \<Rightarrow> load \<Rightarrow> load" where
  "tally r s = (case r of Ok _ \<Rightarrow> s\<lparr>l_total := l_total s + 1\<rparr> | Err _ \<Rightarrow> s\<lparr>l_failed := l_failed s + 1\<rparr> | Panic \<Rightarrow> s)"

text \<open>The second argument lists what \<open>doConnection\<close> returned in the step.\<close>

inductive load_step :: "load \<Rightarrow> unit result list \<Rightarrow> load \<Rightarrow> bool" where
  fire: "load_step s [] (s\<lparr>l_done := True\<rparr>)"
| enter: "at_work s i Testing \<Longrightarrow> \<not> l_done s \<Longrightarrow> load_step s [] (work i Connecting s)"
| connect: "at_work s i Connecting \<Longrightarrow> dialled \<noteq> Panic \<Longrightarrow> doConnection dialled = (r, conn) \<Longrightarrow>
     load_step s [r] (tally r (work i Testing s))"
| leave: "at_work s i Testing \<Longrightarrow> l_done s \<Longrightarrow> load_step s [] (work i Sending s)"
| send: "at_work s i Sending \<Longrightarrow> l_workerDone s < length (l_workers s) \<Longrightarrow>
     load_step s [] (work i Sent s\<lparr>l_workerDone := l_workerDone s + 1\<rparr>)"
| tick_stop: "l_ticker s = Ticking \<Longrightarrow> l_done s \<Longrightarrow> load_step s [] (s\<lparr>l_ticker := TickerStopped\<rparr>)"
| tick: "l_ticker s = Ticking \<Longrightarrow> \<not> l_done s \<Longrightarrow> load_step s [] (s\<lparr>l_ticker := Checked\<rparr>)"
| tick_total: "l_ticker s = Checked \<Longrightarrow> load_step s [] (s\<lparr>l_ticker := Counted (l_total s)\<rparr>)"
| tick_print: "l_ticker s = Counted current \<Longrightarrow>
     load_step s [] (s\<lparr>l_ticker := Ticking, l_last := current, l_lines := l_lines s @ [(current - l_last s, current, l_failed s)]\<rparr>)"
| receive: "l_main s = Receiving k \<Longrightarrow> k < length (l_workers s) \<Longrightarrow> 0 < l_workerDone s \<Longrightarrow>
     load_step s [] (s\<lparr>l_main := Receiving (k + 1), l_workerDone := l_workerDone s - 1\<rparr>)"
| report_total: "l_main s = Receiving k \<Longrightarrow> k = length (l_workers s) \<Longrightarrow> load_step s [] (s\<lparr>l_main := Loaded (l_total s)\<rparr>)"
| report: "l_main s = Loaded t \<Longrightarrow> load_step s [] (s\<lparr>l_main := Printed t (l_failed s)\<rparr>)"

inductive load_steps :: "load \<Rightarrow> unit result list \<Rightarrow> load \<Rightarrow> bool" for s where
  refl: "load_steps s [] s"
| step: "load_steps s os s1 \<Longrightarrow> load_step s1 out s2 \<Longrightarrow> load_steps s (os @ out) s2"

section \<open>The client does not panic\<close>

lemma readUntilReady_no_panic: "fst (readUntilReady c) \<noteq> Panic"
proof (induction c rule: readUntilReady.induct)
  case (1 c)
  show ?case
    using 1 by (subst readUntilReady.simps) (auto simp: ReadFull_def Let_def)
qed

lemma doConnection_no_panic: "dialled \<noteq> Panic \<Longrightarrow> fst (doConnection dialled) \<noteq> Panic"
proof (cases dialled)
  case (Ok c)
  obtain r c1 where s: "sendStartup c = (r, c1)" and r: "r \<noteq> Panic"
    by (cases "sendStartup c") (auto simp: sendStartup_def conn_Write_def Let_def split: if_splits)
  show ?thesis
    using readUntilReady_no_panic [of c1] r by (cases r; cases "readUntilReady c1") (auto simp: doConnection_def Ok s split: result.splits)
qed (auto simp: doConnection_def)

section \<open>The invariant\<close>

definition successes :: "unit result list \<Rightarrow> nat" where
  "successes os = length (filter (\<lambda>r. r = Ok ()) os)"

definition failures :: "unit result list \<Rightarrow> nat" where
  "failures os = length (filter (\<lambda>r. r \<noteq> Ok ()) os)"

definition sent :: "load \<Rightarrow> nat" where
  "sent s = count_list (l_workers s) Sent"

definition received :: "load \<Rightarrow> nat" where
  "received s = (case l_main s of Receiving k \<Rightarrow> k | _ \<Rightarrow> length (l_workers s))"

definition lines_ok :: "nat \<Rightarrow> load \<Rightarrow> bool" where
  "lines_ok n s \<longleftrightarrow> sum_list (map fst (l_lines s)) = l_last s \<and>
     (\<exists>k \<le> n. l_last s = of_nat k \<and> (\<forall>c. l_ticker s = Counted c \<longrightarrow> (\<exists>j. k \<le> j \<and> j \<le> n \<and> c = of_nat j)))"

definition counts_ok :: "unit result list \<Rightarrow> load \<Rightarrow> bool" where
  "counts_ok os s \<longleftrightarrow> l_total s = of_nat (successes os) \<and> l_failed s = of_nat (failures os)"

definition workers_ok :: "nat \<Rightarrow> load \<Rightarrow> bool" where
  "workers_ok n s \<longleftrightarrow> length (l_workers s) = n \<and> l_workerDone s + received s = sent s \<and>
     (Sending \<in> set (l_workers s) \<or> Sent \<in> set (l_workers s) \<longrightarrow> l_done s)"

definition report_ok :: "load \<Rightarrow> bool" where
  "report_ok s \<longleftrightarrow> (case l_main s of Receiving k \<Rightarrow> True | Loaded t \<Rightarrow> t = l_total s | Printed t f \<Rightarrow> t = l_total s \<and> f = l_failed s)"

lemma sent_le: "sent s \<le> length (l_workers s)"
  by (simp add: sent_def count_le_length)

lemma successes_append [simp]: "successes (a @ b) = successes a + successes b"
  by (simp add: successes_def)

lemma failures_append [simp]: "failures (a @ b) = failures a + failures b"
  by (simp add: failures_def)

lemma tallies_Nil [simp]: "successes [] = 0" "failures [] = 0"
  by (simp_all add: successes_def failures_def)

lemma tally_simps [simp]:
  "l_done (tally r s) = l_done s" "l_workers (tally r s) = l_workers s" "l_workerDone (tally r s) = l_workerDone s"
  "l_ticker (tally r s) = l_ticker s" "l_last (tally r s) = l_last s" "l_lines (tally r s) = l_lines s" "l_main (tally r s) = l_main s"
  by (simp_all add: tally_def split: result.splits)

lemma work_simps [simp]:
  "l_done (work i w s) = l_done s" "l_workers (work i w s) = (l_workers s)[i := w]" "l_workerDone (work i w s) = l_workerDone s"
  "l_ticker (work i w s) = l_ticker s" "l_last (work i w s) = l_last s" "l_lines (work i w s) = l_lines s" "l_main (work i w s) = l_main s"
  "l_total (work i w s) = l_total s" "l_failed (work i w s) = l_failed s"
  by (simp_all add: work_def)

lemma count_list_upd:
  "i < length xs \<Longrightarrow> count_list (xs[i := y]) x + (if xs ! i = x then 1 else 0) = count_list xs x + (if y = x then 1 else 0)"
proof (induction xs arbitrary: i)
  case (Cons z zs)
  then show ?case
  proof (cases i)
    case (Suc j)
    then show ?thesis using Cons.IH [of j] Cons.prems by (simp split: if_splits)
  qed simp
qed simp

lemma count_list_full: "count_list xs x = length xs \<longleftrightarrow> (\<forall>y \<in> set xs. y = x)"
proof (induction xs)
  case (Cons z zs)
  then show ?case using count_le_length [of zs x] by (auto split: if_splits)
qed simp

text \<open>After the last worker has been heard nobody is left who could count.\<close>

lemma all_sent:
  assumes "workers_ok n s" and "received s = n" and "w \<in> set (l_workers s)"
  shows "w = Sent"
  using assms sent_le [of s] count_list_full [of "l_workers s" Sent] by (simp add: workers_ok_def sent_def)

lemma at_work_mem: "at_work s i w \<Longrightarrow> w \<in> set (l_workers s)"
  by (auto simp: at_work_def)

lemma sent_work:
  assumes "at_work s i v"
  shows "sent (work i w s) + (if v = Sent then 1 else 0) = sent s + (if w = Sent then 1 else 0)"
  using assms count_list_upd [of i "l_workers s" w Sent] by (simp add: at_work_def sent_def)

lemma received_simps [simp]: "received (work i w s) = received s" "received (tally r s) = received s"
  by (simp_all add: received_def split: reporter.splits)

lemma sent_tally [simp]: "sent (tally r s) = sent s"
  by (simp add: sent_def)

lemma step_counts:
  assumes "load_step s out s'" and "counts_ok os s"
  shows "counts_ok (os @ out) s'"
  using assms
proof cases
  case (connect i dialled r conn)
  then have "r \<noteq> Panic" using doConnection_no_panic [of dialled] by simp
  then show ?thesis using connect assms(2) by (cases r) (auto simp: counts_ok_def tally_def successes_def failures_def)
qed (auto simp: counts_ok_def)

lemma step_workers:
  assumes "load_step s out s'" and "workers_ok n s"
  shows "workers_ok n s'"
  using assms(1)
proof cases
  case (enter i)
  then show ?thesis using assms(2) sent_work [of s i Testing Connecting] by (auto simp: workers_ok_def dest!: set_update_subset_insert [THEN subsetD])
next
  case (connect i dialled r conn)
  then show ?thesis using assms(2) sent_work [of s i Connecting Testing] by (auto simp: workers_ok_def dest!: set_update_subset_insert [THEN subsetD])
next
  case (leave i)
  then show ?thesis using assms(2) sent_work [of s i Testing Sending] by (auto simp: workers_ok_def)
next
  case (send i)
  then show ?thesis
    using assms(2) sent_work [of s i Sending Sent] at_work_mem [of s i Sending]
    by (auto simp: workers_ok_def received_def sent_def split: reporter.splits)
qed (use assms(2) in \<open>auto simp: workers_ok_def received_def sent_def split: reporter.splits\<close>)

lemma step_report:
  assumes "load_step s out s'" and "workers_ok n s" and "report_ok s"
  shows "report_ok s'"
proof (cases "received s = n \<and> (\<forall>k. l_main s \<noteq> Receiving k)")
  case True
  then have "\<not> at_work s i w" if "w \<noteq> Sent" for i w
    using all_sent [OF assms(2)] at_work_mem that by blast
  with assms(1,3) show ?thesis by cases (auto simp: report_ok_def split: reporter.splits)
next
  case False
  then obtain k where "l_main s = Receiving k"
    using assms(2) by (auto simp: received_def workers_ok_def split: reporter.splits)
  with assms(1) show ?thesis by cases (auto simp: report_ok_def)
qed

lemma step_lines:
  assumes "load_step s out s'" and "counts_ok os s" and "lines_ok (successes os) s"
  shows "lines_ok (successes (os @ out)) s'"
proof -
  have keep: "lines_ok (successes (os @ out)) s" using assms(3) unfolding lines_ok_def successes_append by (meson trans_le_add1)
  show ?thesis
    using assms(1)
  proof cases
    case tick_total
    then show ?thesis using assms(2,3) by (auto simp: lines_ok_def counts_ok_def)
  next
    case (tick_print current)
    then show ?thesis using assms(3) by (auto simp: lines_ok_def)
  qed (use keep in \<open>auto simp: lines_ok_def\<close>)
qed

definition load_inv :: "nat \<Rightarrow> unit result list \<Rightarrow> load \<Rightarrow> bool" where
  "load_inv n os s \<longleftrightarrow> counts_ok os s \<and> workers_ok n s \<and> report_ok s \<and> lines_ok (successes os) s"

lemma load_inv_init: "load_init workers = Ok s \<Longrightarrow> load_inv (nat workers) [] s"
proof -
  have "count_list (replicate k Testing) Sent = 0" for k by (induction k) auto
  then show "load_init workers = Ok s \<Longrightarrow> load_inv (nat workers) [] s"
    by (auto simp: load_init_def load_inv_def counts_ok_def workers_ok_def report_ok_def lines_ok_def received_def sent_def split: if_splits)
qed

lemma load_inv_steps: "load_steps s os s' \<Longrightarrow> load_inv n [] s \<Longrightarrow> load_inv n os s'"
proof (induction rule: load_steps.induct)
  case (step os s1 out s2)
  then show ?case using step_counts step_workers step_report step_lines unfolding load_inv_def by blast
qed

section \<open>The report is reached\<close>

primrec worker_left :: "worker \<Rightarrow> nat" where
  "worker_left Connecting = 3"
| "worker_left Testing = 2"
| "worker_left Sending = 1"
| "worker_left Sent = 0"

definition load_left :: "load \<Rightarrow> nat" where
  "load_left s = sum_list (map worker_left (l_workers s)) +
     (case l_main s of Receiving k \<Rightarrow> 2 + length (l_workers s) - k | Loaded t \<Rightarrow> 1 | Printed t f \<Rightarrow> 0)"

lemma sum_list_upd_less:
  fixes f :: "'a \<Rightarrow> nat"
  shows "i < length xs \<Longrightarrow> f y < f (xs ! i) \<Longrightarrow> sum_list (map f (xs[i := y])) < sum_list (map f xs)"
  by (induction xs arbitrary: i) (auto split: nat.splits)

lemma left_work: "at_work s i v \<Longrightarrow> worker_left w < worker_left v \<Longrightarrow> l_main s' = l_main s \<Longrightarrow>
    l_workers s' = (l_workers s)[i := w] \<Longrightarrow> load_left s' < load_left s"
  using sum_list_upd_less [of i "l_workers s" worker_left w] by (auto simp: load_left_def at_work_def split: reporter.splits)

lemma worker_progress:
  assumes "at_work s i w" and "w \<noteq> Sent" and "l_done s" and "l_workerDone s < length (l_workers s)"
  shows "\<exists>out s'. load_step s out s' \<and> load_left s' < load_left s \<and> l_done s'"
proof -
  have c: "doConnection (Err ErrReadConn) = (Err ErrReadConn, None)" by (simp add: doConnection_def)
  show ?thesis
  proof (cases w)
    case Testing
    with assms(1) have "load_step s [] (work i Sending s)" by (intro load_step.leave assms(3)) simp
    moreover have "load_left (work i Sending s) < load_left s" by (rule left_work [OF assms(1)]) (simp_all add: Testing)
    ultimately show ?thesis using assms(3) by (metis work_simps(1))
  next
    case Connecting
    with assms(1) have "load_step s [Err ErrReadConn] (tally (Err ErrReadConn) (work i Testing s))" by (intro load_step.connect [OF _ _ c]) simp_all
    moreover have "load_left (tally (Err ErrReadConn) (work i Testing s)) < load_left s"
      by (rule left_work [OF assms(1)]) (simp_all add: Connecting)
    ultimately show ?thesis using assms(3) by (metis work_simps(1) tally_simps(1))
  next
    case Sending
    let ?s = "work i Sent s\<lparr>l_workerDone := l_workerDone s + 1\<rparr>"
    from Sending assms(1) have "load_step s [] ?s" by (intro load_step.send assms(4)) simp
    moreover have "load_left ?s < load_left s" by (rule left_work [OF assms(1)]) (simp_all add: Sending)
    moreover have "l_done ?s" using assms(3) by simp
    ultimately show ?thesis by blast
  qed (use assms(2) in simp)
qed

lemma load_progress:
  assumes "workers_ok n s" and "l_done s" and "\<forall>t f. l_main s \<noteq> Printed t f"
  shows "\<exists>out s'. load_step s out s' \<and> load_left s' < load_left s \<and> l_done s'"
proof (cases "l_main s")
  case (Receiving k)
  have k: "k \<le> length (l_workers s)" "l_workerDone s + k = sent s"
    using assms(1) sent_le [of s] Receiving by (auto simp: workers_ok_def received_def)
  consider "k = length (l_workers s)" | "k < length (l_workers s)" "0 < l_workerDone s"
    | "l_workerDone s = 0" "k < length (l_workers s)" using k(1) by linarith
  then show ?thesis
  proof cases
    case 1
    then show ?thesis using Receiving load_step.report_total [OF Receiving 1] assms(2) by (force simp: load_left_def)
  next
    case 2
    then show ?thesis using Receiving load_step.receive [OF Receiving 2] assms(2) by (force simp: load_left_def)
  next
    case 3
    then have "count_list (l_workers s) Sent \<noteq> length (l_workers s)" using k(2) by (simp add: sent_def)
    then obtain i w where w: "at_work s i w" "w \<noteq> Sent"
      unfolding count_list_full at_work_def by (metis in_set_conv_nth)
    have z: "l_workerDone s < length (l_workers s)" using 3 by linarith
    show ?thesis by (rule worker_progress [OF w assms(2) z])
  qed
next
  case (Loaded t)
  then show ?thesis using load_step.report [OF Loaded] assms(2) by (force simp: load_left_def)
qed (use assms(3) in simp)

lemma load_steps_first: "load_steps s1 os s2 \<Longrightarrow> load_step s out s1 \<Longrightarrow> load_steps s (out @ os) s2"
  by (induction rule: load_steps.induct)
     (metis load_steps.refl load_steps.step append_Nil append_Nil2, metis load_steps.step append_assoc)

lemma load_finishes:
  assumes "workers_ok n s" and "l_done s"
  shows "\<exists>os s' t f. load_steps s os s' \<and> l_main s' = Printed t f"
  using assms
proof (induction "load_left s" arbitrary: s rule: less_induct)
  case less
  show ?case
  proof (cases "\<exists>t f. l_main s = Printed t f")
    case True
    then show ?thesis using load_steps.refl by blast
  next
    case False
    then obtain out s1 where s1: "load_step s out s1" "load_left s1 < load_left s" "l_done s1"
      using load_progress [OF less.prems] by blast
    then show ?thesis using less.hyps [OF s1(2) step_workers [OF s1(1) less.prems(1)] s1(3)] load_steps_first by blast
  qed
qed

section \<open>Properties\<close>

text \<open>C39. The statistics of the load generator are right: the report comes only after every worker has ended, its two numbers are exactly the attempts of \<open>doConnection\<close> that succeeded and that failed (modulo $2^{64}$), the rates printed every second add up to a number of successes reached so far, and from every state the report can be reached, so that no worker blocks on the channel.\<close>

theorem load_report:
  assumes "load_init workers = Ok s0" and "load_steps s0 os s"
  shows "(\<forall>t f. l_main s = Printed t f \<longrightarrow>
      l_workers s = replicate (nat workers) Sent \<and> t = of_nat (successes os) \<and> f = of_nat (failures os)) \<and>
    (\<exists>k \<le> successes os. sum_list (map fst (l_lines s)) = of_nat k) \<and>
    (\<exists>os' s' t f. load_steps s os' s' \<and> l_main s' = Printed t f)"
proof -
  have inv: "counts_ok os s" "workers_ok (nat workers) s" "report_ok s" "lines_ok (successes os) s"
    using load_inv_steps [OF assms(2) load_inv_init [OF assms(1)]] by (simp_all add: load_inv_def)
  have "l_workers s = replicate (nat workers) Sent" if "l_main s = Printed t f" for t f
    using all_sent [OF inv(2)] inv(2) that by (intro replicate_eqI) (auto simp: workers_ok_def received_def)
  moreover have "t = of_nat (successes os) \<and> f = of_nat (failures os)" if "l_main s = Printed t f" for t f
    using inv(1,3) that by (simp add: report_ok_def counts_ok_def)
  moreover have "\<exists>k \<le> successes os. sum_list (map fst (l_lines s)) = of_nat k"
    using inv(4) by (auto simp: lines_ok_def)
  moreover have "\<exists>os' s' t f. load_steps s os' s' \<and> l_main s' = Printed t f"
    using load_finishes [OF step_workers [OF load_step.fire inv(2)]] load_steps_first [OF _ load_step.fire] by fastforce
  ultimately show ?thesis by blast
qed

text \<open>A run of one worker that connects once, to a server that is ready at once, and fails once.\<close>

definition demo_load :: "ticker \<Rightarrow> worker \<Rightarrow> bool \<Rightarrow> u64 \<Rightarrow> u64 \<Rightarrow> nat \<Rightarrow> reporter \<Rightarrow> load" where
  "demo_load tk w dn t f q m =
     \<lparr>l_done = dn, l_total = t, l_failed = f, l_workers = [w], l_workerDone = q, l_ticker = tk, l_last = 0, l_lines = [], l_main = m\<rparr>"

lemma demo_connect: "\<exists>conn. doConnection (Ok (reading (frame (CHR ''Z'') [73]))) = (Ok (), conn)"
proof -
  let ?c = "(reading (frame (CHR ''Z'') [73]))\<lparr>conn_out := startup_packet [(''user'', ''postgres''), (''database'', ''postgres'')], conn_writes := 1\<rparr>"
  have "sendStartup (reading (frame (CHR ''Z'') [73])) = (Ok (), ?c)"
    unfolding startup_bytes by (simp add: conn_Write_def reading_def)
  moreover have "readUntilReady ?c = (Ok (), ?c\<lparr>conn_in := []\<rparr>)"
    using readUntilReady_frame [of ?c "CHR ''Z''" "[73]" "[]"] by (simp add: reading_def)
  ultimately show ?thesis by (simp add: doConnection_def)
qed

lemma demo_steps:
  "\<exists>s0. load_init 1 = Ok s0 \<and> load_steps s0 [Ok (), Err ErrReadConn] (demo_load Ticking Sent True 1 1 0 (Printed 1 1))"
proof -
  let ?e = "Err ErrReadConn :: unit result" and ?L = "demo_load Ticking"
  obtain conn where ok: "doConnection (Ok (reading (frame (CHR ''Z'') [73]))) = (Ok (), conn)" using demo_connect by blast
  have er: "doConnection (Err ErrReadConn) = (?e, None)" by (simp add: doConnection_def)
  note d = demo_load_def at_work_def work_def tally_def
  have s1: "load_step (?L Testing False t f 0 (Receiving 0)) [] (?L Connecting False t f 0 (Receiving 0))" for t f
    using load_step.enter [of "?L Testing False t f 0 (Receiving 0)" 0] by (simp add: d)
  have s2: "load_step (?L Connecting False 0 0 0 (Receiving 0)) [Ok ()] (?L Testing False 1 0 0 (Receiving 0))"
    using load_step.connect [OF _ _ ok, of "?L Connecting False 0 0 0 (Receiving 0)" 0] by (simp add: d)
  have s3: "load_step (?L Connecting False 1 0 0 (Receiving 0)) [?e] (?L Testing False 1 1 0 (Receiving 0))"
    using load_step.connect [OF _ _ er, of "?L Connecting False 1 0 0 (Receiving 0)" 0] by (simp add: d)
  have s4: "load_step (?L Testing False 1 1 0 (Receiving 0)) [] (?L Testing True 1 1 0 (Receiving 0))"
    using load_step.fire [of "?L Testing False 1 1 0 (Receiving 0)"] by (simp add: d)
  have s5: "load_step (?L Testing True 1 1 0 (Receiving 0)) [] (?L Sending True 1 1 0 (Receiving 0))"
    using load_step.leave [of "?L Testing True 1 1 0 (Receiving 0)" 0] by (simp add: d)
  have s6: "load_step (?L Sending True 1 1 0 (Receiving 0)) [] (?L Sent True 1 1 1 (Receiving 0))"
    using load_step.send [of "?L Sending True 1 1 0 (Receiving 0)" 0] by (simp add: d)
  have s7: "load_step (?L Sent True 1 1 1 (Receiving 0)) [] (?L Sent True 1 1 0 (Receiving 1))"
    using load_step.receive [of "?L Sent True 1 1 1 (Receiving 0)" 0] by (simp add: d)
  have s8: "load_step (?L Sent True 1 1 0 (Receiving 1)) [] (?L Sent True 1 1 0 (Loaded 1))"
    using load_step.report_total [of "?L Sent True 1 1 0 (Receiving 1)" 1] by (simp add: d)
  have s9: "load_step (?L Sent True 1 1 0 (Loaded 1)) [] (?L Sent True 1 1 0 (Printed 1 1))"
    using load_step.report [of "?L Sent True 1 1 0 (Loaded 1)" 1] by (simp add: d)
  have "load_steps (?L Testing False 0 0 0 (Receiving 0)) [Ok (), ?e] (?L Sent True 1 1 0 (Printed 1 1))"
    using load_steps.refl [THEN load_steps_first, OF s9, THEN load_steps_first, OF s8, THEN load_steps_first, OF s7, THEN load_steps_first, OF s6, THEN load_steps_first, OF s5,
        THEN load_steps_first, OF s4, THEN load_steps_first, OF s3, THEN load_steps_first, OF s1, THEN load_steps_first, OF s2, THEN load_steps_first, OF s1] by simp
  then show ?thesis by (simp add: load_init_def demo_load_def)
qed

theorem load_report_witness:
  "(1 :: u64) = of_nat (successes [Ok (), Err ErrReadConn]) \<and> (1 :: u64) = of_nat (failures [Ok (), Err ErrReadConn]) \<and>
   l_workers (demo_load Ticking Sent True 1 1 0 (Printed 1 1)) = replicate (nat 1) Sent"
proof -
  obtain s0 where "load_init 1 = Ok s0" "load_steps s0 [Ok (), Err ErrReadConn] (demo_load Ticking Sent True 1 1 0 (Printed 1 1))"
    using demo_steps by blast
  from load_report [OF this] show ?thesis by (simp add: demo_load_def)
qed

end
