(* ===== verification/Spec2Isabelle.thy ===== *)
theory Spec2Isabelle
  imports Scripts Conflicts HeapRace Concurrency LoadMain
begin

text \<open>
  A verification of gopostgres, a small PostgreSQL server in Go (\<open>cmd/gopostgres\<close>, \<open>internal/\<close>).

  \<^bold>\<open>The program.\<close> \<open>server.Start\<close> accepts TCP connections up to a limit and gives each a goroutine,
  \<open>handleConnection\<close>. The goroutine performs the startup handshake of the PostgreSQL wire protocol
  (package \<open>protocol\<close>) and then loops: it reads a message, hands the text of a query to the lexer
  and the recursive-descent parser (package \<open>parser\<close>), which yield a statement (package \<open>ast\<close>),
  keeps the transaction state of the connection, takes a snapshot (package \<open>txn\<close>), runs the
  statement (package \<open>executor\<close>) and writes the result or the error back. The executor looks tables
  up in the \<open>catalog\<close>, evaluates literals and conditions by the types of \<open>types\<close>, and reads and
  writes heap files of 8192-byte slotted pages (package \<open>storage\<close>), whose tuples carry the
  identifiers of the transactions that created and deleted them. An update writes a new version
  and marks the old one; which versions a statement sees is decided by \<open>txn.IsVisible\<close>. All
  connections share the catalog, the transaction manager and the files. A signal makes a goroutine
  of \<open>main\<close> call \<open>Shutdown\<close>. \<open>cmd/loadtest\<close> is a client whose workers connect, wait for readiness
  and disconnect until a timer fires, and which reports how many attempts succeeded.

  \<^bold>\<open>The theories.\<close> Each models one file or one part of a file, in the order of the calls.

  \<^item> \<open>Prelude\<close>: Go's integers as words, byte strings, big- and little-endian fields, and
    \<open>'a result\<close>, the outcome of a Go call: \<open>Ok\<close>, \<open>Err\<close> with a value of \<open>go_error\<close>, or \<open>Panic\<close>.
    \<open>go_index\<close>, \<open>go_set\<close>, \<open>go_slice\<close>, \<open>go_from\<close>, \<open>put_be\<close> and \<open>get_be\<close> are Go's bounds-checked accesses.
  \<^item> \<open>GoFloat\<close>: the part of IEEE 754 and \<open>strconv\<close> that the program uses (conversion of integers,
    comparison, the bits that are stored).
  \<^item> \<open>SqlTypes\<close> (\<open>types/types.go\<close>): the registry of types as \<open>init\<close> builds it and the text codecs.
  \<^item> \<open>Catalog\<close> (\<open>catalog/catalog.go\<close>), \<open>Txn\<close> (\<open>txn/txn.go\<close>): the shared state and its operations,
    each of which the code runs under a mutex; with the invariants \<open>catalog_inv\<close> and \<open>txn_inv\<close>.
  \<^item> \<open>Page\<close>, \<open>Tuple\<close>, \<open>HeapFile\<close> (\<open>storage/*.go\<close>): bytes of a page, of a tuple, of a file. The page
    refines a list of tuples, the heap file a list of pages; the header offsets are 16-bit words.
  \<^item> \<open>Ast\<close> (\<open>ast/ast.go\<close>), \<open>Eval\<close> and \<open>Executor\<close> (\<open>executor/executor.go\<close>): statements, expressions,
    and the execution of each statement on \<open>db\<close>, the record of catalog, transactions and files.
  \<^item> \<open>TableSpec\<close>, \<open>Dml\<close>, \<open>Statements\<close>, \<open>Database\<close>: the refinement. \<open>TableSpec\<close> says what a statement
    does to a table as a list of rows; \<open>Dml\<close> proves the page and item loops against it, \<open>Statements\<close>
    the whole statements, \<open>Database\<close> single statements and transactions on the invariant \<open>db_inv\<close>;
    \<open>Conflicts\<close> shows what transactions that write the same rows do to each other.
  \<^item> \<open>HeapRace\<close> (\<open>storage/heap.go\<close>): \<open>InsertTuple\<close> and \<open>UpdateTupleHeader\<close> taken apart into their reads
    and writes of the file, for two calls that interleave: the heap file has no lock.
  \<^item> \<open>Safety\<close>: no statement panics, also where the specification does not apply: \<open>disk_ok\<close> asks only
    that the files consist of well-formed pages, with tuples of any bytes. \<open>shipped_disk\<close> is the data
    directory that is in the repository.
  \<^item> \<open>Lexer\<close>, \<open>SqlParser\<close> (\<open>parser/*.go\<close>), \<open>SqlPrint\<close>: tokens and the parser with its one token of
    lookahead; a printer of statements, the reference for the round trip.
  \<^item> \<open>Protocol\<close> (\<open>protocol/*.go\<close>): a connection as the bytes still to come, the bytes written and
    which writes fail; the readers and writers of messages.
  \<^item> \<open>Server\<close> (\<open>server/server.go\<close>): the message switch, the loop and \<open>handleConnection\<close>;
    \<open>Concurrency\<close>: \<open>Start\<close>, \<open>Shutdown\<close>, all connections of one server and the process of \<open>cmd/gopostgres\<close>
    as a step relation; \<open>Wire\<close> joins message and statement, \<open>Scripts\<close> sequences of messages: scripts
    of statements and transaction blocks, with \<open>spec_step\<close>, the effect of a statement on all tables.
  \<^item> \<open>LoadTest\<close>, \<open>LoadMain\<close> (\<open>cmd/loadtest/main.go\<close>): the client against the server, and its workers,
    counters and report as a step relation.

  \<^bold>\<open>What is shown.\<close> This theory composes the parts: from the bytes a client sends to the bytes it
  receives and the rows that later statements see. Beneath it,
  \<^item> refinement: statements against their effect on rows, pages against lists of tuples, header
    updates against an update of one tuple, connection states against the protocol's automaton;
  \<^item> safety and isolation: statements of an open transaction are invisible, a commit shows all of
    them, an abort none; a snapshot is stable; no query panics; the invariant of all connections;
  \<^item> concurrency: \<open>Shutdown\<close> waits for every handler and can always return, but the process may end
    before; the connection limit can be exceeded; two writers of one page can lose a tuple, an abort
    can undo a committed delete; the load generator counts every attempt;
  \<^item> round trips: tuples, text of types, tokens, statements, messages and rows;
  \<^item> totality and bounds: the parser and every loop return, pages accept exactly what fits, integer
    comparison through floats is exact up to $2^{53}$;
  \<^item> errors: tuples too large, malformed lengths, empty queries, and where they are panics.

  \<^bold>\<open>Panics.\<close> An index or slice whose bounds depend on data is a \<open>Panic\<close> branch of the model: in the
  lexer (\<open>NextToken\<close> and its loops), the tuple codec (both directions, the null bitmap and the buffers of the
  fixed-size types included), \<open>TextDecode\<close> of bytea, \<open>AddTuple\<close>, \<open>GetTuple\<close> and \<open>UpdateTupleHeader\<close>, the rows and
  columns in the executor, the values of a row in \<open>row_text\<close>, the bodies of the startup message and of a query. The safety theorems show the branches
  unreachable or, for the last two, say exactly when they are reached. There is no branch where the bounds are
  constants of the source that fit by inspection (the fields of the page header in a
  page of 8192 bytes, the bytes before the data in the buffers that \<open>EncodeTuple\<close>, \<open>encodeVariable\<close>, \<open>protocol/messages.go\<close> and \<open>cmd/loadtest\<close> make with room for them), where the index is that of a
  \<open>range\<close> loop over the same slice, and in \<open>startup_params\<close>, where the end of a slice is what \<open>IndexByte\<close> found.

  \<^bold>\<open>The data directory.\<close> \<open>NewServer\<close> does not touch it, \<open>NewHeapFile\<close> opens an old file without truncating
  it, and catalog and transaction numbers start afresh in every process. So a server starts in \<open>start_db files\<close> for the files
  of any earlier run; \<open>db_init\<close> is the start on an empty directory. \<open>db_inv\<close>, the invariant of the refinement,
  speaks of the files of the tables in the catalog and of no others, and holds after every start.
  \<open>CREATE TABLE\<close> gives an empty table when the file of its OID is empty; \<open>Database\<close> also says
  what it gives otherwise (\<open>stale_rows_reappear\<close>: rows of the earlier run). The theorems on panics and on all
  connections assume \<open>disk_ok files\<close> of the files found, which the server keeps; pages torn by a crash or written by another program, and
  so offsets that point outside a page, are outside them.

  \<^bold>\<open>Where the code departs from its README.\<close> By 5.1 a failed block rejects all commands but \<open>ROLLBACK\<close>; the code also
  accepts \<open>COMMIT\<close>, which rolls back, and \<open>BEGIN\<close>, which opens a new block. \<open>Server\<close> states what the
  code does. The graceful shutdown it promises is refuted in \<open>Concurrency\<close>.

  \<^bold>\<open>Fuel and bounds.\<close> The parser recurs through parentheses and loops over lists, and uses fuel: one more than \<open>left\<close>,
  which bounds the tokens still to come. \<open>parse_sql_total\<close> shows that this is always enough. Every other loop is a
  structural recursion or comes with a termination proof: the loops over pages and items by their
  counters, the readers of messages by the bytes still to come. \<open>xid_room\<close> says that a 64-bit
  identifier is left, \<open>file_room\<close> that the page number of the pages a statement may add is below $2^{32}$,
  \<open>db_small\<close> that the files are smaller than 16 GiB, so that 32-bit page numbers and 64-bit offsets do not wrap;
  \<open>roomy\<close> asks for as many identifiers and pages as a script can use (\<open>script_weight\<close>);
  message bodies are below $2^{32}$ bytes where a theorem says so.

  \<^bold>\<open>Parameters.\<close> \<open>error_text\<close> is the wording of an error, \<open>secret\<close> the random key of a connection,
  and the dialled connection of the client is an argument.

  \<^bold>\<open>Not modelled.\<close> What \<open>net\<close>, \<open>context\<close>, \<open>os/signal\<close> and \<open>slog\<close> do beyond their results: sockets, deadlines,
  delivery of signals, logging; the flags, the elapsed time and the average rate of the load generator;
  failures of the file system other than short reads. \<open>Concurrency\<close> takes one message as one step;
  the interleaving inside a message is covered for the heap file by \<open>HeapRace\<close>, not for whole
  statements.
\<close>

text \<open>C1. A script of data-changing statements, end to end: a client that sends the texts of any number of \<open>INSERT\<close>, \<open>UPDATE\<close> and \<open>DELETE\<close> statements gets, for each in turn, exactly its command tag and \<open>ReadyForQuery\<close> with status \<open>I\<close>; the server goes on with the bytes behind them; and the tables, read as functions from names to rows, are the composition of the statements' specifications.\<close>

theorem script_end_to_end:
  assumes "db_inv d" and "script_ok (db_catalog d) sts (select_all d)"
    and "roomy (length sts) (script_weight (db_catalog d) sts (select_all d)) d" and "list_all sendable sts" and "faultless c" and "conn_in c = script_bytes sts @ rs"
  shows "\<exists>d' c'. message_loop error_text idle_txn d c = message_loop error_text idle_txn d' c' \<and> conn_in c' = rs \<and>
    conn_out c' = conn_out c @ tag_replies TxnIdle (spec_tags (db_catalog d) sts (select_all d)) \<and>
    db_inv d' \<and> select_all d' = fold (spec_step (db_catalog d)) sts (select_all d)"
proof -
  obtain c' where "exchanged error_text (idle_txn, d, c) (script_bytes sts)
      (tag_replies TxnIdle (spec_tags (db_catalog d) sts (select_all d))) (idle_txn, run_script 0 sts d, c')"
    using exchanged_script [OF assms] by blast
  then show ?thesis
    using script_refines [OF assms(1-3)] assms(6) by (auto simp: exchanged_def)
qed

theorem script_end_to_end_witness:
  "\<exists>d' c'. message_loop (\<lambda>_. []) idle_txn demo_db (reading (query_message (sql_text demo_insert))) = message_loop (\<lambda>_. []) idle_txn d' c' \<and>
     conn_out c' = stream [(CHR ''C'', cstring ''INSERT 0 1''), (CHR ''Z'', [73])] \<and>
     select_all d' ''t'' = Some [[Some (VInt32 7), Some (VString ''ab'')]]"
proof -
  have c: "faultless (reading bs)" "conn_in (reading bs) = bs" "conn_out (reading bs) = []" for bs
    by (simp_all add: faultless_def reading_def)
  have z: "tag_replies TxnIdle [tag] = stream [(CHR ''C'', cstring tag), (CHR ''Z'', [73])]" for tag
    by (simp add: tag_replies_def txnStatusByte_def byte_of_def)
  let ?c = "reading (query_message (sql_text demo_insert))"
  have i: "conn_in ?c = script_bytes [demo_insert] @ []" by (simp add: c(2) demo_script(5))
  obtain d' c' where "message_loop (\<lambda>_. []) idle_txn demo_db ?c = message_loop (\<lambda>_. []) idle_txn d' c'"
    "conn_out c' = conn_out ?c @ tag_replies TxnIdle (spec_tags (db_catalog demo_db) [demo_insert] (select_all demo_db))"
    "select_all d' = fold (spec_step (db_catalog demo_db)) [demo_insert] (select_all demo_db)"
    using script_end_to_end [OF demo_db(1) demo_script(1,2,4) c(1) i, of "\<lambda>_. []"] by blast
  then show ?thesis
    unfolding demo_script(6) z c(3) append_Nil by (intro exI [of _ d'] exI [of _ c'] conjI) (simp_all add: demo_script(7) del: fold.simps)
qed

text \<open>C2. A transaction block, end to end: a client that sends \<open>BEGIN\<close>, the texts of any number of data-changing statements and \<open>COMMIT\<close> or \<open>ROLLBACK\<close> gets all their tags, with status \<open>T\<close> up to the last statement and \<open>I\<close> after the end. Before the end every table still reads as before the block; after a rollback too; and a block of \<open>INSERT\<close>s that commits adds all its rows.\<close>

theorem transaction_end_to_end:
  assumes "db_inv d" and "xid_room (db_txn d)" and "begin_txn d = (x, d1)" and "open_script_ok sts d1" and "list_all sendable sts"
    and "fin \<in> {CommitStatement, RollbackStatement}" and "faultless c" and "conn_in c = block_bytes sts fin @ rs"
  shows "\<exists>d' c'. message_loop error_text idle_txn d c = message_loop error_text idle_txn d' c' \<and> conn_in c' = rs \<and>
    conn_out c' = conn_out c @
      tag_replies TxnInTransaction (''BEGIN'' # map (\<lambda>st. step_tag (db_catalog d) st (select_all d)) sts) @
      tag_replies TxnIdle [if fin = CommitStatement then ''COMMIT'' else ''ROLLBACK''] \<and>
    db_inv d' \<and> select_all (run_script x sts d1) = select_all d \<and>
    (fin = RollbackStatement \<longrightarrow> select_all d' = select_all d) \<and>
    (fin = CommitStatement \<and> list_all is_insert sts \<longrightarrow> select_all d' = fold (spec_step (db_catalog d)) sts (select_all d))"
proof -
  obtain c' where "exchanged error_text (idle_txn, d, c) (block_bytes sts fin)
      (tag_replies TxnInTransaction (''BEGIN'' # map (\<lambda>st. step_tag (db_catalog d) st (select_all d)) sts) @
       tag_replies TxnIdle [if fin = CommitStatement then ''COMMIT'' else ''ROLLBACK'']) (idle_txn, decide fin x (run_script x sts d1), c')"
    using exchanged_block [OF assms(1-5,7,8,6)] by blast
  then show ?thesis
    using block_rows [OF assms(1-4)] assms(8)
    by (intro exI [of _ "decide fin x (run_script x sts d1)"] exI [of _ c']) (auto simp: exchanged_def)
qed

theorem transaction_end_to_end_witness:
  "\<exists>d' c' d2 c2. message_loop (\<lambda>_. []) idle_txn demo_db (reading (block_bytes [demo_insert] CommitStatement)) = message_loop (\<lambda>_. []) idle_txn d' c' \<and>
     select_all d' ''t'' = Some [[Some (VInt32 7), Some (VString ''ab'')]] \<and>
     message_loop (\<lambda>_. []) idle_txn demo_db (reading (block_bytes [demo_insert] RollbackStatement)) = message_loop (\<lambda>_. []) idle_txn d2 c2 \<and>
     select_all d2 ''t'' = Some []"
proof -
  have c: "faultless (reading bs)" "conn_in (reading bs) = bs @ []" for bs by (simp_all add: faultless_def reading_def)
  obtain x d1 where b: "begin_txn demo_db = (x, d1)" by (cases "begin_txn demo_db")
  have "list_all is_insert [demo_insert]" by (simp add: demo_insert_def)
  then show ?thesis
    using transaction_end_to_end [OF demo_db(1) demo_rooms(1) b demo_script(3) [OF b] demo_script(4) _ c, of CommitStatement "\<lambda>_. []"]
      transaction_end_to_end [OF demo_db(1) demo_rooms(1) b demo_script(3) [OF b] demo_script(4) _ c, of RollbackStatement "\<lambda>_. []"]
      demo_script(7) demo_db(3)
    by (simp only: insert_iff simp_thms statement.distinct) metis
qed

text \<open>C3. A \<open>SELECT\<close>, end to end: a client that sends its text gets a description of exactly the requested columns, one row message per visible row that satisfies the condition, in order, from which it decodes the text of every value with \<open>NULL\<close>s apart, then the tag with their number and \<open>ReadyForQuery\<close>.\<close>

theorem select_end_to_end:
  assumes "db_inv d" and "GetTable ''public'' tname (db_catalog d) = Ok table" and "select_all d tname = Some rows"
    and "projection names (tbl_Columns table) = Ok (cs, is)" and "list_all (where_ok (tbl_Columns table) wh) rows"
    and "out = map (pick is) (filter (where_true (tbl_Columns table) wh) rows)" and "out \<noteq> []"
    and "typed cs" and "length cs < 2 ^ 16" and "list_all (row_small cs) out"
    and "statement_printable (SelectStatement names tname wh)" and "length (sql_text (SelectStatement names tname wh)) < 2 ^ 32 - 5"
    and "faultless c" and "conn_in c = query_message (sql_text (SelectStatement names tname wh)) @ rs"
  shows "\<exists>d' c' fs bs. message_loop error_text idle_txn d c = message_loop error_text idle_txn d' c' \<and> conn_in c' = rs \<and>
    conn_out c' = conn_out c @ stream ((CHR ''T'', description_body fs) # map (Pair (CHR ''D'')) bs @
      [(CHR ''C'', cstring (''SELECT '' @ FormatInt (int (length out)))), (CHR ''Z'', [byte_of (CHR ''I'')])]) \<and>
    map fd_Name fs = map col_Name cs \<and> map fd_TypeOID fs = map col_TypeOID cs \<and>
    map decode_row bs = map (\<lambda>row. Some (map2 cell_text cs row)) out"
proof -
  let ?st = "SelectStatement names tname wh"
  let ?res = "\<lparr>res_Tag = ''SELECT '' @ FormatInt (int (length out)), res_Columns = cs, res_Rows = out\<rparr>"
  obtain hvs where t: "db_table d tname table hvs" and r: "rows_of (db_txn d) hvs = rows"
    using db_inv_table [OF assms(1-3)] by blast
  have "fst (executeSelect (session 0 d) names tname wh d) = Ok ?res"
    using executeSelect_rows [OF t db_inv_parts(2) [OF assms(1)] assms(4), of wh 0] assms(5,6) r by (simp add: list_all_iff Let_def)
  then obtain d' where e: "Execute (session 0 d) ?st d = (Ok ?res, d')"
    by (cases "executeSelect (session 0 d) names tname wh d") auto
  have "length cs = length is" using projection_ok [OF assms(4)] by simp
  then have "\<forall>row \<in> set out. length row = length cs \<and> row_small cs row"
    using assms(6,10) by (auto simp: pick_def list_all_iff)
  then obtain fs bs where fs: "result_fields cs = Ok fs"
    and s: "sends (send_result ?res TxnIdle) ((CHR ''T'', description_body fs) # map (Pair (CHR ''D'')) bs @
        [(CHR ''C'', cstring (''SELECT '' @ FormatInt (int (length out)))), ready TxnIdle])"
    and b: "map decode_row bs = map (\<lambda>row. Some (map2 cell_text cs row)) out"
    using sends_result_decoded [of ?res TxnIdle] assms(7-9) by auto
  from handle_query_execute [OF Parse_text [OF assms(11)] _ e s, of error_text "c\<lparr>conn_in := rs\<rparr>"]
  obtain c' where h: "handle_query error_text (sql_text ?st) idle_txn d (c\<lparr>conn_in := rs\<rparr>) = (Ok True, idle_txn, d', c')"
    and a: "answered (c\<lparr>conn_in := rs\<rparr>) ((CHR ''T'', description_body fs) # map (Pair (CHR ''D'')) bs @
        [(CHR ''C'', cstring (''SELECT '' @ FormatInt (int (length out)))), ready TxnIdle]) c'" by auto
  show ?thesis
    using message_loop_query [OF assms(14,12) h] a b assms(13) result_fields_names [OF fs]
    by (intro exI [of _ d'] exI [of _ c'] exI [of _ fs] exI [of _ bs]) (auto simp: answered_def faultless_def ready_def txnStatusByte_def)
qed

theorem select_end_to_end_witness:
  "\<exists>d' c' fs bs. message_loop (\<lambda>_. []) idle_txn demo_db1 (reading (query_message (sql_text (SelectStatement [''*''] ''t'' None)))) =
       message_loop (\<lambda>_. []) idle_txn d' c' \<and>
     conn_out c' = stream ((CHR ''T'', description_body fs) # map (Pair (CHR ''D'')) bs @ [(CHR ''C'', cstring ''SELECT 1''), (CHR ''Z'', [73])]) \<and>
     map fd_Name fs = [''id'', ''name''] \<and> map decode_row bs = [Some [Some ''7'', Some ''ab'']]"
proof -
  let ?st = "SelectStatement [''*''] ''t'' None" and ?row = "[Some (VInt32 7), Some (VString ''ab'')]"
  have p: "projection [''*''] (tbl_Columns demo_table) = Ok (demo_columns, [0, 1])" by code_simp
  have w: "list_all (where_ok (tbl_Columns demo_table) None) [?row]" by (simp add: where_ok_def)
  have o: "[?row] = map (pick [0, 1]) (filter (where_true (tbl_Columns demo_table) None) [?row])"
    by (simp add: pick_def where_true_def)
  have t: "typed demo_columns" "statement_printable ?st" by code_simp+
  have l1: "length demo_columns < 2 ^ 16" by (simp add: demo_columns_def)
  have "length (sql_text ?st) < 100" by code_simp
  then have l2: "length (sql_text ?st) < 2 ^ 32 - 5" by simp
  have x: "map2 cell_text demo_columns ?row = [Some ''7'', Some ''ab'']" by code_simp
  have m: "list_all (row_small demo_columns) [?row]" using x by (simp add: row_small_def)
  have c: "faultless (reading (query_message (sql_text ?st)))"
    "conn_in (reading (query_message (sql_text ?st))) = query_message (sql_text ?st) @ []"
    by (simp_all add: faultless_def reading_def)
  have e: "FormatInt 1 = ''1''" "map col_Name demo_columns = [''id'', ''name'']" by code_simp+
  have z: "byte_of (CHR ''I'') = 73" "conn_out (reading bs) = []" for bs by (simp_all add: byte_of_def reading_def)
  obtain d' c' fs bs where r: "message_loop (\<lambda>_. []) idle_txn demo_db1 (reading (query_message (sql_text ?st))) = message_loop (\<lambda>_. []) idle_txn d' c'"
    "conn_out c' = stream ((CHR ''T'', description_body fs) # map (Pair (CHR ''D'')) bs @ [(CHR ''C'', cstring ''SELECT 1''), (CHR ''Z'', [73])])"
    "map fd_Name fs = map col_Name demo_columns" "map decode_row bs = map (\<lambda>row. Some (map2 cell_text demo_columns row)) [?row]"
    using select_end_to_end [OF demo_db1 p w o _ t(1) l1 m t(2) l2 c, of "\<lambda>_. []"] by (simp add: e(1) z del: list.map) blast
  have "map fd_Name fs = [''id'', ''name'']" "map decode_row bs = [Some [Some ''7'', Some ''ab'']]"
    using r(3,4) unfolding e(2) x list.map .
  then show ?thesis using r(1,2) by (intro exI [of _ d'] exI [of _ c'] exI [of _ fs] exI [of _ bs] conjI)
qed

end
